(* ===== verification/Prelude.thy ===== *)
theory Prelude
  imports Main "HOL-Library.Word" "HOL-Library.Monad_Syntax" "HOL-Library.Sublist"
    "HOL-Library.Multiset"
begin

text \<open>
  What every component shares: the collections that carry the automation, the names of the
  model's base types, Go's slice expressions with their run-time checks, and the list and option
  lemmas the components use.

  Go's \<open>int\<close> is 64 bits wide. Log indices, terms and configuration numbers are counters
  that start at 0 and grow by one, so they are modelled as HOL \<open>int\<close>; the values the code
  stores at a fixed width (lengths and checksums of records, key versions, the election
  generation) are words of that width.

  A Go panic and a \<open>log.Fatalf\<close> end the process. An operation that can end that way has a
  result of type \<open>'a option\<close>, with \<open>None\<close> for the end of the process.
\<close>

named_theorems go_simps \<open>unfolding rules of the modelled operations\<close>
named_theorems inv_intros \<open>preservation lemmas of the component invariants\<close>

type_synonym byte = "8 word"
type_synonym bytes = "8 word list"

text \<open>A Go slice of bytes that may be nil: \<open>None\<close> is nil, \<open>Some []\<close> is empty and not nil.\<close>

type_synonym slice = "8 word list option"

section \<open>Go strings\<close>

text \<open>A Go string is a sequence of bytes; \<open>goBytes\<close> is the conversion to them.\<close>

definition charByte :: "char \<Rightarrow> byte" where
  "charByte c = word_of_nat (of_char c)"

definition goBytes :: "string \<Rightarrow> bytes" where
  "goBytes s = map charByte s"

lemma char_of_charByte [simp]: "char_of (unat (charByte c)) = c"
  by (simp add: charByte_def unsigned_of_nat take_bit_nat_eq_self of_char_of)

lemma charByte_inj: "inj charByte"
  by (rule injI) (metis char_of_charByte)

lemma goBytes_inj [simp]: "goBytes s = goBytes t \<longleftrightarrow> s = t"
  by (simp add: goBytes_def inj_map_eq_map [OF charByte_inj])

section \<open>Go slices\<close>

text \<open>\<open>xs[i]\<close>: a panic outside of the slice.\<close>

definition sl_get :: "'a list \<Rightarrow> int \<Rightarrow> 'a option" where
  "sl_get xs i = (if 0 \<le> i \<and> i < int (length xs) then Some (xs ! nat i) else None)"

text \<open>
  \<open>xs[i:]\<close>, \<open>xs[:j]\<close> and \<open>xs[i:j]\<close>. Go allows \<open>j\<close> up to the capacity of the
  slice, which would expose stale elements of the backing array; the model takes every \<open>j\<close>
  beyond the length as a failure.
\<close>

definition sl_from :: "'a list \<Rightarrow> int \<Rightarrow> 'a list option" where
  "sl_from xs i = (if 0 \<le> i \<and> i \<le> int (length xs) then Some (drop (nat i) xs) else None)"

definition sl_upto :: "'a list \<Rightarrow> int \<Rightarrow> 'a list option" where
  "sl_upto xs j = (if 0 \<le> j \<and> j \<le> int (length xs) then Some (take (nat j) xs) else None)"

definition sl_range :: "'a list \<Rightarrow> int \<Rightarrow> int \<Rightarrow> 'a list option" where
  "sl_range xs i j =
     (if 0 \<le> i \<and> i \<le> j \<and> j \<le> int (length xs)
      then Some (take (nat j - nat i) (drop (nat i) xs)) else None)"

lemma sl_get_Some [simp]:
  "0 \<le> i \<Longrightarrow> i < int (length xs) \<Longrightarrow> sl_get xs i = Some (xs ! nat i)"
  by (simp add: sl_get_def)

lemma sl_get_eq_Some_iff:
  "sl_get xs i = Some x \<longleftrightarrow> 0 \<le> i \<and> i < int (length xs) \<and> x = xs ! nat i"
  by (auto simp: sl_get_def)

lemma sl_from_Some [simp]:
  "0 \<le> i \<Longrightarrow> i \<le> int (length xs) \<Longrightarrow> sl_from xs i = Some (drop (nat i) xs)"
  by (simp add: sl_from_def)

lemma sl_upto_Some [simp]:
  "0 \<le> i \<Longrightarrow> i \<le> int (length xs) \<Longrightarrow> sl_upto xs i = Some (take (nat i) xs)"
  by (simp add: sl_upto_def)

lemma sl_range_Some [simp]:
  "0 \<le> i \<Longrightarrow> i \<le> j \<Longrightarrow> j \<le> int (length xs) \<Longrightarrow>
     sl_range xs i j = Some (take (nat j - nat i) (drop (nat i) xs))"
  by (simp add: sl_range_def)

section \<open>Options as results\<close>

lemma bind_eq_SomeE [elim!]:
  assumes "Option.bind m f = Some y"
  obtains x where "m = Some x" and "f x = Some y"
  using assms by (auto simp: bind_eq_Some_conv)

section \<open>Prefixes\<close>

lemma prefix_take_le: "i \<le> j \<Longrightarrow> prefix (take i xs) (take j xs)"
  by (metis min_def take_is_prefix take_take)

lemma prefix_take_eqD:
  "prefix xs ys \<Longrightarrow> n \<le> length xs \<Longrightarrow> take n ys = take n xs"
  by (auto simp: prefix_def)

lemma prefix_nthD: "prefix xs ys \<Longrightarrow> i < length xs \<Longrightarrow> ys ! i = xs ! i"
  by (auto simp: prefix_def nth_append)

lemma prefix_comparable:
  "prefix xs zs \<Longrightarrow> prefix ys zs \<Longrightarrow> length xs \<le> length ys \<Longrightarrow> prefix xs ys"
  using prefix_length_prefix by blast

lemma prefix_take_iff: "prefix xs ys \<longleftrightarrow> take (length xs) ys = xs"
  by (metis append_eq_conv_conj prefix_def take_is_prefix)

lemma take_Suc_nth_eq:
  "take i xs = take i ys \<Longrightarrow> i < length xs \<Longrightarrow> i < length ys \<Longrightarrow> xs ! i = ys ! i \<Longrightarrow>
     take (Suc i) xs = take (Suc i) ys"
  by (simp add: take_Suc_conv_app_nth)

section \<open>Majorities\<close>

text \<open>
  The quorum test of the code is \<open>count > len(nodeIDs)/2\<close>; on a member list without
  duplicates that is a majority of the member set.
\<close>

definition majority :: "'a set \<Rightarrow> 'a set \<Rightarrow> bool" where
  "majority N Q \<longleftrightarrow> Q \<subseteq> N \<and> card N div 2 < card Q"

locale quorum_system =
  fixes quorum :: "'a set \<Rightarrow> bool"
  assumes quorum_meet: "quorum P \<Longrightarrow> quorum Q \<Longrightarrow> P \<inter> Q \<noteq> {}"
begin

lemma quorum_nonempty: "quorum Q \<Longrightarrow> Q \<noteq> {}"
  using quorum_meet by fastforce

lemma quorum_common: "quorum P \<Longrightarrow> quorum Q \<Longrightarrow> \<exists>x. x \<in> P \<and> x \<in> Q"
  using quorum_meet by blast

end

lemma majority_meet:
  assumes "finite N" "majority N P" "majority N Q"
  shows "P \<inter> Q \<noteq> {}"
proof
  assume "P \<inter> Q = {}"
  then have "card (P \<union> Q) = card P + card Q"
    using assms by (meson card_Un_disjoint finite_subset majority_def)
  moreover have "card (P \<union> Q) \<le> card N"
    using assms by (auto simp: majority_def intro: card_mono)
  moreover have "card N div 2 < card P" "card N div 2 < card Q"
    using assms by (simp_all add: majority_def)
  ultimately show False by linarith
qed

interpretation maj: quorum_system "\<lambda>Q. finite N \<and> majority N Q" for N :: "'a set"
  by unfold_locales (auto dest: majority_meet)

end
