(* ===== verification/RaftTypes.thy ===== *)
theory RaftTypes
  imports Prelude
begin

text \<open>
  The data of \<open>raft1/raft.go\<close>: log entries, RPC arguments and replies, roles, and the
  messages of \<open>raftapi/raftapi.go\<close>. A field keeps its Go name behind a prefix for its
  struct, since HOL record fields are global. A command is an \<open>interface{}\<close> value of Go:
  \<open>None\<close> is nil.
\<close>

type_synonym NodeID = string

record 'c LogEntry =
  le_Command :: "'c option"
  le_Term :: int

type_synonym 'c log = "'c LogEntry list"

datatype role = Leader | Follower | Candidate

record 'c AppendEntries =
  ae_Term :: int
  ae_LeaderId :: NodeID
  ae_PrevLogIndex :: int
  ae_PrevLogTerm :: int
  ae_Entries :: "'c log"
  ae_LeaderCommit :: int
  ae_Snapshot :: slice
  ae_SnapshotIndex :: int
  ae_SnapshotTerm :: int

record AppendEntriesReply =
  aer_Term :: int
  aer_Success :: bool
  aer_LastMatchIndex :: int

record RequestVoteArgs =
  rv_Term :: int
  rv_CandidateId :: NodeID
  rv_LastLogIndex :: int
  rv_LastLogTerm :: int

record RequestVoteReply =
  rvr_Term :: int
  rvr_VoteGranted :: bool

record TimeoutNowArgs =
  tn_Term :: int
  tn_LeaderId :: NodeID
  tn_LastLogIndex :: int
  tn_LastLogTerm :: int

record TimeoutNowReply =
  tnr_Term :: int
  tnr_Accepted :: bool

text \<open>The state \<open>beginElectionLocked\<close> captures for the votes it asks for.\<close>

record electionRound =
  er_term :: int
  er_lastLogIndex :: int
  er_lastLogTerm :: int

record 'c ApplyMsg =
  am_CommandValid :: bool
  am_Command :: "'c option"
  am_CommandIndex :: int
  am_SnapshotValid :: bool
  am_Snapshot :: slice
  am_SnapshotTerm :: int
  am_SnapshotIndex :: int

text \<open>What \<open>WAL.Load\<close> returns.\<close>

record 'c PersistState =
  ps_Term :: int
  ps_Vote :: NodeID
  ps_Logs :: "'c log"
  ps_SnapshotIndex :: int
  ps_Snapshot :: slice

text \<open>The zero value Go gives a reply before the handler fills it.\<close>

definition AppendEntriesReply0 :: AppendEntriesReply where
  "AppendEntriesReply0 = \<lparr>aer_Term = 0, aer_Success = False, aer_LastMatchIndex = 0\<rparr>"

definition sentinel :: "int \<Rightarrow> 'c LogEntry" where
  "sentinel t = \<lparr>le_Command = None, le_Term = t\<rparr>"

lemma le_Term_sentinel [simp]: "le_Term (sentinel t) = t"
  by (simp add: sentinel_def)

lemma le_Command_sentinel [simp]: "le_Command (sentinel t) = None"
  by (simp add: sentinel_def)

end
