(* ===== verification/RaftSpec.thy ===== *)
theory RaftSpec
  imports RaftTypes
begin

text \<open>
  The abstract protocol that the Raft nodes implement. Its state records, beside the term and the
  whole log of each node, the history a safety argument needs: who stood for election in a term
  and with which log, every vote with the log of the voter, the elected leader of each term with
  the quorum that elected it, the log of the leader of each term, and how long a prefix of that
  log each node has accepted. Whole logs have no sentinel: index \<open>i\<close> of the code is position
  \<open>i - 1\<close>.
\<close>

record 'c spec =
  sp_term :: "NodeID \<Rightarrow> int"
  sp_log :: "NodeID \<Rightarrow> 'c log"
  sp_cand :: "NodeID \<Rightarrow> int \<Rightarrow> 'c log option"
  sp_vote :: "NodeID \<Rightarrow> int \<Rightarrow> (NodeID \<times> 'c log) option"
  sp_lead :: "int \<Rightarrow> (NodeID \<times> 'c log \<times> NodeID set) option"
  sp_tlog :: "int \<Rightarrow> 'c log"
  sp_ack :: "NodeID \<Rightarrow> int \<Rightarrow> nat"

text \<open>The term of the last entry, as \<open>rf.logs[len(rf.logs)-1].Term\<close> sees it behind the sentinel.\<close>

definition lastTerm :: "'c log \<Rightarrow> int" where
  "lastTerm L = (if L = [] then 0 else le_Term (last L))"

definition uptodate :: "'c log \<Rightarrow> 'c log \<Rightarrow> bool" where
  "uptodate C V \<longleftrightarrow> lastTerm V < lastTerm C \<or> (lastTerm C = lastTerm V \<and> length V \<le> length C)"

definition spec_init :: "'c spec" where
  "spec_init = \<lparr>sp_term = (\<lambda>_. 0), sp_log = (\<lambda>_. []), sp_cand = (\<lambda>_ _. None),
     sp_vote = (\<lambda>_ _. None), sp_lead = (\<lambda>_. None), sp_tlog = (\<lambda>_. []), sp_ack = (\<lambda>_ _. 0)\<rparr>"

definition upd2 :: "('a \<Rightarrow> 'b \<Rightarrow> 'c) \<Rightarrow> 'a \<Rightarrow> 'b \<Rightarrow> 'c \<Rightarrow> 'a \<Rightarrow> 'b \<Rightarrow> 'c" where
  "upd2 f a b c = f(a := (f a)(b := c))"

lemma upd2_apply: "upd2 f a b c x y = (if x = a \<and> y = b then c else f x y)"
  by (simp add: upd2_def)

text \<open>
  A node that accepts the first \<open>m\<close> entries of its leader's log keeps its own log when that
  log already starts with them, and otherwise replaces it. The rule \<open>cut\<close> is a node that
  crashed half way: its log is a part of the leader's log that has at least what the two shared.
\<close>

definition accepted_log :: "'c log \<Rightarrow> 'c log \<Rightarrow> 'c log" where
  "accepted_log P L = (if prefix P L then L else P)"

inductive spec_step :: "NodeID set \<Rightarrow> 'c spec \<Rightarrow> 'c spec \<Rightarrow> bool" for N where
  bump: "sp_term s n < t \<Longrightarrow> spec_step N s (s\<lparr>sp_term := (sp_term s)(n := t)\<rparr>)"
| stand: "n \<in> N \<Longrightarrow> t = sp_term s n + 1 \<Longrightarrow>
     spec_step N s (s\<lparr>sp_term := (sp_term s)(n := t),
       sp_cand := upd2 (sp_cand s) n t (Some (sp_log s n)),
       sp_vote := upd2 (sp_vote s) n t (Some (n, sp_log s n))\<rparr>)"
| vote: "sp_term s n = t \<Longrightarrow> sp_vote s n t = None \<Longrightarrow> sp_cand s c t = Some L \<Longrightarrow>
     uptodate L (sp_log s n) \<Longrightarrow>
     spec_step N s (s\<lparr>sp_vote := upd2 (sp_vote s) n t (Some (c, sp_log s n))\<rparr>)"
| win: "sp_term s n = t \<Longrightarrow> sp_cand s n t = Some (sp_log s n) \<Longrightarrow> sp_lead s t = None \<Longrightarrow>
     majority N Q \<Longrightarrow> (\<And>q. q \<in> Q \<Longrightarrow> \<exists>V. sp_vote s q t = Some (n, V)) \<Longrightarrow>
     spec_step N s (s\<lparr>sp_lead := (sp_lead s)(t := Some (n, sp_log s n, Q)),
       sp_tlog := (sp_tlog s)(t := sp_log s n),
       sp_ack := upd2 (sp_ack s) n t (length (sp_log s n))\<rparr>)"
| append: "sp_term s n = t \<Longrightarrow> sp_lead s t = Some (n, L, Q) \<Longrightarrow> sp_log s n = sp_tlog s t \<Longrightarrow>
     le_Term e = t \<Longrightarrow>
     spec_step N s (s\<lparr>sp_log := (sp_log s)(n := sp_log s n @ [e]),
       sp_tlog := (sp_tlog s)(t := sp_tlog s t @ [e]),
       sp_ack := upd2 (sp_ack s) n t (Suc (length (sp_tlog s t)))\<rparr>)"
| accept: "sp_term s n = t \<Longrightarrow> sp_lead s t \<noteq> None \<Longrightarrow> m \<le> length (sp_tlog s t) \<Longrightarrow>
     spec_step N s (s\<lparr>sp_log := (sp_log s)(n := accepted_log (take m (sp_tlog s t)) (sp_log s n)),
       sp_ack := upd2 (sp_ack s) n t (max (sp_ack s n t) m)\<rparr>)"
| cut: "sp_term s n = t \<Longrightarrow> sp_lead s t \<noteq> None \<Longrightarrow>
     (\<And>P. prefix P (sp_tlog s t) \<Longrightarrow> prefix P (sp_log s n) \<Longrightarrow> length P \<le> j) \<Longrightarrow>
     spec_step N s (s\<lparr>sp_log := (sp_log s)(n := take j (sp_tlog s t))\<rparr>)"

inductive spec_reach :: "NodeID set \<Rightarrow> 'c spec \<Rightarrow> bool" for N where
  init: "spec_reach N spec_init"
| step: "spec_reach N s \<Longrightarrow> spec_step N s s' \<Longrightarrow> spec_reach N s'"

section \<open>The invariant\<close>

text \<open>
  Every entry of a log was appended by the leader of its term, and the log up to that entry is a
  prefix of that leader's log.
\<close>

definition grounded :: "'c spec \<Rightarrow> 'c log \<Rightarrow> bool" where
  "grounded s L \<longleftrightarrow> (\<forall>i < length L. sp_lead s (le_Term (L ! i)) \<noteq> None \<and>
     prefix (take (Suc i) L) (sp_tlog s (le_Term (L ! i))))"

text \<open>
  \<open>kept s t k T P\<close>: every leader elected after term \<open>t\<close> and before term \<open>T\<close> started
  with the first \<open>k\<close> entries of the log of term \<open>t\<close>.
\<close>

definition kept :: "'c spec \<Rightarrow> int \<Rightarrow> nat \<Rightarrow> int \<Rightarrow> bool" where
  "kept s t k T \<longleftrightarrow> (\<forall>u m L Q. t < u \<and> u < T \<and> sp_lead s u = Some (m, L, Q) \<longrightarrow>
     prefix (take k (sp_tlog s t)) L)"

definition inv_terms :: "'c spec \<Rightarrow> bool" where
  "inv_terms s \<longleftrightarrow>
     (\<forall>n t v. sp_vote s n t = Some v \<longrightarrow> t \<le> sp_term s n) \<and>
     (\<forall>n. 0 \<le> sp_term s n) \<and>
     (\<forall>n t L. sp_cand s n t = Some L \<longrightarrow>
        0 < t \<and> t \<le> sp_term s n \<and> (\<forall>e \<in> set L. le_Term e < t)) \<and>
     (\<forall>n. \<forall>e \<in> set (sp_log s n). le_Term e \<le> sp_term s n) \<and>
     (\<forall>t. \<forall>e \<in> set (sp_tlog s t). le_Term e \<le> t) \<and>
     (\<forall>n t. sp_term s n < t \<longrightarrow> sp_ack s n t = 0) \<and>
     (\<forall>n t. sp_ack s n t \<le> length (sp_tlog s t))"

definition inv_lead :: "NodeID set \<Rightarrow> 'c spec \<Rightarrow> bool" where
  "inv_lead N s \<longleftrightarrow>
     (\<forall>t. sp_lead s t = None \<longrightarrow> sp_tlog s t = []) \<and>
     (\<forall>t n L Q. sp_lead s t = Some (n, L, Q) \<longrightarrow>
        sp_cand s n t = Some L \<and> majority N Q \<and> (\<forall>q \<in> Q. \<exists>V. sp_vote s q t = Some (n, V)) \<and>
        (\<exists>A. sp_tlog s t = L @ A \<and> (\<forall>e \<in> set A. le_Term e = t))) \<and>
     (\<forall>n t c V. sp_vote s n t = Some (c, V) \<longrightarrow> (\<exists>L. sp_cand s c t = Some L \<and> uptodate L V))"

definition inv_grounded :: "'c spec \<Rightarrow> bool" where
  "inv_grounded s \<longleftrightarrow>
     (\<forall>n. grounded s (sp_log s n)) \<and> (\<forall>t. grounded s (sp_tlog s t)) \<and>
     (\<forall>n t L. sp_cand s n t = Some L \<longrightarrow> grounded s L) \<and>
     (\<forall>n t c V. sp_vote s n t = Some (c, V) \<longrightarrow> grounded s V)"

definition inv_ack :: "'c spec \<Rightarrow> bool" where
  "inv_ack s \<longleftrightarrow>
     (\<forall>n t k. k \<le> sp_ack s n t \<longrightarrow> kept s t k (sp_term s n + 1) \<longrightarrow>
        prefix (take k (sp_tlog s t)) (sp_log s n)) \<and>
     (\<forall>n t k T c V. k \<le> sp_ack s n t \<longrightarrow> t < T \<longrightarrow> sp_vote s n T = Some (c, V) \<longrightarrow>
        (\<forall>m L Q. sp_lead s T = Some (m, L, Q) \<longrightarrow> n \<in> Q) \<longrightarrow> kept s t k T \<longrightarrow>
        prefix (take k (sp_tlog s t)) V)"

definition spec_inv :: "NodeID set \<Rightarrow> 'c spec \<Rightarrow> bool" where
  "spec_inv N s \<longleftrightarrow> inv_terms s \<and> inv_lead N s \<and> inv_grounded s \<and> inv_ack s"


lemmas spec_inv_defs = inv_terms_def inv_lead_def inv_grounded_def inv_ack_def

lemma spec_inv_init: "spec_inv N spec_init"
  by (simp add: spec_inv_def spec_inv_defs spec_init_def grounded_def)

section \<open>History only grows\<close>

definition extends :: "'c spec \<Rightarrow> 'c spec \<Rightarrow> bool" where
  "extends s s' \<longleftrightarrow>
     (\<forall>t x. sp_lead s t = Some x \<longrightarrow> sp_lead s' t = Some x) \<and>
     (\<forall>t. prefix (sp_tlog s t) (sp_tlog s' t)) \<and>
     (\<forall>n t. sp_ack s n t \<le> sp_ack s' n t) \<and>
     (\<forall>n. sp_term s n \<le> sp_term s' n) \<and>
     (\<forall>n t x. sp_cand s n t = Some x \<longrightarrow> sp_cand s' n t = Some x) \<and>
     (\<forall>n t x. sp_vote s n t = Some x \<longrightarrow> sp_vote s' n t = Some x)"

lemma extends_refl [simp]: "extends s s"
  by (simp add: extends_def)

lemma extends_trans: "extends s s' \<Longrightarrow> extends s' s'' \<Longrightarrow> extends s s''"
  unfolding extends_def by (meson order_trans prefix_order.trans)

lemma inv_fresh:
  assumes "spec_inv N s" "sp_term s n < t"
  shows "sp_vote s n t = None" "sp_cand s n t = None" "sp_ack s n t = 0"
proof -
  show "sp_ack s n t = 0" using assms by (simp add: spec_inv_def inv_terms_def)
  show "sp_vote s n t = None"
    using assms by (cases "sp_vote s n t") (fastforce simp: spec_inv_def inv_terms_def)+
  show "sp_cand s n t = None"
    using assms by (cases "sp_cand s n t") (fastforce simp: spec_inv_def inv_terms_def)+
qed

lemma inv_ack_le: "spec_inv N s \<Longrightarrow> sp_ack s n t \<le> length (sp_tlog s t)"
  by (simp add: spec_inv_def inv_terms_def)

lemma inv_no_lead: "spec_inv N s \<Longrightarrow> sp_lead s t = None \<Longrightarrow> sp_tlog s t = []"
  by (simp add: spec_inv_def inv_lead_def)

lemma inv_no_lead_ack: "spec_inv N s \<Longrightarrow> sp_lead s t = None \<Longrightarrow> sp_ack s n t = 0"
  using inv_ack_le [of N s n t] inv_no_lead [of N s t] by simp

lemma spec_step_extends:
  assumes "spec_step N s s'" "spec_inv N s"
  shows "extends s s'"
  using assms(1)
proof cases
  case (stand n t)
  then show ?thesis
    using inv_fresh [OF assms(2), of n t] by (auto simp: extends_def upd2_apply)
next
  case (win n t Q)
  then show ?thesis
    using inv_no_lead [OF assms(2), of t] inv_no_lead_ack [OF assms(2), of t]
    by (auto simp: extends_def upd2_apply)
next
  case (append n t L Q e)
  then show ?thesis
    using inv_ack_le [OF assms(2), of n t] by (auto simp: extends_def upd2_apply)
qed (auto simp: extends_def upd2_apply)

lemma extends_lead: "extends s s' \<Longrightarrow> sp_lead s t = Some x \<Longrightarrow> sp_lead s' t = Some x"
  unfolding extends_def by blast

lemma extends_tlog: "extends s s' \<Longrightarrow> prefix (sp_tlog s t) (sp_tlog s' t)"
  by (simp add: extends_def)

lemma extends_take:
  "extends s s' \<Longrightarrow> k \<le> length (sp_tlog s t) \<Longrightarrow> take k (sp_tlog s' t) = take k (sp_tlog s t)"
  by (simp add: extends_tlog prefix_take_eqD)

lemma grounded_extends:
  assumes "grounded s L" "extends s s'"
  shows "grounded s' L"
  unfolding grounded_def
proof (intro allI impI)
  fix i assume "i < length L"
  then have "sp_lead s (le_Term (L ! i)) \<noteq> None"
    "prefix (take (Suc i) L) (sp_tlog s (le_Term (L ! i)))"
    using assms(1) by (auto simp: grounded_def)
  then show "sp_lead s' (le_Term (L ! i)) \<noteq> None \<and>
      prefix (take (Suc i) L) (sp_tlog s' (le_Term (L ! i)))"
    using extends_lead [OF assms(2)] extends_tlog [OF assms(2)] prefix_order.trans by blast
qed

lemma kept_extends:
  "kept s' t k T \<Longrightarrow> extends s s' \<Longrightarrow> k \<le> length (sp_tlog s t) \<Longrightarrow> kept s t k T"
  unfolding kept_def by (metis extends_lead extends_take)

section \<open>Log matching\<close>

lemma grounded_take: "grounded s L \<Longrightarrow> grounded s (take k L)"
  by (auto simp: grounded_def min_def)

lemma grounded_prefix: "grounded s L \<Longrightarrow> prefix P L \<Longrightarrow> grounded s P"
  using grounded_take [of s L "length P"] by (simp add: prefix_take_iff)

text \<open>Two grounded logs with an entry of the same term at the same place agree up to there.\<close>

lemma grounded_match:
  assumes "grounded s L" "grounded s M" "i < length L" "i < length M"
    "le_Term (L ! i) = le_Term (M ! i)"
  shows "take (Suc i) L = take (Suc i) M"
proof -
  let ?T = "sp_tlog s (le_Term (L ! i))"
  have "prefix (take (Suc i) L) ?T" "prefix (take (Suc i) M) ?T"
    using assms by (auto simp: grounded_def)
  moreover have "length (take (Suc i) L) = length (take (Suc i) M)"
    using assms by simp
  ultimately show ?thesis
    by (metis prefix_take_iff)
qed

text \<open>Terms do not decrease along a grounded log.\<close>

lemma grounded_mono:
  assumes "spec_inv N s" "grounded s L" "i \<le> j" "j < length L"
  shows "le_Term (L ! i) \<le> le_Term (L ! j)"
proof -
  have "prefix (take (Suc j) L) (sp_tlog s (le_Term (L ! j)))"
    using assms by (auto simp: grounded_def)
  moreover have "L ! i \<in> set (take (Suc j) L)"
    using assms by (auto simp: in_set_conv_nth intro!: exI [of _ i])
  ultimately have "L ! i \<in> set (sp_tlog s (le_Term (L ! j)))"
    by (meson set_mono_prefix subsetD)
  then show ?thesis
    using assms(1) by (auto simp: spec_inv_def inv_terms_def)
qed

lemma grounded_append:
  assumes "grounded s L" "sp_lead s (le_Term e) \<noteq> None" "prefix (L @ [e]) (sp_tlog s (le_Term e))"
  shows "grounded s (L @ [e])"
  using assms by (auto simp: grounded_def nth_append less_Suc_eq)


section \<open>Preservation\<close>

lemma inv_termsD:
  assumes "spec_inv N s"
  shows "sp_vote s n t = Some v \<Longrightarrow> t \<le> sp_term s n"
    and "sp_cand s n t = Some L \<Longrightarrow> t \<le> sp_term s n"
    and "sp_cand s n t = Some L \<Longrightarrow> e \<in> set L \<Longrightarrow> le_Term e < t"
    and "e \<in> set (sp_log s n) \<Longrightarrow> le_Term e \<le> sp_term s n"
    and "e \<in> set (sp_tlog s t) \<Longrightarrow> le_Term e \<le> t"
    and "0 \<le> sp_term s n"
    and "sp_cand s n t = Some L \<Longrightarrow> 0 < t"
  using assms unfolding spec_inv_def inv_terms_def by blast+

lemma inv_termsI:
  assumes "\<And>n t v. sp_vote s n t = Some v \<Longrightarrow> t \<le> sp_term s n"
    and "\<And>n t L. sp_cand s n t = Some L \<Longrightarrow> t \<le> sp_term s n"
    and "\<And>n t L e. sp_cand s n t = Some L \<Longrightarrow> e \<in> set L \<Longrightarrow> le_Term e < t"
    and "\<And>n e. e \<in> set (sp_log s n) \<Longrightarrow> le_Term e \<le> sp_term s n"
    and "\<And>t e. e \<in> set (sp_tlog s t) \<Longrightarrow> le_Term e \<le> t"
    and "\<And>n t. sp_term s n < t \<Longrightarrow> sp_ack s n t = 0"
    and "\<And>n t. sp_ack s n t \<le> length (sp_tlog s t)"
    and "\<And>n. 0 \<le> sp_term s n"
    and "\<And>n t L. sp_cand s n t = Some L \<Longrightarrow> 0 < t"
  shows "inv_terms s"
  unfolding inv_terms_def
  by (intro conjI allI impI ballI)
    (erule assms(1), rule assms(8), erule assms(9), erule assms(2), erule(1) assms(3),
     erule assms(4), erule assms(5), erule assms(6), rule assms(7))

lemma inv_terms_step:
  assumes st: "spec_step N s s'" and inv: "spec_inv N s"
  shows "inv_terms s'"
proof -
  note D = inv_termsD [OF inv] inv_fresh(3) [OF inv]
  have le: "le_Term e \<le> T" if "e \<in> set (sp_log s n)" "sp_term s n \<le> T" for e n T
    using D(4) [OF that(1)] that(2) by linarith
  have vt: "t \<le> T" if "sp_vote s n t = Some v" "sp_term s n \<le> T" for n t v T
    using D(1) [OF that(1)] that(2) by linarith
  have ct: "t \<le> T" if "sp_cand s n t = Some L" "sp_term s n \<le> T" for n t L T
    using D(2) [OF that(1)] that(2) by linarith
  show ?thesis
    using st
  proof cases
    case (bump n t)
    have "0 \<le> t" using bump(2) D(6) [of n] by simp
    then show ?thesis unfolding bump
      by (intro inv_termsI) (use bump(2) in \<open>auto simp: inv_ack_le [OF inv]
        intro: D le vt ct split: if_splits\<close>)
  next
    case (stand n t)
    have "le_Term e < t" if "e \<in> set (sp_log s n)" for e
      using le [OF that, of "sp_term s n"] stand(3) by simp
    moreover have "0 < t" using D(6) [of n] stand(3) by simp
    ultimately show ?thesis unfolding stand(1)
      by (intro inv_termsI) (use stand(3) in \<open>auto simp: upd2_apply inv_ack_le [OF inv]
        intro: D le vt ct split: if_splits\<close>)
  next
    case (vote n t c L)
    then show ?thesis unfolding vote(1)
      by (intro inv_termsI) (auto simp: upd2_apply inv_ack_le [OF inv] intro: D split: if_splits)
  next
    case (win n t Q)
    have "sp_ack s m t = 0" for m by (rule inv_no_lead_ack [OF inv win(4)])
    then show ?thesis unfolding win(1)
      by (intro inv_termsI) (use win in \<open>auto simp: upd2_apply inv_ack_le [OF inv]
        intro: D split: if_splits\<close>)
  next
    case (append n t L Q e)
    have "sp_ack s m t \<le> Suc (length (sp_tlog s t))" for m
      using inv_ack_le [OF inv, of m t] by simp
    then show ?thesis unfolding append(1)
      by (intro inv_termsI) (use append in \<open>auto simp: upd2_apply inv_ack_le [OF inv]
        intro: D split: if_splits\<close>)
  next
    case (accept n t m)
    have "le_Term e \<le> t" if "e \<in> set (accepted_log (take m (sp_tlog s t)) (sp_log s n))" for e
      using that D(4,5) accept(2) by (auto simp: accepted_log_def dest: in_set_takeD split: if_splits)
    then show ?thesis unfolding accept(1)
      by (intro inv_termsI) (use accept in \<open>auto simp: upd2_apply inv_ack_le [OF inv]
        intro: D split: if_splits\<close>)
  next
    case (cut n t j)
    then show ?thesis unfolding cut(1)
      by (intro inv_termsI) (auto simp: inv_ack_le [OF inv] intro: D dest: in_set_takeD
        split: if_splits)
  qed
qed

lemma inv_leadD:
  assumes "spec_inv N s" "sp_lead s t = Some (n, L, Q)"
  shows "sp_cand s n t = Some L" and "majority N Q"
    and "q \<in> Q \<Longrightarrow> \<exists>V. sp_vote s q t = Some (n, V)"
    and "\<exists>A. sp_tlog s t = L @ A \<and> (\<forall>e \<in> set A. le_Term e = t)"
  using assms unfolding spec_inv_def inv_lead_def by blast+

lemma inv_voteD:
  "spec_inv N s \<Longrightarrow> sp_vote s n t = Some (c, V) \<Longrightarrow> \<exists>L. sp_cand s c t = Some L \<and> uptodate L V"
  unfolding spec_inv_def inv_lead_def by blast

lemma inv_leadI:
  assumes "\<And>t. sp_lead s t = None \<Longrightarrow> sp_tlog s t = []"
    and "\<And>t n L Q. sp_lead s t = Some (n, L, Q) \<Longrightarrow> sp_cand s n t = Some L"
    and "\<And>t n L Q. sp_lead s t = Some (n, L, Q) \<Longrightarrow> majority N Q"
    and "\<And>t n L Q q. sp_lead s t = Some (n, L, Q) \<Longrightarrow> q \<in> Q \<Longrightarrow>
           \<exists>V. sp_vote s q t = Some (n, V)"
    and "\<And>t n L Q. sp_lead s t = Some (n, L, Q) \<Longrightarrow>
           \<exists>A. sp_tlog s t = L @ A \<and> (\<forall>e \<in> set A. le_Term e = t)"
    and "\<And>n t c V. sp_vote s n t = Some (c, V) \<Longrightarrow> \<exists>L. sp_cand s c t = Some L \<and> uptodate L V"
  shows "inv_lead N s"
  using assms unfolding inv_lead_def by blast

lemma uptodate_refl [simp]: "uptodate L L"
  by (simp add: uptodate_def)

lemma inv_lead_step:
  assumes st: "spec_step N s s'" and inv: "spec_inv N s"
  shows "inv_lead N s'"
proof -
  note D = inv_leadD [OF inv] inv_voteD [OF inv] inv_no_lead [OF inv]
  have v: "\<exists>V. sp_vote s' q t = Some (n, V)" if "\<exists>V. sp_vote s q t = Some (n, V)" for q n t
    using that spec_step_extends [OF st inv] unfolding extends_def by blast
  have c: "\<exists>L. sp_cand s' q t = Some L \<and> uptodate L V"
    if "\<exists>L. sp_cand s q t = Some L \<and> uptodate L V" for q t V
    using that spec_step_extends [OF st inv] unfolding extends_def by blast
  show ?thesis
    using st
  proof cases
    case (bump n t)
    show ?thesis unfolding bump(1)
      by (intro inv_leadI) (auto intro: D)
  next
    case (stand n t)
    show ?thesis
    proof (intro inv_leadI)
      fix m u d V
      assume "sp_vote s' m u = Some (d, V)"
      then show "\<exists>L. sp_cand s' d u = Some L \<and> uptodate L V"
        using c [OF D(5)] stand(1) by (cases "m = n \<and> u = t") (auto simp: upd2_apply)
    next
      fix u m L Q
      assume "sp_lead s' u = Some (m, L, Q)"
      then have *: "sp_lead s u = Some (m, L, Q)" by (simp add: stand(1))
      show "sp_cand s' m u = Some L"
        using D(1) [OF *] spec_step_extends [OF st inv] unfolding extends_def by blast
    qed (use v stand(1) D in \<open>auto simp: stand(1)\<close>)
  next
    case (vote n t d L)
    show ?thesis
    proof (intro inv_leadI)
      fix m u e V
      assume "sp_vote s' m u = Some (e, V)"
      then show "\<exists>L. sp_cand s' e u = Some L \<and> uptodate L V"
        using c [OF D(5)] vote by (cases "m = n \<and> u = t") (auto simp: upd2_apply)
    qed (use v vote(1) D in \<open>auto simp: vote(1)\<close>)
  next
    case (win n t Q)
    then show ?thesis unfolding win(1)
      by (intro inv_leadI) (auto intro: D split: if_splits)
  next
    case (append n t L Q e)
    obtain A where "sp_tlog s t = L @ A" "\<forall>e \<in> set A. le_Term e = t"
      using D(4) [OF append(3)] by blast
    then have "\<exists>A. sp_tlog s t @ [e] = L @ A \<and> (\<forall>e \<in> set A. le_Term e = t)"
      using append(5) by (intro exI [of _ "A @ [e]"]) auto
    then show ?thesis unfolding append(1)
      using append(3) by (intro inv_leadI) (auto intro: D split: if_splits)
  next
    case (accept n t m)
    show ?thesis unfolding accept(1)
      by (intro inv_leadI) (auto intro: D)
  next
    case (cut n t j)
    show ?thesis unfolding cut(1)
      by (intro inv_leadI) (auto intro: D)
  qed
qed

lemma inv_groundedD:
  assumes "spec_inv N s"
  shows "grounded s (sp_log s n)" and "grounded s (sp_tlog s t)"
    and "sp_cand s n t = Some L \<Longrightarrow> grounded s L"
    and "sp_vote s n t = Some (c, V) \<Longrightarrow> grounded s V"
  using assms unfolding spec_inv_def inv_grounded_def by blast+

lemma inv_groundedI:
  assumes "\<And>n. grounded s (sp_log s n)" and "\<And>t. grounded s (sp_tlog s t)"
    and "\<And>n t L. sp_cand s n t = Some L \<Longrightarrow> grounded s L"
    and "\<And>n t c V. sp_vote s n t = Some (c, V) \<Longrightarrow> grounded s V"
  shows "inv_grounded s"
  using assms unfolding inv_grounded_def by blast

lemma inv_grounded_step:
  assumes st: "spec_step N s s'" and inv: "spec_inv N s"
  shows "inv_grounded s'"
proof -
  note G = grounded_extends [OF _ spec_step_extends [OF st inv]]
  note D = inv_groundedD [OF inv, THEN G]
  have old: "inv_grounded s'" if "\<And>n. grounded s' (sp_log s' n)" "\<And>t. grounded s' (sp_tlog s' t)"
    "\<And>n t L. sp_cand s' n t = Some L \<Longrightarrow> sp_cand s n t = Some L \<or> L = sp_log s n"
    "\<And>n t c V. sp_vote s' n t = Some (c, V) \<Longrightarrow> sp_vote s n t = Some (c, V) \<or> V = sp_log s n"
    using that D by (intro inv_groundedI) blast+
  show ?thesis
    using st
  proof cases
    case (bump n t)
    have f: "sp_log s' = sp_log s" "sp_tlog s' = sp_tlog s" "sp_cand s' = sp_cand s"
      "sp_vote s' = sp_vote s" by (simp_all add: bump(1))
    show ?thesis by (rule old) (auto simp: f intro: D)
  next
    case (stand n t)
    have f: "sp_log s' = sp_log s" "sp_tlog s' = sp_tlog s"
      "sp_cand s' = upd2 (sp_cand s) n t (Some (sp_log s n))"
      "sp_vote s' = upd2 (sp_vote s) n t (Some (n, sp_log s n))" by (simp_all add: stand(1))
    show ?thesis by (rule old) (auto simp: f upd2_apply intro: D split: if_splits)
  next
    case (vote n t c L)
    have f: "sp_log s' = sp_log s" "sp_tlog s' = sp_tlog s" "sp_cand s' = sp_cand s"
      "sp_vote s' = upd2 (sp_vote s) n t (Some (c, sp_log s n))" by (simp_all add: vote(1))
    show ?thesis by (rule old) (auto simp: f upd2_apply intro: D split: if_splits)
  next
    case (win n t Q)
    have f: "sp_log s' = sp_log s" "sp_tlog s' = (sp_tlog s)(t := sp_log s n)"
      "sp_cand s' = sp_cand s" "sp_vote s' = sp_vote s" by (simp_all add: win(1))
    show ?thesis by (rule old) (auto simp: f intro: D)
  next
    case (append n t L Q e)
    have f: "sp_log s' = (sp_log s)(n := sp_tlog s t @ [e])"
      "sp_tlog s' = (sp_tlog s)(t := sp_tlog s t @ [e])" "sp_cand s' = sp_cand s"
      "sp_vote s' = sp_vote s" "sp_lead s' = sp_lead s" by (simp_all add: append(1,4))
    have "grounded s' (sp_tlog s t @ [e])"
      by (rule grounded_append [OF D(2)]) (simp_all add: f append(3,5))
    then show ?thesis by (intro old) (auto simp: f intro: D)
  next
    case (accept n t m)
    have f: "sp_log s' = (sp_log s)(n := accepted_log (take m (sp_tlog s t)) (sp_log s n))"
      "sp_tlog s' = sp_tlog s" "sp_cand s' = sp_cand s" "sp_vote s' = sp_vote s"
      by (simp_all add: accept(1))
    have "grounded s' (accepted_log (take m (sp_tlog s t)) (sp_log s n))"
      by (auto simp: accepted_log_def intro: D grounded_take)
    then show ?thesis by (intro old) (auto simp: f intro: D)
  next
    case (cut n t j)
    have f: "sp_log s' = (sp_log s)(n := take j (sp_tlog s t))"
      "sp_tlog s' = sp_tlog s" "sp_cand s' = sp_cand s" "sp_vote s' = sp_vote s"
      by (simp_all add: cut(1))
    show ?thesis by (rule old) (auto simp: f intro: D grounded_take)
  qed
qed

lemma inv_ackD:
  assumes "spec_inv N s" "k \<le> sp_ack s n t"
  shows "kept s t k (sp_term s n + 1) \<Longrightarrow> prefix (take k (sp_tlog s t)) (sp_log s n)"
    and "t < T \<Longrightarrow> sp_vote s n T = Some (c, V) \<Longrightarrow>
      (\<And>m L Q. sp_lead s T = Some (m, L, Q) \<Longrightarrow> n \<in> Q) \<Longrightarrow> kept s t k T \<Longrightarrow>
      prefix (take k (sp_tlog s t)) V"
  using assms unfolding spec_inv_def inv_ack_def by blast+

lemma inv_ackI:
  assumes "\<And>n t k. k \<le> sp_ack s n t \<Longrightarrow> kept s t k (sp_term s n + 1) \<Longrightarrow>
      prefix (take k (sp_tlog s t)) (sp_log s n)"
    and "\<And>n t k T c V. k \<le> sp_ack s n t \<Longrightarrow> t < T \<Longrightarrow> sp_vote s n T = Some (c, V) \<Longrightarrow>
      (\<And>m L Q. sp_lead s T = Some (m, L, Q) \<Longrightarrow> n \<in> Q) \<Longrightarrow> kept s t k T \<Longrightarrow>
      prefix (take k (sp_tlog s t)) V"
  shows "inv_ack s"
  using assms unfolding inv_ack_def by blast

lemma keptD:
  "kept s t k T \<Longrightarrow> t < u \<Longrightarrow> u < T \<Longrightarrow> sp_lead s u = Some (m, L, Q) \<Longrightarrow>
     prefix (take k (sp_tlog s t)) L"
  unfolding kept_def by blast

lemma kept_mono: "kept s t k T \<Longrightarrow> T' \<le> T \<Longrightarrow> kept s t k T'"
  unfolding kept_def by (meson order_less_le_trans)

text \<open>
  Where a step changes no acknowledgement of an earlier term, the second half of \<open>inv_ack\<close>
  only has to be checked for the votes the step adds.
\<close>

lemma kept_back:
  assumes "spec_step N s s'" "spec_inv N s" "kept s' t k T" "k \<le> sp_ack s n t"
  shows "kept s t k T" "take k (sp_tlog s' t) = take k (sp_tlog s t)"
proof -
  have "k \<le> length (sp_tlog s t)"
    using assms(4) inv_ack_le [OF assms(2), of n t] by simp
  then show "kept s t k T" "take k (sp_tlog s' t) = take k (sp_tlog s t)"
    using kept_extends [OF assms(3) spec_step_extends [OF assms(1,2)]]
      extends_take [OF spec_step_extends [OF assms(1,2)]] by auto
qed

lemma inv_ack_old_vote:
  assumes st: "spec_step N s s'" and inv: "spec_inv N s"
    and k: "k \<le> sp_ack s n t" and T: "t < T" and v: "sp_vote s n T = Some (c, V)"
    and q: "\<And>m L Q. sp_lead s' T = Some (m, L, Q) \<Longrightarrow> n \<in> Q"
    and kp: "kept s' t k T"
  shows "prefix (take k (sp_tlog s' t)) V"
proof -
  note kb = kept_back [OF st inv kp k]
  have "n \<in> Q" if "sp_lead s T = Some (m, L, Q)" for m L Q
    using q extends_lead [OF spec_step_extends [OF st inv] that] by blast
  then show ?thesis
    using inv_ackD(2) [OF inv k T v _ kb(1)] kb(2) by metis
qed

lemma inv_ack_old_log:
  assumes st: "spec_step N s s'" and inv: "spec_inv N s"
    and k: "k \<le> sp_ack s n t" and kp: "kept s' t k (sp_term s' n + 1)"
  shows "prefix (take k (sp_tlog s' t)) (sp_log s n)"
proof -
  have "sp_term s n \<le> sp_term s' n"
    using spec_step_extends [OF st inv] by (simp add: extends_def)
  then have "kept s' t k (sp_term s n + 1)" by (auto intro: kept_mono [OF kp])
  note kb = kept_back [OF st inv this k]
  show ?thesis using inv_ackD(1) [OF inv k kb(1)] kb(2) by simp
qed

lemma accepted_log_keeps:
  assumes "prefix P L" "prefix P T"
  shows "prefix P (accepted_log (take m T) L)"
proof (cases "prefix (take m T) L")
  case False
  have "prefix (take m T) P \<or> prefix P (take m T)"
    using assms(2) prefix_same_cases take_is_prefix by blast
  then have "prefix P (take m T)"
    using False assms(1) prefix_order.trans by blast
  then show ?thesis using False by (simp add: accepted_log_def)
qed (simp add: accepted_log_def assms)

lemma accepted_log_prefix: "prefix P (accepted_log P L)"
  by (simp add: accepted_log_def)

text \<open>
  What a step that casts no vote has to show: a longer acknowledgement is in the term of the node,
  whose log has the acknowledged entries, and entries acknowledged before stay in the log.
\<close>

lemma inv_ack_logI:
  assumes st: "spec_step N s s'" and inv: "spec_inv N s" and v: "sp_vote s' = sp_vote s"
    and acks: "\<And>m u k. k \<le> sp_ack s' m u \<Longrightarrow> k \<le> sp_ack s m u \<or>
      (u = sp_term s m \<and> prefix (take k (sp_tlog s' u)) (sp_log s' m))"
    and logs: "\<And>m u k. k \<le> sp_ack s m u \<Longrightarrow> kept s' u k (sp_term s' m + 1) \<Longrightarrow>
      prefix (take k (sp_tlog s' u)) (sp_log s m) \<Longrightarrow> prefix (take k (sp_tlog s' u)) (sp_log s' m)"
  shows "inv_ack s'"
proof (rule inv_ackI, unfold v)
  fix m u k assume a: "k \<le> sp_ack s' m u" "kept s' u k (sp_term s' m + 1)"
  then show "prefix (take k (sp_tlog s' u)) (sp_log s' m)"
    using acks [OF a(1)] logs [OF _ a(2)] inv_ack_old_log [OF st inv _ a(2)] by blast
next
  fix m u k T c V
  assume a: "k \<le> sp_ack s' m u" "u < T" "sp_vote s m T = Some (c, V)"
    "\<And>m' L Q. sp_lead s' T = Some (m', L, Q) \<Longrightarrow> m \<in> Q" "kept s' u k T"
  have "u \<noteq> sp_term s m" using inv_termsD(1) [OF inv a(3)] a(2) by simp
  then have "k \<le> sp_ack s m u" using acks [OF a(1)] by blast
  then show "prefix (take k (sp_tlog s' u)) V"
    by (rule inv_ack_old_vote [OF st inv _ a(2,3) _ a(5)]) (use a(4) in blast)
qed

text \<open>
  What a step that changes votes only has to show: a new vote is cast with the log of the voter,
  while no leader of that term counts it.
\<close>

lemma inv_ack_voteI:
  assumes st: "spec_step N s s'" and inv: "spec_inv N s"
    and f: "sp_ack s' = sp_ack s" "sp_log s' = sp_log s"
    and votes: "\<And>m u k T c V. sp_vote s' m T = Some (c, V) \<Longrightarrow> sp_vote s m T \<noteq> Some (c, V) \<Longrightarrow>
      (\<And>l L Q. sp_lead s' T = Some (l, L, Q) \<Longrightarrow> m \<in> Q) \<Longrightarrow> kept s' u k T \<Longrightarrow>
      V = sp_log s m \<and> kept s' u k (sp_term s m + 1)"
  shows "inv_ack s'"
proof (rule inv_ackI, unfold f)
  fix m u k assume "k \<le> sp_ack s m u" "kept s' u k (sp_term s' m + 1)"
  then show "prefix (take k (sp_tlog s' u)) (sp_log s m)" by (rule inv_ack_old_log [OF st inv])
next
  fix m u k T c V
  assume a: "k \<le> sp_ack s m u" "u < T" "sp_vote s' m T = Some (c, V)"
    "\<And>m' L Q. sp_lead s' T = Some (m', L, Q) \<Longrightarrow> m \<in> Q" "kept s' u k T"
  show "prefix (take k (sp_tlog s' u)) V"
  proof (cases "sp_vote s m T = Some (c, V)")
    case True
    show ?thesis by (rule inv_ack_old_vote [OF st inv a(1,2) True a(4,5)])
  next
    case False
    note V = votes [OF a(3) False a(4,5)]
    note kb = kept_back [OF st inv V [THEN conjunct2] a(1)]
    show ?thesis using inv_ackD(1) [OF inv a(1) kb(1)] kb(2) V by simp
  qed
qed

lemma inv_ack_vote:
  assumes st: "spec_step N s s'" and inv: "spec_inv N s"
    and s': "s' = s\<lparr>sp_vote := upd2 (sp_vote s) n t (Some (c, sp_log s n))\<rparr>"
    and n: "sp_term s n = t" "sp_vote s n t = None"
  shows "inv_ack s'"
proof (rule inv_ack_voteI [OF st inv])
  fix m u k T d V
  assume a: "sp_vote s' m T = Some (d, V)" "sp_vote s m T \<noteq> Some (d, V)"
    "\<And>l L Q. sp_lead s' T = Some (l, L, Q) \<Longrightarrow> m \<in> Q" "kept s' u k T"
  then have mT: "m = n" "T = t" "V = sp_log s n"
    by (auto simp: s' upd2_apply split: if_splits)
  have "sp_lead s t = None"
  proof (cases "sp_lead s t")
    case (Some x)
    then obtain l L Q where l: "sp_lead s t = Some (l, L, Q)" by (cases x) auto
    then have "n \<in> Q" using a(3) mT by (simp add: s')
    then show ?thesis using inv_leadD(3) [OF inv l, of n] n by simp
  qed
  then have "kept s' u k (t + 1)"
    using a(4) mT unfolding kept_def s' by (simp add: order_le_less [of _ t])
      (metis option.distinct(1))
  then show "V = sp_log s m \<and> kept s' u k (sp_term s m + 1)" using mT n by simp
qed (simp_all add: s')

text \<open>What a node has acknowledged before is in the log of its current leader.\<close>

lemma acked_in_tlog:
  assumes inv: "spec_inv N s" and k: "k \<le> sp_ack s n u" and l: "sp_lead s (sp_term s n) \<noteq> None"
    and kp: "kept s u k (sp_term s n + 1)"
  shows "prefix (take k (sp_tlog s u)) (sp_tlog s (sp_term s n))"
proof (cases "u = sp_term s n \<or> k = 0")
  case False
  obtain m L Q where m: "sp_lead s (sp_term s n) = Some (m, L, Q)" using l by auto
  have "u < sp_term s n" using k False inv_fresh(3) [OF inv, of n u] by (cases "u \<le> sp_term s n") auto
  then have "prefix (take k (sp_tlog s u)) L" using keptD [OF kp _ _ m] by simp
  moreover have "prefix L (sp_tlog s (sp_term s n))" using inv_leadD(4) [OF inv m] by auto
  ultimately show ?thesis using prefix_order.trans by blast
qed (auto simp: take_is_prefix)

lemma inv_ack_accept:
  assumes st: "spec_step N s s'" and inv: "spec_inv N s"
    and s': "s' = s\<lparr>sp_log := (sp_log s)(n := accepted_log (take j (sp_tlog s t)) (sp_log s n)),
       sp_ack := upd2 (sp_ack s) n t (max (sp_ack s n t) j)\<rparr>"
    and n: "sp_term s n = t" "sp_lead s t \<noteq> None"
  shows "inv_ack s'"
proof (rule inv_ack_logI [OF st inv])
  fix m u k assume "k \<le> sp_ack s' m u"
  then show "k \<le> sp_ack s m u \<or> u = sp_term s m \<and> prefix (take k (sp_tlog s' u)) (sp_log s' m)"
    using n accepted_log_prefix [of "take j (sp_tlog s t)" "sp_log s n"]
      prefix_take_le [of k j "sp_tlog s t"] prefix_order.trans
    by (fastforce simp: s' upd2_apply split: if_splits)
next
  fix m u k
  assume a: "k \<le> sp_ack s m u" "kept s' u k (sp_term s' m + 1)"
    "prefix (take k (sp_tlog s' u)) (sp_log s m)"
  have "prefix (take k (sp_tlog s u)) (sp_tlog s t)" if "m = n"
    using acked_in_tlog [OF inv a(1)] that n kept_back(1) [OF st inv a(2,1)] by (simp add: s')
  then show "prefix (take k (sp_tlog s' u)) (sp_log s' m)"
    using a(3) accepted_log_keeps by (auto simp: s')
qed (simp add: s')

lemma inv_ack_cut:
  assumes st: "spec_step N s s'" and inv: "spec_inv N s"
    and s': "s' = s\<lparr>sp_log := (sp_log s)(n := take j (sp_tlog s t))\<rparr>"
    and n: "sp_term s n = t" "sp_lead s t \<noteq> None"
      "\<And>P. prefix P (sp_tlog s t) \<Longrightarrow> prefix P (sp_log s n) \<Longrightarrow> length P \<le> j"
  shows "inv_ack s'"
proof (rule inv_ack_logI [OF st inv])
  fix m u k
  assume a: "k \<le> sp_ack s m u" "kept s' u k (sp_term s' m + 1)"
    "prefix (take k (sp_tlog s' u)) (sp_log s m)"
  let ?P = "take k (sp_tlog s u)"
  have "prefix ?P (take j (sp_tlog s t))" if "m = n"
  proof -
    have "prefix ?P (sp_tlog s t)"
      using acked_in_tlog [OF inv a(1)] that n kept_back(1) [OF st inv a(2,1)] by (simp add: s')
    moreover have "length ?P \<le> j" using n(3) [OF calculation] a(3) that by (simp add: s')
    ultimately show ?thesis by (metis prefix_take_iff prefix_take_le take_take min.absorb1)
  qed
  then show "prefix (take k (sp_tlog s' u)) (sp_log s' m)"
    using a(3) by (auto simp: s')
qed (simp_all add: s')

lemma inv_ack_step:
  assumes st: "spec_step N s s'" and inv: "spec_inv N s"
  shows "inv_ack s'"
  using st
proof cases
  case (bump n t)
  show ?thesis by (rule inv_ack_voteI [OF st inv]) (simp_all add: bump(1))
next
  case (stand n t)
  show ?thesis
    by (rule inv_ack_voteI [OF st inv])
      (auto simp: stand(1,3) upd2_apply kept_def split: if_splits)
next
  case (vote n t c L)
  show ?thesis by (rule inv_ack_vote [OF st inv vote(1,2,3)])
next
  case (win n t Q)
  have "sp_ack s m t = 0" for m by (rule inv_no_lead_ack [OF inv win(4)])
  then show ?thesis
    by (intro inv_ack_logI [OF st inv])
      (auto simp: win(1,2) upd2_apply take_is_prefix split: if_splits)
next
  case (append n t L Q e)
  show ?thesis
  proof (rule inv_ack_logI [OF st inv])
    fix m u k assume "k \<le> sp_ack s' m u"
    then show "k \<le> sp_ack s m u \<or> u = sp_term s m \<and> prefix (take k (sp_tlog s' u)) (sp_log s' m)"
      using take_is_prefix [of k "sp_tlog s t @ [e]"]
      by (cases "m = n \<and> u = t") (auto simp: append(1,2,4) upd2_apply)
  qed (auto simp: append(1) intro: prefix_order.trans)
next
  case (accept n t m)
  show ?thesis by (rule inv_ack_accept [OF st inv accept(1,2,3)])
next
  case (cut n t j)
  show ?thesis by (rule inv_ack_cut [OF st inv cut(1,2,3)]) (rule cut(4))
qed

lemma spec_inv_step: "spec_step N s s' \<Longrightarrow> spec_inv N s \<Longrightarrow> spec_inv N s'"
  unfolding spec_inv_def [of N s']
  by (intro conjI inv_terms_step inv_lead_step inv_grounded_step inv_ack_step)

theorem spec_reach_inv: "spec_reach N s \<Longrightarrow> spec_inv N s"
  by (induction rule: spec_reach.induct) (auto intro: spec_inv_init spec_inv_step)

section \<open>Elections and commitment\<close>

text \<open>At most one leader per term: the candidate that wins holds the votes of a majority.\<close>

lemma two_quorums_meet:
  assumes "finite N" "majority N P" "majority N Q"
  obtains q where "q \<in> P" "q \<in> Q"
  using maj.quorum_common [of N P Q] assms by auto

lemma win_no_leader:
  assumes "spec_inv N s" "finite N" "majority N Q"
    "\<And>q. q \<in> Q \<Longrightarrow> \<exists>V. sp_vote s q t = Some (n, V)" "sp_lead s t = Some (m, L, P)"
  shows "m = n"
proof -
  obtain q where q: "q \<in> P" "q \<in> Q"
    using two_quorums_meet [OF assms(2) inv_leadD(2) [OF assms(1,5)] assms(3)] .
  then show ?thesis
    using inv_leadD(3) [OF assms(1,5) q(1)] assms(4) [OF q(2)] by auto
qed

text \<open>
  A prefix of the log of term \<open>t\<close> that ends in an entry of term \<open>t\<close> is chosen when a
  majority has acknowledged it.
\<close>

definition chosen :: "NodeID set \<Rightarrow> 'c spec \<Rightarrow> int \<Rightarrow> nat \<Rightarrow> bool" where
  "chosen N s t k \<longleftrightarrow> 0 < k \<and> k \<le> length (sp_tlog s t) \<and> le_Term (sp_tlog s t ! (k - 1)) = t \<and>
     (\<exists>Q. majority N Q \<and> (\<forall>q \<in> Q. k \<le> sp_ack s q t))"

lemma lastTerm_ge:
  assumes "spec_inv N s" "grounded s V" "i < length V"
  shows "le_Term (V ! i) \<le> lastTerm V"
  using grounded_mono [OF assms(1,2), of i "length V - 1"] assms(3)
  by (auto simp: lastTerm_def last_conv_nth)

lemma grounded_last:
  assumes "grounded s L" "L \<noteq> []"
  shows "sp_lead s (lastTerm L) \<noteq> None" "prefix L (sp_tlog s (lastTerm L))"
  using assms by (auto simp: grounded_def lastTerm_def last_conv_nth dest: spec [of _ "length L - 1"])

text \<open>The step of leader completeness: a winner whose log is as good as that of one voter.\<close>

lemma uptodate_has_chosen:
  assumes inv: "spec_inv N s" and ch: "chosen N s t k" and up: "uptodate L V"
    and gL: "grounded s L" and gV: "grounded s V" and LT: "\<forall>e \<in> set L. le_Term e < T"
    and pV: "prefix (take k (sp_tlog s t)) V" and kp: "kept s t k T"
  shows "prefix (take k (sp_tlog s t)) L"
proof -
  let ?P = "take k (sp_tlog s t)"
  have k: "0 < k" "k \<le> length (sp_tlog s t)" "le_Term (sp_tlog s t ! (k - 1)) = t"
    using ch by (auto simp: chosen_def)
  have lV: "k \<le> length V" using prefix_length_le [OF pV] k by simp
  have "V ! (k - 1) = sp_tlog s t ! (k - 1)"
    using prefix_nthD [OF pV, of "k - 1"] k by simp
  then have tV: "t \<le> lastTerm V" using lastTerm_ge [OF inv gV, of "k - 1"] k lV by simp
  have tL: "t \<le> lastTerm L" using up tV by (auto simp: uptodate_def)
  have "V \<noteq> []" using lV k by auto
  have "sp_lead s t \<noteq> None" using inv_no_lead [OF inv, of t] k by (metis leD list.size(3))
  then have "0 < t" using inv_leadD(1) [OF inv] inv_termsD(7) [OF inv] by fast
  then have neL: "L \<noteq> []" using tL by (auto simp: lastTerm_def)
  show ?thesis
  proof (cases "lastTerm L = t")
    case True
    then have "lastTerm V = t" using up tV by (auto simp: uptodate_def)
    then have "k \<le> length L" using up True lV by (auto simp: uptodate_def)
    then show ?thesis
      using grounded_last(2) [OF gL neL] True k prefix_comparable [OF take_is_prefix]
      by (metis length_take min.absorb2)
  next
    case False
    let ?u = "lastTerm L"
    have u: "t < ?u" "?u < T" using False tL LT neL by (auto simp: lastTerm_def)
    obtain m M Q where m: "sp_lead s ?u = Some (m, M, Q)" using grounded_last(1) [OF gL neL] by auto
    have pM: "prefix ?P M" by (rule keptD [OF kp u m])
    obtain A where A: "sp_tlog s ?u = M @ A" using inv_leadD(4) [OF inv m] by blast
    have "last L \<notin> set M"
      using inv_termsD(3) [OF inv inv_leadD(1) [OF inv m], of "last L"] neL by (auto simp: lastTerm_def)
    then have "\<not> prefix L M" using neL by (meson last_in_set set_mono_prefix subsetD)
    then have "prefix M L"
      using grounded_last(2) [OF gL neL] A prefix_same_cases [of L "M @ A" M] by auto
    then show ?thesis using pM prefix_order.trans by blast
  qed
qed

theorem leader_completeness:
  assumes inv: "spec_inv N s" and N: "finite N" and ch: "chosen N s t k"
    and T: "t < T" and l: "sp_lead s T = Some (m, L, Q)"
  shows "prefix (take k (sp_tlog s t)) L"
  using T l
proof (induction "nat (T - t)" arbitrary: T m L Q rule: less_induct)
  case less
  obtain R where R: "majority N R" "\<forall>q \<in> R. k \<le> sp_ack s q t" using ch by (auto simp: chosen_def)
  obtain q where q: "q \<in> R" "q \<in> Q"
    using two_quorums_meet [OF N R(1) inv_leadD(2) [OF inv less.prems(2)]] .
  obtain V where V: "sp_vote s q T = Some (m, V)" using inv_leadD(3) [OF inv less.prems(2) q(2)] by blast
  have kp: "kept s t k T"
    unfolding kept_def using less.hyps by auto
  have pV: "prefix (take k (sp_tlog s t)) V"
    by (rule inv_ackD(2) [OF inv _ less.prems(1) V _ kp]) (use R q less.prems in auto)
  have c: "sp_cand s m T = Some L" by (rule inv_leadD(1) [OF inv less.prems(2)])
  have "uptodate L V" using inv_voteD [OF inv V] c by auto
  then show ?case
    by (rule uptodate_has_chosen [OF inv ch _ inv_groundedD(3) [OF inv c] inv_groundedD(4) [OF inv V]
      _ pV kp]) (use inv_termsD(3) [OF inv c] in blast)
qed

lemma chosen_in_tlog:
  assumes "spec_inv N s" "finite N" "chosen N s t k" "t \<le> T" "sp_lead s T \<noteq> None"
  shows "prefix (take k (sp_tlog s t)) (sp_tlog s T)"
proof (cases "t = T")
  case False
  obtain m L Q where l: "sp_lead s T = Some (m, L, Q)" using assms(5) by auto
  have "prefix (take k (sp_tlog s t)) L"
    using leader_completeness [OF assms(1-3) _ l] False assms(4) by simp
  then show ?thesis using inv_leadD(4) [OF assms(1) l] by (auto intro: prefix_order.trans)
qed (simp add: take_is_prefix)

text \<open>A log prefix is committed by term \<open>T\<close> when it is part of a prefix chosen in a term up to \<open>T\<close>.\<close>

definition committed :: "NodeID set \<Rightarrow> 'c spec \<Rightarrow> int \<Rightarrow> 'c log \<Rightarrow> bool" where
  "committed N s T P \<longleftrightarrow> P = [] \<or> (\<exists>t k. t \<le> T \<and> chosen N s t k \<and> prefix P (take k (sp_tlog s t)))"

lemma committed_Nil [simp]: "committed N s T []"
  by (simp add: committed_def)

lemma committed_prefix: "committed N s T P \<Longrightarrow> prefix P' P \<Longrightarrow> committed N s T P'"
  unfolding committed_def by (auto intro: prefix_order.trans)

lemma committed_later: "committed N s T P \<Longrightarrow> T \<le> T' \<Longrightarrow> committed N s T' P"
  unfolding committed_def by (meson order_trans)

lemma chosen_lead: "spec_inv N s \<Longrightarrow> chosen N s t k \<Longrightarrow> sp_lead s t \<noteq> None"
  using inv_no_lead [of N s t] unfolding chosen_def by (metis leD list.size(3))

lemma committed_in_tlog:
  assumes "spec_inv N s" "finite N" "committed N s T P" "sp_lead s T \<noteq> None"
  shows "prefix P (sp_tlog s T)"
  using assms chosen_in_tlog [OF assms(1,2) _ _ assms(4)]
  by (auto simp: committed_def intro: prefix_order.trans)

theorem committed_agree:
  assumes inv: "spec_inv N s" and N: "finite N"
    and P: "committed N s T P" and Q: "committed N s U Q"
  shows "prefix P Q \<or> prefix Q P"
proof (cases "P = [] \<or> Q = []")
  case False
  then obtain t k u j where a: "chosen N s t k" "prefix P (take k (sp_tlog s t))"
    "chosen N s u j" "prefix Q (take j (sp_tlog s u))"
    using P Q by (auto simp: committed_def)
  let ?v = "max t u"
  have lv: "sp_lead s ?v \<noteq> None" using chosen_lead [OF inv] a by (auto simp: max_def)
  have "prefix P (sp_tlog s ?v)" "prefix Q (sp_tlog s ?v)"
    using chosen_in_tlog [OF inv N a(1) _ lv] chosen_in_tlog [OF inv N a(3) _ lv] a
    by (auto intro: prefix_order.trans)
  then show ?thesis by (rule prefix_same_cases)
qed auto

lemma chosen_extends:
  assumes "spec_inv N s" "extends s s'" "chosen N s t k"
  shows "chosen N s' t k" "take k (sp_tlog s' t) = take k (sp_tlog s t)"
proof -
  have k: "0 < k" "k \<le> length (sp_tlog s t)" using assms(3) by (auto simp: chosen_def)
  show "take k (sp_tlog s' t) = take k (sp_tlog s t)" by (rule extends_take [OF assms(2) k(2)])
  have "prefix (sp_tlog s t) (sp_tlog s' t)" by (rule extends_tlog [OF assms(2)])
  then have "sp_tlog s' t ! (k - 1) = sp_tlog s t ! (k - 1)" "k \<le> length (sp_tlog s' t)"
    using k prefix_nthD [of _ _ "k - 1"] prefix_length_le by fastforce+
  moreover have "sp_ack s q t \<le> sp_ack s' q t" for q using assms(2) by (simp add: extends_def)
  moreover obtain Q where "majority N Q" "\<forall>q \<in> Q. k \<le> sp_ack s q t" "le_Term (sp_tlog s t ! (k - 1)) = t"
    using assms(3) by (auto simp: chosen_def)
  ultimately show "chosen N s' t k"
    unfolding chosen_def using k(1) by (auto intro!: exI [of _ Q] intro: order_trans)
qed

lemma committed_extends:
  "spec_inv N s \<Longrightarrow> extends s s' \<Longrightarrow> committed N s T P \<Longrightarrow> committed N s' T P"
  unfolding committed_def using chosen_extends [of N s s'] by fastforce

end
