(* ===== verification/WalSpec.thy ===== *)
theory WalSpec
  imports RaftTypes
begin

text \<open>
  The persistence contract \<open>WAL\<close> of \<open>raft1/wal.go\<close>. The mutating methods of the
  interface are a datatype of calls; \<open>wal_apply\<close> is what each of them promises on the state
  that \<open>Load\<close> would return.
\<close>

datatype 'c WalOp =
    SaveMeta int NodeID
  | AppendLog "'c log"
  | TruncateSuffix int
  | SaveSnapshot int int slice "'c log"

fun wal_apply :: "'c WalOp \<Rightarrow> 'c PersistState \<Rightarrow> 'c PersistState option" where
  "wal_apply (SaveMeta t v) st = Some (st\<lparr>ps_Term := t, ps_Vote := v\<rparr>)"
| "wal_apply (AppendLog es) st = Some (st\<lparr>ps_Logs := ps_Logs st @ es\<rparr>)"
| "wal_apply (TruncateSuffix k) st =
     do { ls \<leftarrow> sl_upto (ps_Logs st) (k - ps_SnapshotIndex st); Some (st\<lparr>ps_Logs := ls\<rparr>) }"
| "wal_apply (SaveSnapshot i t sn es) st =
     Some (st\<lparr>ps_Logs := sentinel t # es, ps_SnapshotIndex := i, ps_Snapshot := sn\<rparr>)"

fun wal_applys :: "'c WalOp list \<Rightarrow> 'c PersistState \<Rightarrow> 'c PersistState option" where
  "wal_applys [] st = Some st"
| "wal_applys (op # ops) st = do { st' \<leftarrow> wal_apply op st; wal_applys ops st' }"

lemma wal_applys_append:
  "wal_applys (ops @ ops') st = do { st' \<leftarrow> wal_applys ops st; wal_applys ops' st' }"
proof (induction ops arbitrary: st)
  case (Cons op ops)
  then show ?case by (cases "wal_apply op st") auto
qed simp

text \<open>
  A crash leaves the effect of some of the calls: a prefix of them, the last of which may be an
  \<open>AppendLog\<close> that got only some of its entries to the disk.
\<close>

inductive wal_crash :: "'c WalOp list \<Rightarrow> 'c PersistState \<Rightarrow> 'c PersistState \<Rightarrow> bool" where
  crash_here: "wal_crash ops st st"
| crash_after: "wal_apply op st = Some st' \<Longrightarrow> wal_crash ops st' st'' \<Longrightarrow> wal_crash (op # ops) st st''"
| crash_within: "wal_apply (AppendLog (take j es)) st = Some st' \<Longrightarrow> wal_crash (AppendLog es # ops) st st'"

inductive_cases wal_crash_NilE [elim!]: "wal_crash [] st st'"
inductive_cases wal_crash_ConsE: "wal_crash (op # ops) st st'"

text \<open>
  The state of a node that has persisted nothing yet; \<open>sn\<close> is what the underlying store
  returns for a missing snapshot, nil or an empty slice.
\<close>

definition PersistState0 :: "slice \<Rightarrow> 'c PersistState" where
  "PersistState0 sn = \<lparr>ps_Term = 0, ps_Vote = '''', ps_Logs = [sentinel 0], ps_SnapshotIndex = 0,
     ps_Snapshot = sn\<rparr>"

end
