(* ===== verification/Raft.thy ===== *)
theory Raft
  imports WalSpec
begin

text \<open>
  One Raft node, \<open>raft1/raft.go\<close>: the state of the struct \<open>Raft\<close> and every operation that
  holds \<open>rf.mu\<close>, as a function from the state to the next one. The calls an operation makes on
  \<open>rf.wal\<close> are returned in order, since a node reads its log back only when it starts. The
  peers and the apply channel are the network of \<open>RaftCluster\<close>; the two channels of capacity
  one that wake a goroutine are flags that say whether a token waits.
\<close>

record 'c Raft =
  rf_me :: NodeID
  rf_term :: int
  rf_voteFor :: NodeID
  rf_logs :: "'c log"
  rf_customerId :: role
  rf_leaderId :: NodeID
  rf_voteCount :: int
  rf_commitIndex :: int
  rf_appliedIndex :: int
  rf_snapshotIndex :: int
  rf_snapshot :: slice
  rf_matchIndex :: "NodeID \<Rightarrow> int"
  rf_nextIndex :: "NodeID \<Rightarrow> int"
  rf_nodeIDs :: "NodeID list"
  rf_resetCh :: bool
  rf_newEntryCh :: bool
  rf_electionGeneration :: "64 word"
  rf_dead :: bool

section \<open>Log index helpers\<close>

definition relIdx :: "'c Raft \<Rightarrow> int \<Rightarrow> int" where
  "relIdx rf absIdx = absIdx - rf_snapshotIndex rf"

definition lastLogIndex :: "'c Raft \<Rightarrow> int" where
  "lastLogIndex rf = int (length (rf_logs rf)) - 1 + rf_snapshotIndex rf"

definition logAt :: "'c Raft \<Rightarrow> int \<Rightarrow> 'c LogEntry option" where
  "logAt rf absIdx = sl_get (rf_logs rf) (relIdx rf absIdx)"

text \<open>\<open>rf.logs[len(rf.logs)-1].Term\<close>\<close>

definition lastLogTerm :: "'c Raft \<Rightarrow> int option" where
  "lastLogTerm rf = map_option le_Term (sl_get (rf_logs rf) (int (length (rf_logs rf)) - 1))"

section \<open>Snapshot\<close>

definition Snapshot :: "int \<Rightarrow> slice \<Rightarrow> 'c Raft \<Rightarrow> ('c Raft \<times> 'c WalOp list) option" where
  "Snapshot index sn rf =
     (if index \<le> rf_snapshotIndex rf then Some (rf, [])
      else if index > lastLogIndex rf then None
      else do {
        e \<leftarrow> logAt rf index;
        tl \<leftarrow> sl_from (rf_logs rf) (relIdx rf index + 1);
        let rf' = rf\<lparr>rf_logs := sentinel (le_Term e) # tl, rf_snapshotIndex := index,
          rf_snapshot := sn\<rparr>;
        Some (rf', [SaveSnapshot index (le_Term e) sn tl]) })"

section \<open>Internal helpers\<close>

definition stepDown :: "int \<Rightarrow> 'c Raft \<Rightarrow> 'c Raft \<times> 'c WalOp list" where
  "stepDown newTerm rf =
     (rf\<lparr>rf_term := newTerm, rf_customerId := Follower, rf_leaderId := '''', rf_voteFor := '''',
        rf_voteCount := 0\<rparr>, [SaveMeta newTerm ''''])"

definition resetElectionTimerLocked :: "'c Raft \<Rightarrow> 'c Raft" where
  "resetElectionTimerLocked rf =
     rf\<lparr>rf_electionGeneration := rf_electionGeneration rf + 1, rf_resetCh := True\<rparr>"

definition beginElectionLocked :: "'c Raft \<Rightarrow> ('c Raft \<times> electionRound \<times> 'c WalOp list) option" where
  "beginElectionLocked rf =
     do {
       let rf' = rf\<lparr>rf_term := rf_term rf + 1, rf_customerId := Candidate, rf_leaderId := '''',
         rf_voteFor := rf_me rf, rf_voteCount := 1\<rparr>;
       let rf'' = resetElectionTimerLocked rf';
       lt \<leftarrow> lastLogTerm rf'';
       Some (rf'', \<lparr>er_term = rf_term rf'', er_lastLogIndex = lastLogIndex rf'',
         er_lastLogTerm = lt\<rparr>, [SaveMeta (rf_term rf'') (rf_voteFor rf'')]) }"

definition sendRequestVotes :: "electionRound \<Rightarrow> 'c Raft \<Rightarrow> (NodeID \<times> RequestVoteArgs) list" where
  "sendRequestVotes round rf =
     map (\<lambda>id. (id, \<lparr>rv_Term = er_term round, rv_CandidateId = rf_me rf,
         rv_LastLogIndex = er_lastLogIndex round, rv_LastLogTerm = er_lastLogTerm round\<rparr>))
       (filter (\<lambda>id. id \<noteq> rf_me rf) (rf_nodeIDs rf))"

section \<open>RPC handlers\<close>

text \<open>The guard of every handler: a newer term makes the node step down first.\<close>

definition observeTerm :: "int \<Rightarrow> 'c Raft \<Rightarrow> 'c Raft \<times> 'c WalOp list" where
  "observeTerm t rf = (if t > rf_term rf then stepDown t rf else (rf, []))"

definition RequestVote ::
    "RequestVoteArgs \<Rightarrow> 'c Raft \<Rightarrow> ('c Raft \<times> RequestVoteReply \<times> 'c WalOp list) option" where
  "RequestVote args rf =
     (if rv_Term args < rf_term rf then
        Some (rf, \<lparr>rvr_Term = rf_term rf, rvr_VoteGranted = False\<rparr>, [])
      else do {
        let (rf1, ops1) = observeTerm (rv_Term args) rf;
        let lastIdx = lastLogIndex rf1;
        lastTm \<leftarrow> lastLogTerm rf1;
        let logOk = (rv_LastLogTerm args > lastTm \<or>
          (rv_LastLogTerm args = lastTm \<and> rv_LastLogIndex args \<ge> lastIdx));
        if (rf_voteFor rf1 = '''' \<or> rf_voteFor rf1 = rv_CandidateId args) \<and> logOk then do {
          let rf2 = resetElectionTimerLocked (rf1\<lparr>rf_voteFor := rv_CandidateId args\<rparr>);
          Some (rf2, \<lparr>rvr_Term = rf_term rf2, rvr_VoteGranted = True\<rparr>,
            ops1 @ [SaveMeta (rf_term rf2) (rf_voteFor rf2)]) }
        else Some (rf1, \<lparr>rvr_Term = rf_term rf1, rvr_VoteGranted = False\<rparr>, ops1) })"

text \<open>The branch of \<open>AppendEntriesHandler\<close> for a message that carries a snapshot.\<close>

definition installSnapshot ::
    "'c AppendEntries \<Rightarrow> 'c Raft \<Rightarrow> ('c Raft \<times> AppendEntriesReply \<times> 'c WalOp list) option" where
  "installSnapshot args rf =
     (if ae_SnapshotIndex args \<le> rf_snapshotIndex rf then
        Some (rf, \<lparr>aer_Term = rf_term rf, aer_Success = True,
          aer_LastMatchIndex = rf_snapshotIndex rf\<rparr>, [])
      else do {
        matches \<leftarrow> (if relIdx rf (ae_SnapshotIndex args) < int (length (rf_logs rf))
          then do { e \<leftarrow> logAt rf (ae_SnapshotIndex args); Some (le_Term e = ae_SnapshotTerm args) }
          else Some False);
        tl \<leftarrow> (if matches then sl_from (rf_logs rf) (relIdx rf (ae_SnapshotIndex args) + 1)
          else Some []);
        let rf' = rf\<lparr>rf_snapshot := ae_Snapshot args,
          rf_logs := sentinel (ae_SnapshotTerm args) # tl,
          rf_snapshotIndex := ae_SnapshotIndex args,
          rf_commitIndex := max (rf_commitIndex rf) (ae_SnapshotIndex args)\<rparr>;
        Some (rf', \<lparr>aer_Term = rf_term rf', aer_Success = True,
            aer_LastMatchIndex = rf_snapshotIndex rf'\<rparr>,
          [SaveSnapshot (rf_snapshotIndex rf') (ae_SnapshotTerm args) (rf_snapshot rf') tl]) })"

text \<open>
  The loop that skips the term of a conflicting entry, from \<open>i\<close> down to the snapshot; the
  reply keeps its zero value when the loop runs out.
\<close>

function conflictIndex :: "'c Raft \<Rightarrow> int \<Rightarrow> int \<Rightarrow> int option" where
  "conflictIndex rf conflictTerm i =
     (if i > rf_snapshotIndex rf then do {
        e \<leftarrow> logAt rf i;
        if le_Term e \<noteq> conflictTerm then Some i else conflictIndex rf conflictTerm (i - 1) }
      else Some 0)"
  by pat_completeness auto
termination
  by (relation "measure (\<lambda>(rf, t, i). nat (i - rf_snapshotIndex rf))") auto

declare conflictIndex.simps [simp del]

text \<open>The loop that counts the entries the log already has, from absolute index \<open>logIdx\<close> on.\<close>

fun matchingEntries :: "'c Raft \<Rightarrow> int \<Rightarrow> 'c log \<Rightarrow> nat option" where
  "matchingEntries rf logIdx [] = Some 0"
| "matchingEntries rf logIdx (x # xs) =
     (if logIdx > lastLogIndex rf then Some 0
      else do {
        e \<leftarrow> logAt rf logIdx;
        if le_Term e \<noteq> le_Term x then Some 0
        else map_option Suc (matchingEntries rf (logIdx + 1) xs) })"

definition appendNew :: "'c AppendEntries \<Rightarrow> 'c Raft \<Rightarrow> ('c Raft \<times> 'c WalOp list) option" where
  "appendNew args rf =
     do {
       i \<leftarrow> matchingEntries rf (ae_PrevLogIndex args + 1) (ae_Entries args);
       if i < length (ae_Entries args) then do {
         let logIdx = ae_PrevLogIndex args + 1 + int i;
         keep \<leftarrow> sl_upto (rf_logs rf) (relIdx rf logIdx);
         let new = drop i (ae_Entries args);
         Some (rf\<lparr>rf_logs := keep @ new\<rparr>, [TruncateSuffix logIdx, AppendLog new]) }
       else Some (rf, []) }"

definition appendEntries ::
    "'c AppendEntries \<Rightarrow> 'c Raft \<Rightarrow> ('c Raft \<times> AppendEntriesReply \<times> 'c WalOp list) option" where
  "appendEntries args rf =
     (if ae_PrevLogIndex args < rf_snapshotIndex rf then
        Some (rf, \<lparr>aer_Term = rf_term rf, aer_Success = False,
          aer_LastMatchIndex = rf_snapshotIndex rf\<rparr>, [])
      else if ae_PrevLogIndex args > lastLogIndex rf then
        Some (rf, \<lparr>aer_Term = rf_term rf, aer_Success = False,
          aer_LastMatchIndex = lastLogIndex rf\<rparr>, [])
      else do {
        prev \<leftarrow> logAt rf (ae_PrevLogIndex args);
        if le_Term prev \<noteq> ae_PrevLogTerm args then do {
          i \<leftarrow> conflictIndex rf (le_Term prev) (ae_PrevLogIndex args);
          Some (rf, \<lparr>aer_Term = rf_term rf, aer_Success = False, aer_LastMatchIndex = i\<rparr>, []) }
        else do {
          (rf', ops) \<leftarrow> (if ae_Entries args \<noteq> [] then appendNew args rf else Some (rf, []));
          let rf'' = (if ae_LeaderCommit args > rf_commitIndex rf'
            then rf'\<lparr>rf_commitIndex := min (ae_LeaderCommit args) (lastLogIndex rf')\<rparr> else rf');
          Some (rf'', \<lparr>aer_Term = rf_term rf'', aer_Success = True, aer_LastMatchIndex = 0\<rparr>,
            ops) } })"

definition AppendEntriesHandler ::
    "'c AppendEntries \<Rightarrow> 'c Raft \<Rightarrow> ('c Raft \<times> AppendEntriesReply \<times> 'c WalOp list) option" where
  "AppendEntriesHandler args rf =
     (if ae_Term args < rf_term rf then
        Some (rf, \<lparr>aer_Term = rf_term rf, aer_Success = False, aer_LastMatchIndex = 0\<rparr>, [])
      else do {
        let (rf1, ops1) = observeTerm (ae_Term args) rf;
        let rf2 = resetElectionTimerLocked
          (rf1\<lparr>rf_customerId := Follower, rf_leaderId := ae_LeaderId args\<rparr>);
        (rf3, reply, ops2) \<leftarrow>
          (if ae_Snapshot args \<noteq> None then installSnapshot args rf2 else appendEntries args rf2);
        Some (rf3, reply, ops1 @ ops2) })"

section \<open>RPC senders\<close>

text \<open>
  \<open>sendAppendEntries\<close> and \<open>sendRequestVote\<close> from the point where the call has returned
  with a reply; a call that fails changes nothing.
\<close>

definition countMatches :: "'c Raft \<Rightarrow> int \<Rightarrow> nat" where
  "countMatches rf n =
     1 + length (filter (\<lambda>id. id \<noteq> rf_me rf \<and> rf_matchIndex rf id \<ge> n) (rf_nodeIDs rf))"

fun advanceCommit :: "int list \<Rightarrow> 'c Raft \<Rightarrow> 'c Raft option" where
  "advanceCommit [] rf = Some rf"
| "advanceCommit (n # ns) rf =
     do {
       e \<leftarrow> logAt rf n;
       if le_Term e \<noteq> rf_term rf then advanceCommit ns rf
       else advanceCommit ns (if countMatches rf n > length (rf_nodeIDs rf) div 2
         then rf\<lparr>rf_commitIndex := n\<rparr> else rf) }"

definition sendAppendEntries ::
    "NodeID \<Rightarrow> 'c AppendEntries \<Rightarrow> AppendEntriesReply \<Rightarrow> 'c Raft \<Rightarrow>
      ('c Raft \<times> 'c WalOp list) option" where
  "sendAppendEntries server args reply rf =
     (if aer_Term reply > rf_term rf then Some (stepDown (aer_Term reply) rf)
      else if rf_term rf \<noteq> ae_Term args \<or> rf_customerId rf \<noteq> Leader then Some (rf, [])
      else if aer_Success reply then do {
        let newMatch = (if ae_Snapshot args \<noteq> None then ae_SnapshotIndex args
          else ae_PrevLogIndex args + int (length (ae_Entries args)));
        let rf1 = (if newMatch > rf_matchIndex rf server
          then rf\<lparr>rf_matchIndex := (rf_matchIndex rf)(server := newMatch)\<rparr> else rf);
        let rf2 = rf1\<lparr>rf_nextIndex := (rf_nextIndex rf1)(server := rf_matchIndex rf1 server + 1)\<rparr>;
        rf3 \<leftarrow> advanceCommit [rf_commitIndex rf2 + 1 .. lastLogIndex rf2] rf2;
        Some (rf3, []) }
      else if ae_PrevLogIndex args < rf_matchIndex rf server then Some (rf, [])
      else Some (rf\<lparr>rf_nextIndex := (rf_nextIndex rf)
        (server := max 1 (aer_LastMatchIndex reply + 1))\<rparr>, []))"

definition becomeLeader :: "'c Raft \<Rightarrow> 'c Raft" where
  "becomeLeader rf =
     rf\<lparr>rf_customerId := Leader, rf_leaderId := rf_me rf,
        rf_matchIndex := (\<lambda>id. if id \<in> set (rf_nodeIDs rf) then 0 else rf_matchIndex rf id),
        rf_nextIndex := (\<lambda>id. if id \<in> set (rf_nodeIDs rf) then lastLogIndex rf + 1
          else rf_nextIndex rf id)\<rparr>"

definition sendRequestVote ::
    "RequestVoteArgs \<Rightarrow> RequestVoteReply \<Rightarrow> 'c Raft \<Rightarrow> 'c Raft \<times> 'c WalOp list" where
  "sendRequestVote args reply rf =
     (if rvr_Term reply > rf_term rf then stepDown (rvr_Term reply) rf
      else if \<not> rvr_VoteGranted reply \<or> rf_customerId rf \<noteq> Candidate \<or> rf_term rf \<noteq> rv_Term args
        then (rf, [])
      else let rf1 = rf\<lparr>rf_voteCount := rf_voteCount rf + 1\<rparr> in
        (if rf_voteCount rf1 > int (length (rf_nodeIDs rf1) div 2) then becomeLeader rf1 else rf1, []))"

section \<open>Service API\<close>

definition GetState :: "'c Raft \<Rightarrow> int \<times> bool" where
  "GetState rf = (rf_term rf, rf_leaderId rf = rf_me rf)"

definition Start ::
    "'c option \<Rightarrow> 'c Raft \<Rightarrow> 'c Raft \<times> (int \<times> int \<times> bool) \<times> 'c WalOp list" where
  "Start command rf =
     (if rf_customerId rf \<noteq> Leader then (rf, (-1, rf_term rf, False), [])
      else
        let index = lastLogIndex rf + 1;
            entry = \<lparr>le_Command = command, le_Term = rf_term rf\<rparr>;
            rf' = rf\<lparr>rf_logs := rf_logs rf @ [entry], rf_newEntryCh := True\<rparr>
        in (rf', (index, rf_term rf', True), [AppendLog [entry]]))"

section \<open>Background goroutines\<close>

text \<open>One message of the heartbeat loop, and one round of the loop.\<close>

definition heartbeatArgs :: "'c Raft \<Rightarrow> NodeID \<Rightarrow> 'c AppendEntries option" where
  "heartbeatArgs rf peer =
     do {
       let prev0 = rf_nextIndex rf peer - 1;
       let prev1 = (if prev0 > lastLogIndex rf then lastLogIndex rf else prev0);
       (prevLogIndex, prevLogTerm, sn) \<leftarrow>
         (if prev1 < rf_snapshotIndex rf then Some (0, 0, rf_snapshot rf)
          else do { e \<leftarrow> logAt rf prev1; Some (prev1, le_Term e, None) });
       entries \<leftarrow> (if prevLogIndex < lastLogIndex rf \<and> sn = None
         then sl_from (rf_logs rf) (relIdx rf prevLogIndex + 1) else Some []);
       s0 \<leftarrow> sl_get (rf_logs rf) 0;
       Some \<lparr>ae_Term = rf_term rf, ae_LeaderId = rf_me rf, ae_PrevLogIndex = prevLogIndex,
         ae_PrevLogTerm = prevLogTerm, ae_Entries = entries, ae_LeaderCommit = rf_commitIndex rf,
         ae_Snapshot = sn, ae_SnapshotIndex = rf_snapshotIndex rf, ae_SnapshotTerm = le_Term s0\<rparr> }"

fun heartbeats :: "'c Raft \<Rightarrow> NodeID list \<Rightarrow> (NodeID \<times> 'c AppendEntries) list option" where
  "heartbeats rf [] = Some []"
| "heartbeats rf (peer # ids) =
     (if peer = rf_me rf then heartbeats rf ids
      else do { a \<leftarrow> heartbeatArgs rf peer; as \<leftarrow> heartbeats rf ids; Some ((peer, a) # as) })"

definition startHeartbeat :: "'c Raft \<Rightarrow> (NodeID \<times> 'c AppendEntries) list option" where
  "startHeartbeat rf =
     (if rf_customerId rf = Leader then heartbeats rf (rf_nodeIDs rf) else Some [])"

text \<open>
  The election timer fires in the generation the loop read before it started the timer. The
  result has the votes to ask for, when an election begins.
\<close>

definition ticker ::
    "64 word \<Rightarrow> 'c Raft \<Rightarrow> ('c Raft \<times> electionRound option \<times> 'c WalOp list) option" where
  "ticker generation rf =
     (if rf_dead rf then Some (rf, None, [])
      else if rf_customerId rf = Leader \<or> rf_electionGeneration rf \<noteq> generation
        then Some (rf, None, [])
      else do { (rf', round, ops) \<leftarrow> beginElectionLocked rf; Some (rf', Some round, ops) })"

text \<open>One round of the apply loop; with nothing to apply the goroutine waits.\<close>

definition snapshotMsg :: "slice \<Rightarrow> int \<Rightarrow> int \<Rightarrow> 'c ApplyMsg" where
  "snapshotMsg sn t i = \<lparr>am_CommandValid = False, am_Command = None, am_CommandIndex = 0,
     am_SnapshotValid = True, am_Snapshot = sn, am_SnapshotTerm = t, am_SnapshotIndex = i\<rparr>"

definition commandMsg :: "'c option \<Rightarrow> int \<Rightarrow> 'c ApplyMsg" where
  "commandMsg cmd i = \<lparr>am_CommandValid = True, am_Command = cmd, am_CommandIndex = i,
     am_SnapshotValid = False, am_Snapshot = None, am_SnapshotTerm = 0, am_SnapshotIndex = 0\<rparr>"

fun commandMsgs :: "int \<Rightarrow> 'c log \<Rightarrow> 'c ApplyMsg list" where
  "commandMsgs i [] = []"
| "commandMsgs i (e # es) = commandMsg (le_Command e) i # commandMsgs (i + 1) es"

definition sendApplyMsg :: "'c Raft \<Rightarrow> ('c Raft \<times> 'c ApplyMsg list) option" where
  "sendApplyMsg rf =
     (if rf_dead rf \<or> rf_commitIndex rf = rf_appliedIndex rf then Some (rf, [])
      else do {
        let startIdx0 = rf_appliedIndex rf + 1;
        let (sn, startIdx) = (if startIdx0 \<le> rf_snapshotIndex rf
          then (rf_snapshot rf, rf_snapshotIndex rf + 1) else (None, startIdx0));
        s0 \<leftarrow> sl_get (rf_logs rf) 0;
        entries \<leftarrow> sl_range (rf_logs rf) (relIdx rf startIdx) (relIdx rf (rf_commitIndex rf) + 1);
        Some (rf\<lparr>rf_appliedIndex := rf_commitIndex rf\<rparr>,
          (if sn \<noteq> None then [snapshotMsg sn (le_Term s0) (rf_snapshotIndex rf)] else []) @
          commandMsgs startIdx entries) })"

section \<open>Leadership transfer\<close>

definition TimeoutNow ::
    "TimeoutNowArgs \<Rightarrow> 'c Raft \<Rightarrow>
      ('c Raft \<times> TimeoutNowReply \<times> electionRound option \<times> 'c WalOp list) option" where
  "TimeoutNow args rf =
     (if tn_Term args < rf_term rf then
        Some (rf, \<lparr>tnr_Term = rf_term rf, tnr_Accepted = False\<rparr>, None, [])
      else do {
        let (rf1, ops1) = observeTerm (tn_Term args) rf;
        let reject = Some (rf1, \<lparr>tnr_Term = rf_term rf1, tnr_Accepted = False\<rparr>, None, ops1);
        if tn_LeaderId args \<noteq> rf_leaderId rf1 then reject
        else if tn_LastLogIndex args < rf_snapshotIndex rf1 \<or> tn_LastLogIndex args \<noteq> lastLogIndex rf1
          then reject
        else do {
          e \<leftarrow> logAt rf1 (tn_LastLogIndex args);
          if le_Term e \<noteq> tn_LastLogTerm args then reject
          else do {
            (rf2, round, ops2) \<leftarrow> beginElectionLocked rf1;
            Some (rf2, \<lparr>tnr_Term = er_term round, tnr_Accepted = True\<rparr>, Some round, ops1 @ ops2) } } })"

datatype raftErr = ErrNotLeader | ErrNoOtherNodes | ErrRPCFailed | ErrTransferRejected

text \<open>The loop that picks the follower with the highest \<open>matchIndex\<close>.\<close>

fun transferTarget :: "'c Raft \<Rightarrow> NodeID list \<Rightarrow> NodeID \<times> int \<Rightarrow> NodeID \<times> int" where
  "transferTarget rf [] (target, best) = (target, best)"
| "transferTarget rf (peer # ids) (target, best) =
     (if peer = rf_me rf then transferTarget rf ids (target, best)
      else if rf_matchIndex rf peer > best then transferTarget rf ids (peer, rf_matchIndex rf peer)
      else transferTarget rf ids (target, best))"

text \<open>
  \<open>TransferLeadership\<close> up to the call it makes, and after the call: a result of \<open>None\<close> for
  the reply is a call that failed. A context that ends first changes nothing.
\<close>

definition TransferLeadership :: "'c Raft \<Rightarrow> (raftErr + NodeID \<times> TimeoutNowArgs) option" where
  "TransferLeadership rf =
     (if rf_customerId rf \<noteq> Leader then Some (Inl ErrNotLeader)
      else let target = fst (transferTarget rf (rf_nodeIDs rf) ('''', -1)) in
        if target = '''' then Some (Inl ErrNoOtherNodes)
        else do {
          lt \<leftarrow> lastLogTerm rf;
          Some (Inr (target, \<lparr>tn_Term = rf_term rf, tn_LeaderId = rf_me rf,
            tn_LastLogIndex = lastLogIndex rf, tn_LastLogTerm = lt\<rparr>)) })"

definition TransferLeadership_done ::
    "TimeoutNowReply option \<Rightarrow> 'c Raft \<Rightarrow> ('c Raft \<times> 'c WalOp list) \<times> raftErr option" where
  "TransferLeadership_done result rf =
     (case result of
        None \<Rightarrow> ((rf, []), Some ErrRPCFailed)
      | Some reply \<Rightarrow>
          (observeTerm (tnr_Term reply) rf,
           if tnr_Accepted reply then None else Some ErrTransferRejected))"

section \<open>Start-up and shutdown\<close>

definition MakeWithWAL :: "NodeID \<Rightarrow> NodeID list \<Rightarrow> 'c PersistState \<times> bool \<Rightarrow> 'c Raft" where
  "MakeWithWAL i ids loaded =
     (let (st, ok) = loaded;
          rf = \<lparr>rf_me = i, rf_term = 0, rf_voteFor = '''', rf_logs = [sentinel 0],
            rf_customerId = Follower, rf_leaderId = '''', rf_voteCount = 0, rf_commitIndex = 0,
            rf_appliedIndex = 0, rf_snapshotIndex = 0, rf_snapshot = None,
            rf_matchIndex = (\<lambda>_. 0), rf_nextIndex = (\<lambda>_. 0), rf_nodeIDs = ids,
            rf_resetCh = False, rf_newEntryCh = False, rf_electionGeneration = 0,
            rf_dead = False\<rparr>;
          rf1 = (if ok then rf\<lparr>rf_term := ps_Term st, rf_logs := ps_Logs st,
              rf_voteFor := ps_Vote st, rf_snapshotIndex := ps_SnapshotIndex st,
              rf_snapshot := ps_Snapshot st\<rparr>
            else rf\<lparr>rf_snapshot := ps_Snapshot st\<rparr>)
      in rf1\<lparr>rf_appliedIndex := rf_snapshotIndex rf1, rf_commitIndex := rf_snapshotIndex rf1\<rparr>)"

definition Kill :: "'c Raft \<Rightarrow> 'c Raft" where
  "Kill rf = (if rf_dead rf then rf else rf\<lparr>rf_dead := True\<rparr>)"

text \<open>What \<open>WAL.Load\<close> has to return for the node to start again in the state it is in.\<close>

definition persistent :: "'c Raft \<Rightarrow> 'c PersistState" where
  "persistent rf = \<lparr>ps_Term = rf_term rf, ps_Vote = rf_voteFor rf, ps_Logs = rf_logs rf,
     ps_SnapshotIndex = rf_snapshotIndex rf, ps_Snapshot = rf_snapshot rf\<rparr>"

end
