(* ===== verification/RaftCluster.thy ===== *)
theory RaftCluster
  imports Raft
begin

text \<open>
  A group of Raft nodes on a network. \<open>node_step\<close> is one critical section of a node: what it
  does with a message, a timer, a client call or a turn of the apply loop, with the messages it
  sends, the messages it hands to the service and the calls it makes on its write-ahead log. An RPC
  is two messages, the call and the return; a return carries the arguments, which the goroutine that
  made the call still has. \<open>cluster_step\<close> interleaves the nodes, loses and reorders messages,
  and crashes a node at any point of the writes of a critical section.
\<close>

datatype 'c msg =
    VoteCall NodeID NodeID RequestVoteArgs
  | VoteRet NodeID NodeID RequestVoteArgs RequestVoteReply
  | AppendCall NodeID NodeID "'c AppendEntries"
  | AppendRet NodeID NodeID "'c AppendEntries" AppendEntriesReply
  | TimeoutCall NodeID NodeID TimeoutNowArgs
  | TimeoutRet NodeID NodeID TimeoutNowArgs TimeoutNowReply

text \<open>The node that handles a message: the server of a call, the caller of a return.\<close>

fun handler :: "'c msg \<Rightarrow> NodeID" where
  "handler (VoteCall a b args) = b"
| "handler (VoteRet a b args reply) = a"
| "handler (AppendCall a b args) = b"
| "handler (AppendRet a b args reply) = a"
| "handler (TimeoutCall a b args) = b"
| "handler (TimeoutRet a b args reply) = a"

datatype 'c input =
    Deliver "'c msg"
  | Tick "64 word"
  | Heartbeat
  | Command "'c option"
  | TakeSnapshot int bytes
  | Transfer
  | ApplyLoop
  | Stop

type_synonym 'c effect = "'c Raft \<times> 'c msg list \<times> 'c ApplyMsg list \<times> 'c WalOp list"

definition voteCalls :: "electionRound option \<Rightarrow> 'c Raft \<Rightarrow> 'c msg list" where
  "voteCalls r rf = (case r of None \<Rightarrow> []
     | Some round \<Rightarrow> map (\<lambda>(b, args). VoteCall (rf_me rf) b args) (sendRequestVotes round rf))"

fun deliver :: "'c msg \<Rightarrow> 'c Raft \<Rightarrow> 'c effect option" where
  "deliver (VoteCall a b args) rf =
     do { (rf', reply, ops) \<leftarrow> RequestVote args rf; Some (rf', [VoteRet a b args reply], [], ops) }"
| "deliver (VoteRet a b args reply) rf =
     (let (rf', ops) = sendRequestVote args reply rf in Some (rf', [], [], ops))"
| "deliver (AppendCall a b args) rf =
     do { (rf', reply, ops) \<leftarrow> AppendEntriesHandler args rf;
          Some (rf', [AppendRet a b args reply], [], ops) }"
| "deliver (AppendRet a b args reply) rf =
     do { (rf', ops) \<leftarrow> sendAppendEntries b args reply rf; Some (rf', [], [], ops) }"
| "deliver (TimeoutCall a b args) rf =
     do { (rf', reply, r, ops) \<leftarrow> TimeoutNow args rf;
          Some (rf', TimeoutRet a b args reply # voteCalls r rf', [], ops) }"
| "deliver (TimeoutRet a b args reply) rf =
     (let ((rf', ops), err) = TransferLeadership_done (Some reply) rf in Some (rf', [], [], ops))"

fun node_step :: "'c input \<Rightarrow> 'c Raft \<Rightarrow> 'c effect option" where
  "node_step (Deliver m) rf = deliver m rf"
| "node_step (Tick generation) rf =
     do { (rf', r, ops) \<leftarrow> ticker generation rf; Some (rf', voteCalls r rf', [], ops) }"
| "node_step Heartbeat rf =
     do { hs \<leftarrow> startHeartbeat rf;
          Some (rf\<lparr>rf_newEntryCh := False\<rparr>, map (\<lambda>(b, args). AppendCall (rf_me rf) b args) hs, [], []) }"
| "node_step (Command c) rf = (let (rf', res, ops) = Start c rf in Some (rf', [], [], ops))"
| "node_step (TakeSnapshot i sn) rf =
     do { (rf', ops) \<leftarrow> Snapshot i (Some sn) rf; Some (rf', [], [], ops) }"
| "node_step Transfer rf =
     do { r \<leftarrow> TransferLeadership rf;
          Some (rf, (case r of Inl e \<Rightarrow> []
            | Inr (b, args) \<Rightarrow> [TimeoutCall (rf_me rf) b args]), [], []) }"
| "node_step ApplyLoop rf = do { (rf', ms) \<leftarrow> sendApplyMsg rf; Some (rf', [], ms, []) }"
| "node_step Stop rf = Some (Kill rf, [], [], [])"

section \<open>The group\<close>

record 'c cluster =
  cl_nodes :: "NodeID \<Rightarrow> 'c Raft"
  cl_disks :: "NodeID \<Rightarrow> 'c PersistState"
  cl_net :: "'c msg multiset"
  cl_out :: "NodeID \<Rightarrow> 'c ApplyMsg list"

text \<open>
  What a node may be asked to do: a message has to be in the network and addressed to it; the
  service takes a snapshot, which is never empty, of a prefix it has been given.
\<close>

fun enabled :: "'c cluster \<Rightarrow> NodeID \<Rightarrow> 'c input \<Rightarrow> bool" where
  "enabled c n (Deliver m) \<longleftrightarrow> m \<in># cl_net c \<and> handler m = n"
| "enabled c n (TakeSnapshot i sn) \<longleftrightarrow> i \<le> rf_appliedIndex (cl_nodes c n) \<and> sn \<noteq> []"
| "enabled c n _ \<longleftrightarrow> True"

fun consumed :: "'c input \<Rightarrow> 'c msg multiset" where
  "consumed (Deliver m) = {#m#}"
| "consumed _ = {#}"

definition cluster_init :: "NodeID list \<Rightarrow> slice \<Rightarrow> 'c cluster" where
  "cluster_init ids sn = \<lparr>cl_nodes = (\<lambda>n. MakeWithWAL n ids (PersistState0 sn, False)),
     cl_disks = (\<lambda>_. PersistState0 sn), cl_net = {#}, cl_out = (\<lambda>_. [])\<rparr>"

text \<open>\<open>WAL.Load\<close> reports a new node only where nothing has been persisted.\<close>

definition loads :: "'c PersistState \<Rightarrow> bool \<Rightarrow> bool" where
  "loads st ok \<longleftrightarrow> ok \<or> (\<exists>sn. st = PersistState0 sn)"

inductive cluster_step :: "NodeID list \<Rightarrow> 'c cluster \<Rightarrow> 'c cluster \<Rightarrow> bool" for ids where
  act: "n \<in> set ids \<Longrightarrow> enabled c n i \<Longrightarrow> node_step i (cl_nodes c n) = Some (rf', ms, as, ops) \<Longrightarrow>
     wal_applys ops (cl_disks c n) = Some st' \<Longrightarrow>
     cluster_step ids c (c\<lparr>cl_nodes := (cl_nodes c)(n := rf'), cl_disks := (cl_disks c)(n := st'),
       cl_net := cl_net c - consumed i + mset ms, cl_out := (cl_out c)(n := cl_out c n @ as)\<rparr>)"
| crash: "n \<in> set ids \<Longrightarrow> enabled c n i \<Longrightarrow> node_step i (cl_nodes c n) = Some (rf', ms, as, ops) \<Longrightarrow>
     wal_crash ops (cl_disks c n) st' \<Longrightarrow> loads st' ok \<Longrightarrow>
     cluster_step ids c (c\<lparr>cl_nodes := (cl_nodes c)(n := MakeWithWAL n ids (st', ok)),
       cl_disks := (cl_disks c)(n := st'), cl_net := cl_net c - consumed i\<rparr>)"
| lose: "m \<in># cl_net c \<Longrightarrow> cluster_step ids c (c\<lparr>cl_net := cl_net c - {#m#}\<rparr>)"

inductive cluster_reach :: "NodeID list \<Rightarrow> 'c cluster \<Rightarrow> bool" for ids where
  init: "cluster_reach ids (cluster_init ids sn)"
| step: "cluster_reach ids c \<Longrightarrow> cluster_step ids c c' \<Longrightarrow> cluster_reach ids c'"

end
