(* ===== verification/RaftLocal.thy ===== *)
theory RaftLocal
  imports RaftCluster
begin

text \<open>
  Facts about a single node: the calls each critical section makes on the write-ahead log leave on
  disk exactly what the node would have to read to start again in its state; the term never goes
  back; a vote is not changed within a term; and the node stays well formed.
\<close>

section \<open>Persistence\<close>

lemma persistent_simps [simp]:
  "ps_Term (persistent rf) = rf_term rf" "ps_Vote (persistent rf) = rf_voteFor rf"
  "ps_Logs (persistent rf) = rf_logs rf" "ps_SnapshotIndex (persistent rf) = rf_snapshotIndex rf"
  "ps_Snapshot (persistent rf) = rf_snapshot rf"
  by (simp_all add: persistent_def)

lemma persistent_eqI:
  "ps_Term st = rf_term rf \<Longrightarrow> ps_Vote st = rf_voteFor rf \<Longrightarrow> ps_Logs st = rf_logs rf \<Longrightarrow>
     ps_SnapshotIndex st = rf_snapshotIndex rf \<Longrightarrow> ps_Snapshot st = rf_snapshot rf \<Longrightarrow>
     st = persistent rf"
  by (simp add: persistent_def)

text \<open>A node keeps its promise when the calls it makes take the disk to its new state.\<close>

definition persists :: "'c Raft \<Rightarrow> 'c WalOp list \<Rightarrow> 'c Raft \<Rightarrow> bool" where
  "persists rf ops rf' \<longleftrightarrow> wal_applys ops (persistent rf) = Some (persistent rf')"

lemma persists_trans:
  "persists rf ops rf' \<Longrightarrow> persists rf' ops' rf'' \<Longrightarrow> persists rf (ops @ ops') rf''"
  by (simp add: persists_def wal_applys_append)

lemma persists_same:
  assumes "rf_term rf' = rf_term rf" "rf_voteFor rf' = rf_voteFor rf" "rf_logs rf' = rf_logs rf"
    "rf_snapshotIndex rf' = rf_snapshotIndex rf" "rf_snapshot rf' = rf_snapshot rf"
  shows "persists rf [] rf'"
  using assms by (simp add: persists_def persistent_def)

lemma resetElectionTimerLocked_simps [simp]:
  "rf_term (resetElectionTimerLocked rf) = rf_term rf"
  "rf_voteFor (resetElectionTimerLocked rf) = rf_voteFor rf"
  "rf_logs (resetElectionTimerLocked rf) = rf_logs rf"
  "rf_me (resetElectionTimerLocked rf) = rf_me rf"
  "rf_nodeIDs (resetElectionTimerLocked rf) = rf_nodeIDs rf"
  "rf_customerId (resetElectionTimerLocked rf) = rf_customerId rf"
  "rf_leaderId (resetElectionTimerLocked rf) = rf_leaderId rf"
  "rf_voteCount (resetElectionTimerLocked rf) = rf_voteCount rf"
  "rf_commitIndex (resetElectionTimerLocked rf) = rf_commitIndex rf"
  "rf_appliedIndex (resetElectionTimerLocked rf) = rf_appliedIndex rf"
  "rf_matchIndex (resetElectionTimerLocked rf) = rf_matchIndex rf"
  "rf_nextIndex (resetElectionTimerLocked rf) = rf_nextIndex rf"
  "rf_snapshotIndex (resetElectionTimerLocked rf) = rf_snapshotIndex rf"
  "rf_snapshot (resetElectionTimerLocked rf) = rf_snapshot rf"
  by (simp_all add: resetElectionTimerLocked_def)

lemma persistent_reset [simp]: "persistent (resetElectionTimerLocked rf) = persistent rf"
  by (simp add: persistent_def)

lemma persists_stepDown: "stepDown t rf = (rf', ops) \<Longrightarrow> persists rf ops rf'"
  by (auto simp: stepDown_def persists_def persistent_def)

lemma persists_observeTerm: "observeTerm t rf = (rf', ops) \<Longrightarrow> persists rf ops rf'"
  by (auto simp: observeTerm_def persists_stepDown persists_same split: if_splits)

lemma persists_beginElection:
  "beginElectionLocked rf = Some (rf', r, ops) \<Longrightarrow> persists rf ops rf'"
  by (auto simp: beginElectionLocked_def persists_def persistent_def resetElectionTimerLocked_def
    Let_def)

lemma persists_grant:
  "persists rf [SaveMeta (rf_term rf) v] (resetElectionTimerLocked (rf\<lparr>rf_voteFor := v\<rparr>))"
  by (simp add: persists_def persistent_def)

lemma persists_RequestVote:
  assumes "RequestVote args rf = Some (rf', reply, ops)"
  shows "persists rf ops rf'"
proof (cases "rv_Term args < rf_term rf")
  case True
  then show ?thesis using assms by (simp add: RequestVote_def persists_same)
next
  case False
  obtain rf1 ops1 where o: "observeTerm (rv_Term args) rf = (rf1, ops1)" by fastforce
  have *: "persists rf ops1 rf1" by (rule persists_observeTerm [OF o])
  have g: "persists rf (ops1 @ [SaveMeta (rf_term rf1) v])
      (resetElectionTimerLocked (rf1\<lparr>rf_voteFor := v\<rparr>))" for v
    by (rule persists_trans [OF * persists_grant])
  from assms False o * g show ?thesis
    by (auto simp: RequestVote_def Let_def split: if_splits)
qed

lemma persists_installSnapshot:
  "installSnapshot args rf = Some (rf', reply, ops) \<Longrightarrow> persists rf ops rf'"
  by (auto simp: installSnapshot_def persists_same persists_def persistent_def Let_def
    split: if_splits)

lemma persists_appendNew: "appendNew args rf = Some (rf', ops) \<Longrightarrow> persists rf ops rf'"
  by (auto simp: appendNew_def persists_same persists_def persistent_def Let_def relIdx_def
    split: if_splits)

lemma persists_appendEntries:
  assumes "appendEntries args rf = Some (rf', reply, ops)"
  shows "persists rf ops rf'"
  using assms persists_appendNew [of args rf]
  by (fastforce simp: appendEntries_def persists_same persists_def persistent_def Let_def
    split: if_splits)

lemma persists_AppendEntriesHandler:
  assumes "AppendEntriesHandler args rf = Some (rf', reply, ops)"
  shows "persists rf ops rf'"
proof (cases "ae_Term args < rf_term rf")
  case True
  then show ?thesis using assms by (simp add: AppendEntriesHandler_def persists_same)
next
  case False
  obtain rf1 ops1 where o: "observeTerm (ae_Term args) rf = (rf1, ops1)" by fastforce
  let ?rf2 = "resetElectionTimerLocked
    (rf1\<lparr>rf_customerId := Follower, rf_leaderId := ae_LeaderId args\<rparr>)"
  obtain ops2 where ops: "ops = ops1 @ ops2" and
    h: "(if ae_Snapshot args \<noteq> None then installSnapshot args ?rf2 else appendEntries args ?rf2)
      = Some (rf', reply, ops2)"
    using assms False o by (auto simp: AppendEntriesHandler_def Let_def)
  have "persists ?rf2 ops2 rf'"
    using h persists_installSnapshot persists_appendEntries by (auto split: if_splits)
  moreover have "persists rf ops1 ?rf2"
    using persists_observeTerm [OF o] by (simp add: persists_def persistent_def)
  ultimately show ?thesis unfolding ops by (rule persists_trans [rotated])
qed

lemma advanceCommit_fields:
  "advanceCommit ns rf = Some rf' \<Longrightarrow> \<exists>c. rf' = rf\<lparr>rf_commitIndex := c\<rparr>"
proof (induction ns rf arbitrary: rf' rule: advanceCommit.induct)
  case (1 rf)
  then show ?case by (auto intro: exI [of _ "rf_commitIndex rf"])
next
  case (2 n ns rf)
  then show ?case by (fastforce split: if_splits)
qed

lemma persists_sendAppendEntries:
  assumes "sendAppendEntries p args reply rf = Some (rf', ops)"
  shows "persists rf ops rf'"
  using assms
  by (auto simp: sendAppendEntries_def Let_def persists_same persists_stepDown
    dest!: advanceCommit_fields split: if_splits)

lemma persists_sendRequestVote:
  "sendRequestVote args reply rf = (rf', ops) \<Longrightarrow> persists rf ops rf'"
  by (auto simp: sendRequestVote_def Let_def becomeLeader_def persists_same persists_stepDown
    split: if_splits)

lemma persists_Start: "Start c rf = (rf', res, ops) \<Longrightarrow> persists rf ops rf'"
  by (auto simp: Start_def Let_def persists_same persists_def persistent_def split: if_splits)

lemma persists_Snapshot: "Snapshot i sn rf = Some (rf', ops) \<Longrightarrow> persists rf ops rf'"
  by (auto simp: Snapshot_def Let_def persists_same persists_def persistent_def split: if_splits)

lemma persists_ticker: "ticker g rf = Some (rf', r, ops) \<Longrightarrow> persists rf ops rf'"
  by (auto simp: ticker_def persists_same persists_beginElection split: if_splits)

lemma persists_TimeoutNow:
  assumes "TimeoutNow args rf = Some (rf', reply, r, ops)"
  shows "persists rf ops rf'"
proof (cases "tn_Term args < rf_term rf")
  case True
  then show ?thesis using assms by (simp add: TimeoutNow_def persists_same)
next
  case False
  obtain rf1 ops1 where o: "observeTerm (tn_Term args) rf = (rf1, ops1)" by fastforce
  have *: "persists rf ops1 rf1" by (rule persists_observeTerm [OF o])
  have g: "persists rf (ops1 @ ops2) rf2" if "beginElectionLocked rf1 = Some (rf2, r2, ops2)"
    for rf2 r2 ops2
    by (rule persists_trans [OF * persists_beginElection [OF that]])
  from assms False o * show ?thesis
    by (auto simp: TimeoutNow_def Let_def dest: g split: if_splits)
qed

lemma persists_sendApplyMsg: "sendApplyMsg rf = Some (rf', ms) \<Longrightarrow> persists rf [] rf'"
  by (auto simp: sendApplyMsg_def Let_def persists_same split: if_splits)

lemmas persists_all = persists_RequestVote persists_AppendEntriesHandler persists_sendAppendEntries
  persists_sendRequestVote persists_Start persists_Snapshot persists_ticker persists_TimeoutNow
  persists_sendApplyMsg persists_observeTerm

lemma persists_node_step:
  assumes "node_step i rf = Some (rf', ms, as, ops)"
  shows "persists rf ops rf'"
proof (cases i)
  case (Deliver m)
  then show ?thesis using assms
    by (cases m) (auto simp: TransferLeadership_done_def split: prod.splits intro: persists_all)
qed (use assms in \<open>auto simp: Kill_def persists_same split: prod.splits intro: persists_all\<close>)

section \<open>Terms and votes\<close>

text \<open>
  The term of a node never decreases, and within a term a vote that has been given is not changed:
  the local half of election safety.
\<close>

definition vote_once :: "'c Raft \<Rightarrow> 'c Raft \<Rightarrow> bool" where
  "vote_once rf rf' \<longleftrightarrow> rf_term rf \<le> rf_term rf' \<and>
     (rf_term rf' = rf_term rf \<longrightarrow> rf_voteFor rf \<noteq> '''' \<longrightarrow> rf_voteFor rf' = rf_voteFor rf)"

lemma vote_once_same:
  "rf_term rf' = rf_term rf \<Longrightarrow> rf_voteFor rf' = rf_voteFor rf \<Longrightarrow> vote_once rf rf'"
  by (simp add: vote_once_def)

lemma vote_once_trans: "vote_once rf rf' \<Longrightarrow> vote_once rf' rf'' \<Longrightarrow> vote_once rf rf''"
  by (auto simp: vote_once_def)

lemma vote_once_stepDown: "rf_term rf < t \<Longrightarrow> stepDown t rf = (rf', ops) \<Longrightarrow> vote_once rf rf'"
  by (auto simp: stepDown_def vote_once_def)

lemma vote_once_observeTerm: "observeTerm t rf = (rf', ops) \<Longrightarrow> vote_once rf rf'"
  by (auto simp: observeTerm_def vote_once_same vote_once_stepDown split: if_splits)

lemma vote_once_beginElection:
  "beginElectionLocked rf = Some (rf', r, ops) \<Longrightarrow> vote_once rf rf'"
  by (auto simp: beginElectionLocked_def vote_once_def Let_def)

lemma vote_once_RequestVote:
  assumes "RequestVote args rf = Some (rf', reply, ops)"
  shows "vote_once rf rf'"
proof (cases "rv_Term args < rf_term rf")
  case False
  obtain rf1 ops1 where o: "observeTerm (rv_Term args) rf = (rf1, ops1)" by fastforce
  have "vote_once rf1 rf'"
    using assms False o by (auto simp: RequestVote_def Let_def vote_once_def split: if_splits)
  then show ?thesis by (rule vote_once_trans [OF vote_once_observeTerm [OF o]])
qed (use assms in \<open>simp add: RequestVote_def vote_once_same\<close>)

lemma installSnapshot_fields:
  assumes "installSnapshot args rf = Some (rf', reply, ops)"
  shows "rf_term rf' = rf_term rf" "rf_voteFor rf' = rf_voteFor rf" "rf_me rf' = rf_me rf"
    "rf_nodeIDs rf' = rf_nodeIDs rf" "rf_customerId rf' = rf_customerId rf"
  using assms by (auto simp: installSnapshot_def Let_def split: if_splits)

lemma appendEntries_fields:
  assumes "appendEntries args rf = Some (rf', reply, ops)"
  shows "rf_term rf' = rf_term rf" "rf_voteFor rf' = rf_voteFor rf" "rf_me rf' = rf_me rf"
    "rf_nodeIDs rf' = rf_nodeIDs rf" "rf_customerId rf' = rf_customerId rf"
  using assms by (auto simp: appendEntries_def appendNew_def Let_def split: if_splits)

lemma vote_once_AppendEntriesHandler:
  assumes "AppendEntriesHandler args rf = Some (rf', reply, ops)"
  shows "vote_once rf rf'"
proof (cases "ae_Term args < rf_term rf")
  case False
  obtain rf1 ops1 where o: "observeTerm (ae_Term args) rf = (rf1, ops1)" by fastforce
  have "vote_once rf1 rf'"
    using assms False o
    by (auto simp: AppendEntriesHandler_def Let_def intro!: vote_once_same
      dest: installSnapshot_fields appendEntries_fields split: if_splits)
  then show ?thesis by (rule vote_once_trans [OF vote_once_observeTerm [OF o]])
qed (use assms in \<open>simp add: AppendEntriesHandler_def vote_once_same\<close>)

lemma vote_once_TimeoutNow:
  assumes "TimeoutNow args rf = Some (rf', reply, r, ops)"
  shows "vote_once rf rf'"
proof (cases "tn_Term args < rf_term rf")
  case False
  obtain rf1 ops1 where o: "observeTerm (tn_Term args) rf = (rf1, ops1)" by fastforce
  have "vote_once rf1 rf'"
    using assms False o
    by (auto simp: TimeoutNow_def Let_def vote_once_same dest: vote_once_beginElection
      split: if_splits)
  then show ?thesis by (rule vote_once_trans [OF vote_once_observeTerm [OF o]])
qed (use assms in \<open>simp add: TimeoutNow_def vote_once_same\<close>)

lemma vote_once_sendAppendEntries:
  "sendAppendEntries p args reply rf = Some (rf', ops) \<Longrightarrow> vote_once rf rf'"
  by (auto simp: sendAppendEntries_def Let_def vote_once_same vote_once_stepDown
    dest!: advanceCommit_fields split: if_splits)

lemma vote_once_sendRequestVote:
  "sendRequestVote args reply rf = (rf', ops) \<Longrightarrow> vote_once rf rf'"
  by (auto simp: sendRequestVote_def Let_def becomeLeader_def vote_once_same vote_once_stepDown
    split: if_splits)

lemma vote_once_others:
  "Start c rf = (rf', res, ops) \<Longrightarrow> vote_once rf rf'"
  "Snapshot k sn rf = Some (rf', ops) \<Longrightarrow> vote_once rf rf'"
  "ticker g rf = Some (rf', r, ops) \<Longrightarrow> vote_once rf rf'"
  "sendApplyMsg rf = Some (rf', ms) \<Longrightarrow> vote_once rf rf'"
  by (auto simp: Start_def Snapshot_def ticker_def sendApplyMsg_def Let_def vote_once_same
    vote_once_beginElection split: if_splits)

lemmas vote_once_all = vote_once_RequestVote vote_once_AppendEntriesHandler vote_once_TimeoutNow
  vote_once_sendAppendEntries vote_once_sendRequestVote vote_once_others vote_once_observeTerm

lemma vote_once_node_step:
  assumes "node_step i rf = Some (rf', ms, as, ops)"
  shows "vote_once rf rf'"
proof (cases i)
  case (Deliver m)
  then show ?thesis using assms
    by (cases m) (auto simp: TransferLeadership_done_def split: prod.splits intro: vote_once_all)
qed (use assms in \<open>auto simp: Kill_def vote_once_same split: prod.splits intro: vote_once_all\<close>)

section \<open>Identity\<close>

text \<open>No operation changes who the node is or who its peers are.\<close>

definition same_node :: "'c Raft \<Rightarrow> 'c Raft \<Rightarrow> bool" where
  "same_node rf rf' \<longleftrightarrow> rf_me rf' = rf_me rf \<and> rf_nodeIDs rf' = rf_nodeIDs rf"

lemma same_nodeI: "rf_me rf' = rf_me rf \<Longrightarrow> rf_nodeIDs rf' = rf_nodeIDs rf \<Longrightarrow> same_node rf rf'"
  by (simp add: same_node_def)

lemma same_node_observeTerm: "observeTerm t rf = (rf', ops) \<Longrightarrow> same_node rf rf'"
  by (auto simp: observeTerm_def stepDown_def same_node_def split: if_splits)

lemma same_node_beginElection:
  "beginElectionLocked rf = Some (rf', r, ops) \<Longrightarrow> same_node rf rf'"
  by (auto simp: beginElectionLocked_def same_node_def Let_def)

lemma same_node_rpcs:
  "RequestVote args rf = Some (rf', reply, ops) \<Longrightarrow> same_node rf rf'"
  "AppendEntriesHandler args' rf = Some (rf', reply', ops) \<Longrightarrow> same_node rf rf'"
  "TimeoutNow args'' rf = Some (rf', reply'', r, ops) \<Longrightarrow> same_node rf rf'"
  by (auto simp: RequestVote_def AppendEntriesHandler_def TimeoutNow_def Let_def same_node_def
    dest!: same_node_observeTerm [unfolded same_node_def]
      same_node_beginElection [unfolded same_node_def]
    dest: installSnapshot_fields appendEntries_fields split: if_splits prod.splits)

lemma same_node_replies:
  "sendAppendEntries p args reply rf = Some (rf', ops) \<Longrightarrow> same_node rf rf'"
  "sendRequestVote args' reply' rf = (rf', ops) \<Longrightarrow> same_node rf rf'"
  by (auto simp: sendAppendEntries_def sendRequestVote_def becomeLeader_def stepDown_def Let_def
    same_node_def dest!: advanceCommit_fields split: if_splits)

lemma same_node_others:
  "Start c rf = (rf', res, ops) \<Longrightarrow> same_node rf rf'"
  "Snapshot k sn rf = Some (rf', ops) \<Longrightarrow> same_node rf rf'"
  "ticker g rf = Some (rf', r, ops) \<Longrightarrow> same_node rf rf'"
  "sendApplyMsg rf = Some (rf', ms) \<Longrightarrow> same_node rf rf'"
  by (auto simp: Start_def Snapshot_def ticker_def sendApplyMsg_def Let_def same_node_def
    dest!: same_node_beginElection [unfolded same_node_def] split: if_splits)

lemma same_node_step:
  assumes "node_step i rf = Some (rf', ms, as, ops)"
  shows "same_node rf rf'"
proof (cases i)
  case (Deliver m)
  then show ?thesis using assms
    by (cases m) (auto simp: TransferLeadership_done_def split: prod.splits
      intro: same_node_rpcs same_node_replies same_node_observeTerm)
qed (use assms in \<open>auto simp: Kill_def split: prod.splits intro: same_node_others same_nodeI\<close>)

section \<open>The properties of a node\<close>

text \<open>
  C12. The calls a critical section of a node makes on its write-ahead log take the disk from what
  \<open>Load\<close> returns for the old state to what it returns for the new one: a node that restarts
  after the section has the term, the vote, the log and the snapshot it had before.
\<close>

theorem raft_writes_ahead:
  assumes "node_step i rf = Some (rf', ms, as, ops)"
  shows "wal_applys ops (persistent rf) = Some (persistent rf')"
  using persists_node_step [OF assms] by (simp add: persists_def)

lemma Tick_example:
  "node_step (Tick 0) (MakeWithWAL ''a'' [''a'', ''b''] (PersistState0 None, False) :: nat Raft) =
     Some (resetElectionTimerLocked ((MakeWithWAL ''a'' [''a'', ''b''] (PersistState0 None, False))
         \<lparr>rf_term := 1, rf_customerId := Candidate, rf_voteFor := ''a'', rf_voteCount := 1\<rparr>),
       [VoteCall ''a'' ''b'' \<lparr>rv_Term = 1, rv_CandidateId = ''a'', rv_LastLogIndex = 0,
         rv_LastLogTerm = 0\<rparr>], [], [SaveMeta 1 ''a''])"
  by (simp add: MakeWithWAL_def ticker_def beginElectionLocked_def lastLogTerm_def lastLogIndex_def
    resetElectionTimerLocked_def voteCalls_def sendRequestVotes_def PersistState0_def Let_def)

theorem raft_writes_ahead_witness:
  "\<exists>rf' :: nat Raft. \<exists>ms as.
     node_step (Tick 0) (MakeWithWAL ''a'' [''a'', ''b''] (PersistState0 None, False)) =
       Some (rf', ms, as, [SaveMeta 1 ''a'']) \<and>
     wal_applys [SaveMeta 1 ''a'']
       (persistent (MakeWithWAL ''a'' [''a'', ''b''] (PersistState0 None, False) :: nat Raft)) =
       Some (persistent rf')"
  using raft_writes_ahead [OF Tick_example] Tick_example by blast

end
