(* ===== verification/RaftRefine.thy ===== *)
theory RaftRefine
  imports RaftSpec RaftLocal
begin

text \<open>
  The nodes of \<open>Raft\<close> implement the abstract protocol of \<open>RaftSpec\<close>. The relation
  \<open>nsim\<close> links a node to the whole log that its suffix behind a snapshot stands for, and says
  what its role, its commit index and its counters mean; \<open>mok\<close> says what a message in the
  network means. Every critical section is matched by steps of the abstract protocol taken by the
  same node, and so is every point of its writes where a crash can stop it.
\<close>

section \<open>Moves of one node\<close>

definition frame :: "NodeID \<Rightarrow> 'c spec \<Rightarrow> 'c spec \<Rightarrow> bool" where
  "frame n s s' \<longleftrightarrow> extends s s' \<and>
     (\<forall>m. m \<noteq> n \<longrightarrow> sp_term s' m = sp_term s m \<and> sp_log s' m = sp_log s m \<and>
        sp_vote s' m = sp_vote s m \<and> sp_cand s' m = sp_cand s m \<and> sp_ack s' m = sp_ack s m) \<and>
     (\<forall>t m L Q. m \<noteq> n \<longrightarrow> sp_lead s' t = Some (m, L, Q) \<longrightarrow>
        sp_lead s t = Some (m, L, Q) \<and> sp_tlog s' t = sp_tlog s t)"

lemma frame_refl: "frame n s s"
  by (simp add: frame_def)

lemma frameD:
  assumes "frame n s s'" "m \<noteq> n"
  shows "sp_term s' m = sp_term s m" "sp_log s' m = sp_log s m" "sp_vote s' m = sp_vote s m"
    "sp_cand s' m = sp_cand s m" "sp_ack s' m = sp_ack s m"
  using assms by (simp_all add: frame_def)

lemma frame_leadD:
  assumes "frame n s s'" "m \<noteq> n" "sp_lead s' t = Some (m, L, Q)"
  shows "sp_lead s t = Some (m, L, Q)" "sp_tlog s' t = sp_tlog s t"
  using assms unfolding frame_def by blast+

lemma frame_extends: "frame n s s' \<Longrightarrow> extends s s'"
  by (simp add: frame_def)

lemma frame_trans:
  assumes f: "frame n s s'" and g: "frame n s' s''"
  shows "frame n s s''"
  unfolding frame_def
proof (intro conjI allI impI)
  show "extends s s''" by (rule extends_trans [OF frame_extends [OF f] frame_extends [OF g]])
next
  fix t m L Q assume m: "m \<noteq> n" and l: "sp_lead s'' t = Some (m, L, Q)"
  show "sp_lead s t = Some (m, L, Q)" by (rule frame_leadD(1) [OF f m frame_leadD(1) [OF g m l]])
  show "sp_tlog s'' t = sp_tlog s t"
    by (simp only: frame_leadD(2) [OF g m l] frame_leadD(2) [OF f m frame_leadD(1) [OF g m l]])
qed (simp_all add: frameD [OF f] frameD [OF g])

inductive moves :: "NodeID set \<Rightarrow> NodeID \<Rightarrow> 'c spec \<Rightarrow> 'c spec \<Rightarrow> bool" for N n where
  moves_refl: "moves N n s s"
| moves_step: "moves N n s s' \<Longrightarrow> spec_step N s' s'' \<Longrightarrow> frame n s' s'' \<Longrightarrow> moves N n s s''"

lemma moves_frame: "moves N n s s' \<Longrightarrow> frame n s s'"
  by (induction rule: moves.induct) (auto intro: frame_refl frame_trans)

lemma moves_extends: "moves N n s s' \<Longrightarrow> extends s s'"
  by (blast dest: moves_frame frame_extends)

lemma moves_inv: "moves N n s s' \<Longrightarrow> spec_inv N s \<Longrightarrow> spec_inv N s'"
  by (induction rule: moves.induct) (auto intro: spec_inv_step)

lemma moves_reach: "moves N n s s' \<Longrightarrow> spec_reach N s \<Longrightarrow> spec_reach N s'"
  by (induction rule: moves.induct) (auto intro: spec_reach.step)

lemma moves_one: "spec_step N s s' \<Longrightarrow> frame n s s' \<Longrightarrow> moves N n s s'"
  by (blast intro: moves.intros)

lemma moves_trans: "moves N n s' s'' \<Longrightarrow> moves N n s s' \<Longrightarrow> moves N n s s''"
  by (induction rule: moves.induct) (auto intro: moves.intros)

lemma frameI:
  assumes "spec_step N s s'" "spec_inv N s"
    "\<And>m. m \<noteq> n \<Longrightarrow> sp_term s' m = sp_term s m" "\<And>m. m \<noteq> n \<Longrightarrow> sp_log s' m = sp_log s m"
    "\<And>m. m \<noteq> n \<Longrightarrow> sp_vote s' m = sp_vote s m" "\<And>m. m \<noteq> n \<Longrightarrow> sp_cand s' m = sp_cand s m"
    "\<And>m. m \<noteq> n \<Longrightarrow> sp_ack s' m = sp_ack s m"
    "\<And>t m L Q. m \<noteq> n \<Longrightarrow> sp_lead s' t = Some (m, L, Q) \<Longrightarrow> sp_lead s t = Some (m, L, Q)"
    "\<And>t m L Q. m \<noteq> n \<Longrightarrow> sp_lead s' t = Some (m, L, Q) \<Longrightarrow> sp_tlog s' t = sp_tlog s t"
  shows "frame n s s'"
  unfolding frame_def
  by (intro conjI allI impI spec_step_extends [OF assms(1,2)])
    (erule assms(3-7) | erule (1) assms(8) | erule (1) assms(9))+

lemma upd2_other: "m \<noteq> n \<Longrightarrow> upd2 f n t x m = f m"
  by (simp add: upd2_def)

lemma bump_moves:
  assumes "spec_inv N s" "sp_term s n < t"
  shows "moves N n s (s\<lparr>sp_term := (sp_term s)(n := t)\<rparr>)"
  using spec_step.bump [of s n t N] assms by (auto intro!: moves_one frameI)

lemma stand_moves:
  assumes "spec_inv N s" "n \<in> N" "t = sp_term s n + 1"
  shows "moves N n s (s\<lparr>sp_term := (sp_term s)(n := t),
       sp_cand := upd2 (sp_cand s) n t (Some (sp_log s n)),
       sp_vote := upd2 (sp_vote s) n t (Some (n, sp_log s n))\<rparr>)"
  using spec_step.stand [OF assms(2,3)] assms(1) by (auto intro!: moves_one frameI simp: upd2_other)

lemma vote_moves:
  assumes "spec_inv N s" "sp_term s n = t" "sp_vote s n t = None" "sp_cand s c t = Some L"
    "uptodate L (sp_log s n)"
  shows "moves N n s (s\<lparr>sp_vote := upd2 (sp_vote s) n t (Some (c, sp_log s n))\<rparr>)"
  using spec_step.vote [OF assms(2-5)] assms(1) by (auto intro!: moves_one frameI simp: upd2_other)

lemma win_moves:
  assumes "spec_inv N s" "sp_term s n = t" "sp_cand s n t = Some (sp_log s n)" "sp_lead s t = None"
    "majority N Q" "\<And>q. q \<in> Q \<Longrightarrow> \<exists>V. sp_vote s q t = Some (n, V)"
  shows "moves N n s (s\<lparr>sp_lead := (sp_lead s)(t := Some (n, sp_log s n, Q)),
       sp_tlog := (sp_tlog s)(t := sp_log s n),
       sp_ack := upd2 (sp_ack s) n t (length (sp_log s n))\<rparr>)"
  using spec_step.win [OF assms(2-6)] assms(1)
  by (auto intro!: moves_one frameI simp: upd2_other split: if_splits)

lemma append_moves:
  assumes "spec_inv N s" "sp_term s n = t" "sp_lead s t = Some (n, L, Q)" "sp_log s n = sp_tlog s t"
    "le_Term e = t"
  shows "moves N n s (s\<lparr>sp_log := (sp_log s)(n := sp_log s n @ [e]),
       sp_tlog := (sp_tlog s)(t := sp_tlog s t @ [e]),
       sp_ack := upd2 (sp_ack s) n t (Suc (length (sp_tlog s t)))\<rparr>)"
  using spec_step.append [OF assms(2-5)] assms(1,3)
  by (auto intro!: moves_one frameI simp: upd2_other split: if_splits)

lemma accept_moves:
  assumes "spec_inv N s" "sp_term s n = t" "sp_lead s t \<noteq> None" "m \<le> length (sp_tlog s t)"
  shows "moves N n s (s\<lparr>sp_log := (sp_log s)(n := accepted_log (take m (sp_tlog s t)) (sp_log s n)),
       sp_ack := upd2 (sp_ack s) n t (max (sp_ack s n t) m)\<rparr>)"
  using spec_step.accept [OF assms(2-4)] assms(1) by (auto intro!: moves_one frameI simp: upd2_other)

lemma cut_moves:
  assumes "spec_inv N s" "sp_term s n = t" "sp_lead s t \<noteq> None"
    "\<And>P. prefix P (sp_tlog s t) \<Longrightarrow> prefix P (sp_log s n) \<Longrightarrow> length P \<le> j"
  shows "moves N n s (s\<lparr>sp_log := (sp_log s)(n := take j (sp_tlog s t))\<rparr>)"
  using spec_step.cut [OF assms(2-4)] assms(1) by (auto intro!: moves_one frameI)

section \<open>The relation\<close>

text \<open>The term at absolute index \<open>i\<close> of a whole log, 0 in front of it.\<close>

definition termAt :: "'c log \<Rightarrow> nat \<Rightarrow> int" where
  "termAt L i = (if i = 0 then 0 else le_Term (L ! (i - 1)))"

text \<open>The suffix a node keeps behind its snapshot, with the sentinel in front.\<close>

definition repr :: "'c PersistState \<Rightarrow> 'c log \<Rightarrow> bool" where
  "repr st L \<longleftrightarrow> 0 \<le> ps_SnapshotIndex st \<and> nat (ps_SnapshotIndex st) \<le> length L \<and>
     ps_Logs st = sentinel (termAt L (nat (ps_SnapshotIndex st))) # drop (nat (ps_SnapshotIndex st)) L"

definition vote_ok :: "(NodeID \<times> 'c log) option \<Rightarrow> NodeID \<Rightarrow> bool" where
  "vote_ok v c \<longleftrightarrow> (if c = '''' then v = None else \<exists>V. v = Some (c, V))"

definition psim :: "NodeID set \<Rightarrow> 'c spec \<Rightarrow> NodeID \<Rightarrow> 'c PersistState \<Rightarrow> bool" where
  "psim N s n st \<longleftrightarrow> sp_term s n = ps_Term st \<and> repr st (sp_log s n) \<and>
     vote_ok (sp_vote s n (ps_Term st)) (ps_Vote st) \<and>
     committed N s (ps_Term st) (take (nat (ps_SnapshotIndex st)) (sp_log s n)) \<and>
     (0 < ps_SnapshotIndex st \<longrightarrow> ps_Snapshot st \<noteq> None)"

definition commit_ok :: "NodeID set \<Rightarrow> 'c spec \<Rightarrow> NodeID \<Rightarrow> 'c Raft \<Rightarrow> bool" where
  "commit_ok N s n rf \<longleftrightarrow> rf_snapshotIndex rf \<le> rf_commitIndex rf \<and>
     rf_commitIndex rf \<le> int (length (sp_log s n)) \<and> rf_appliedIndex rf \<le> rf_commitIndex rf \<and>
     committed N s (rf_term rf) (take (nat (rf_commitIndex rf)) (sp_log s n))"

definition lead_ok :: "NodeID set \<Rightarrow> 'c spec \<Rightarrow> NodeID \<Rightarrow> 'c Raft \<Rightarrow> bool" where
  "lead_ok N s n rf \<longleftrightarrow> (rf_customerId rf = Leader \<longrightarrow>
     (\<exists>L Q. sp_lead s (rf_term rf) = Some (n, L, Q)) \<and> sp_log s n = sp_tlog s (rf_term rf) \<and>
     sp_ack s n (rf_term rf) = length (sp_tlog s (rf_term rf)) \<and>
     (\<forall>p. p \<noteq> n \<longrightarrow> p \<in> N \<longrightarrow> 0 \<le> rf_matchIndex rf p \<and> 1 \<le> rf_nextIndex rf p \<and>
        rf_matchIndex rf p \<le> int (sp_ack s p (rf_term rf))))"

definition cand_ok :: "'c spec \<Rightarrow> NodeID \<Rightarrow> 'c Raft \<Rightarrow> bool" where
  "cand_ok s n rf \<longleftrightarrow> (rf_customerId rf = Candidate \<longrightarrow>
     sp_cand s n (rf_term rf) = Some (sp_log s n) \<and>
     (\<forall>m L Q. sp_lead s (rf_term rf) = Some (m, L, Q) \<longrightarrow> m \<noteq> n))"

definition nsim :: "NodeID set \<Rightarrow> 'c spec \<Rightarrow> NodeID \<Rightarrow> 'c Raft \<Rightarrow> bool" where
  "nsim N s n rf \<longleftrightarrow> rf_me rf = n \<and> psim N s n (persistent rf) \<and> commit_ok N s n rf \<and>
     lead_ok N s n rf \<and> cand_ok s n rf"

lemma nsimD:
  assumes "nsim N s n rf"
  shows "rf_me rf = n" "psim N s n (persistent rf)" "commit_ok N s n rf" "lead_ok N s n rf"
    "cand_ok s n rf"
  using assms by (simp_all add: nsim_def)

lemma psimD:
  assumes "psim N s n st"
  shows "sp_term s n = ps_Term st" "repr st (sp_log s n)"
    "vote_ok (sp_vote s n (ps_Term st)) (ps_Vote st)"
    "committed N s (ps_Term st) (take (nat (ps_SnapshotIndex st)) (sp_log s n))"
    "0 < ps_SnapshotIndex st \<longrightarrow> ps_Snapshot st \<noteq> None"
  using assms by (simp_all add: psim_def)

lemma commit_okD:
  assumes "commit_ok N s n rf"
  shows "rf_snapshotIndex rf \<le> rf_commitIndex rf" "rf_commitIndex rf \<le> int (length (sp_log s n))"
    "rf_appliedIndex rf \<le> rf_commitIndex rf"
    "committed N s (rf_term rf) (take (nat (rf_commitIndex rf)) (sp_log s n))"
  using assms by (simp_all add: commit_ok_def)

lemma nsim_term: "nsim N s n rf \<Longrightarrow> sp_term s n = rf_term rf"
  by (simp add: psimD(1) [OF nsimD(2)])

lemma nsim_repr: "nsim N s n rf \<Longrightarrow> repr (persistent rf) (sp_log s n)"
  by (rule psimD(2) [OF nsimD(2)])

section \<open>Reading the log\<close>

lemma termAt_0 [simp]: "termAt L 0 = 0"
  by (simp add: termAt_def)

lemma termAt_length: "termAt L (length L) = lastTerm L"
  by (simp add: termAt_def lastTerm_def last_conv_nth)

lemma termAt_take: "i \<le> k \<Longrightarrow> termAt (take k L) i = termAt L i"
  by (auto simp: termAt_def)

lemma termAt_prefix: "prefix P L \<Longrightarrow> i \<le> length P \<Longrightarrow> termAt L i = termAt P i"
  by (auto simp: termAt_def prefix_nthD)

lemma repr_snap:
  assumes "repr (persistent rf) L"
  shows "0 \<le> rf_snapshotIndex rf" "rf_snapshotIndex rf \<le> int (length L)"
  using assms by (auto simp: repr_def)

lemma repr_logs:
  assumes "repr (persistent rf) L"
  shows "rf_logs rf = sentinel (termAt L (nat (rf_snapshotIndex rf))) #
      drop (nat (rf_snapshotIndex rf)) L"
  using assms by (simp add: repr_def)

lemma repr_last:
  assumes "repr (persistent rf) L"
  shows "lastLogIndex rf = int (length L)"
  using repr_snap [OF assms] by (simp add: lastLogIndex_def repr_logs [OF assms])

lemma repr_logAt:
  assumes "repr (persistent rf) L" "rf_snapshotIndex rf \<le> i" "i \<le> int (length L)"
  obtains e where "logAt rf i = Some e" "le_Term e = termAt L (nat i)"
    "rf_snapshotIndex rf < i \<Longrightarrow> e = L ! (nat i - 1)"
proof -
  let ?k = "nat (rf_snapshotIndex rf)" and ?e = "rf_logs rf ! nat (relIdx rf i)"
  have k: "0 \<le> rf_snapshotIndex rf" by (rule repr_snap(1) [OF assms(1)])
  have "logAt rf i = Some ?e"
    using assms k by (simp add: logAt_def relIdx_def repr_logs [OF assms(1)])
  moreover have "?e = L ! (nat i - 1)" if "rf_snapshotIndex rf < i"
  proof -
    have "nat (relIdx rf i) = Suc (nat i - 1 - ?k)" using that k by (simp add: relIdx_def)
    then show ?thesis using that k assms(3) by (simp add: repr_logs [OF assms(1)])
  qed
  moreover have "le_Term ?e = termAt L (nat i)"
  proof (cases "rf_snapshotIndex rf < i")
    case True
    then show ?thesis using calculation(2) k by (simp add: termAt_def)
  next
    case False
    then have "i = rf_snapshotIndex rf" using assms(2) by simp
    then show ?thesis by (simp add: relIdx_def repr_logs [OF assms(1)])
  qed
  ultimately show ?thesis using that by blast
qed

lemma repr_lastTerm:
  assumes "repr (persistent rf) L"
  shows "lastLogTerm rf = Some (lastTerm L)"
proof -
  have k: "0 \<le> rf_snapshotIndex rf" "rf_snapshotIndex rf \<le> int (length L)"
    by (rule repr_snap [OF assms])+
  have e: "lastLogTerm rf = map_option le_Term (logAt rf (int (length L)))"
    using repr_last [OF assms, symmetric]
    by (simp add: lastLogTerm_def logAt_def relIdx_def lastLogIndex_def)
  show ?thesis
    by (rule repr_logAt [OF assms k(2) order_refl]) (simp add: e termAt_length)
qed

section \<open>Steps of other nodes\<close>

lemma psim_frame:
  assumes "spec_inv N s" "frame n s s'" "m \<noteq> n" "psim N s m st"
  shows "psim N s' m st"
  using assms(4) committed_extends [OF assms(1) frame_extends [OF assms(2)]]
  by (simp add: psim_def frameD [OF assms(2,3)])

lemma lead_ok_frame:
  assumes "frame n s s'" "m \<noteq> n" "lead_ok N s m rf"
  shows "lead_ok N s' m rf"
  unfolding lead_ok_def
proof (intro impI)
  let ?T = "rf_term rf"
  assume "rf_customerId rf = Leader"
  then obtain L Q where l: "sp_lead s ?T = Some (m, L, Q)" and *: "sp_log s m = sp_tlog s ?T"
    "sp_ack s m ?T = length (sp_tlog s ?T)"
    "\<And>p. p \<noteq> m \<Longrightarrow> p \<in> N \<Longrightarrow> 0 \<le> rf_matchIndex rf p \<and> 1 \<le> rf_nextIndex rf p \<and>
      rf_matchIndex rf p \<le> int (sp_ack s p ?T)"
    using assms(3) by (auto simp: lead_ok_def)
  have ex: "extends s s'" by (rule frame_extends [OF assms(1)])
  have l': "sp_lead s' ?T = Some (m, L, Q)" by (rule extends_lead [OF ex l])
  have t: "sp_tlog s' ?T = sp_tlog s ?T" by (rule frame_leadD(2) [OF assms(1,2) l'])
  have "0 \<le> rf_matchIndex rf p \<and> 1 \<le> rf_nextIndex rf p \<and> rf_matchIndex rf p \<le> int (sp_ack s' p ?T)"
    if "p \<noteq> m" "p \<in> N" for p
  proof -
    have "sp_ack s p ?T \<le> sp_ack s' p ?T" using ex by (simp add: extends_def)
    then show ?thesis using *(3) [OF that] by simp
  qed
  then show "(\<exists>L Q. sp_lead s' ?T = Some (m, L, Q)) \<and> sp_log s' m = sp_tlog s' ?T \<and>
      sp_ack s' m ?T = length (sp_tlog s' ?T) \<and>
      (\<forall>p. p \<noteq> m \<longrightarrow> p \<in> N \<longrightarrow> 0 \<le> rf_matchIndex rf p \<and> 1 \<le> rf_nextIndex rf p \<and>
         rf_matchIndex rf p \<le> int (sp_ack s' p ?T))"
    using l' t * frameD [OF assms(1,2)] by simp
qed

lemma cand_ok_frame:
  assumes "frame n s s'" "m \<noteq> n" "cand_ok s m rf"
  shows "cand_ok s' m rf"
  using assms(3) frame_leadD(1) [OF assms(1,2)] frameD [OF assms(1,2)]
  unfolding cand_ok_def by metis

lemma nsim_frame:
  assumes "spec_inv N s" "frame n s s'" "m \<noteq> n" "nsim N s m rf"
  shows "nsim N s' m rf"
proof -
  have "commit_ok N s' m rf"
    using nsimD(3) [OF assms(4)] committed_extends [OF assms(1) frame_extends [OF assms(2)]]
    by (simp add: commit_ok_def frameD [OF assms(2,3)])
  then show ?thesis
    using nsimD [OF assms(4)] psim_frame [OF assms(1-3)] lead_ok_frame [OF assms(2,3)]
      cand_ok_frame [OF assms(2,3)] by (simp add: nsim_def)
qed

section \<open>Terms\<close>

lemma lead_ok_not [simp]: "rf_customerId rf \<noteq> Leader \<Longrightarrow> lead_ok N s n rf"
  by (simp add: lead_ok_def)

lemma cand_ok_not [simp]: "rf_customerId rf \<noteq> Candidate \<Longrightarrow> cand_ok s n rf"
  by (simp add: cand_ok_def)

lemma repr_meta [simp]:
  "repr (st\<lparr>ps_Term := t, ps_Vote := v\<rparr>) L \<longleftrightarrow> repr st L"
  by (simp add: repr_def)

lemma bump_psim:
  assumes inv: "spec_inv N s" and p: "psim N s n st" and t: "ps_Term st < t"
    and s': "s' = s\<lparr>sp_term := (sp_term s)(n := t)\<rparr>"
  shows "psim N s' n (st\<lparr>ps_Term := t, ps_Vote := ''''\<rparr>)"
proof -
  have "moves N n s s'" unfolding s' by (rule bump_moves) (use inv p t in \<open>simp_all add: psimD(1)\<close>)
  then have "extends s s'" by (rule moves_extends)
  then have c: "committed N s' t (take (nat (ps_SnapshotIndex st)) (sp_log s n))"
    using committed_extends [OF inv _ psimD(4) [OF p]] committed_later t by (meson less_imp_le)
  have "sp_vote s n t = None" using inv_fresh(1) [OF inv] psimD(1) [OF p] t by simp
  then show ?thesis using p c by (simp add: psim_def s' vote_ok_def)
qed

text \<open>A node that only raises its term and steps down.\<close>

lemma stepDown_nsim:
  assumes inv: "spec_inv N s" and n: "nsim N s n rf" and t: "rf_term rf < t"
  shows "\<exists>s'. moves N n s s' \<and> nsim N s' n (fst (stepDown t rf))"
proof -
  let ?s = "s\<lparr>sp_term := (sp_term s)(n := t)\<rparr>" and ?rf = "fst (stepDown t rf)"
  have mv: "moves N n s ?s" by (rule bump_moves [OF inv]) (simp add: nsim_term [OF n] t)
  have "psim N ?s n (persistent rf\<lparr>ps_Term := t, ps_Vote := ''''\<rparr>)"
    by (rule bump_psim [OF inv nsimD(2) [OF n]]) (use t in simp_all)
  then have p: "psim N ?s n (persistent ?rf)"
    by (simp add: stepDown_def persistent_def)
  note c = commit_okD [OF nsimD(3) [OF n]]
  have "committed N ?s t (take (nat (rf_commitIndex rf)) (sp_log s n))"
    using committed_later [OF committed_extends [OF inv moves_extends [OF mv] c(4)]] t by simp
  then have "commit_ok N ?s n ?rf" using c by (simp add: commit_ok_def stepDown_def)
  then have "nsim N ?s n ?rf" using p nsimD(1) [OF n] by (simp add: nsim_def stepDown_def)
  then show ?thesis using mv by blast
qed

lemma observeTerm_nsim:
  assumes "spec_inv N s" "nsim N s n rf" "observeTerm t rf = (rf', ops)"
  shows "\<exists>s'. moves N n s s' \<and> nsim N s' n rf'"
  using assms stepDown_nsim [OF assms(1,2), of t]
  by (auto simp: observeTerm_def intro: moves_refl split: if_splits)

section \<open>Elections\<close>

lemma logs_same_last:
  assumes "rf_logs rf' = rf_logs rf" "rf_snapshotIndex rf' = rf_snapshotIndex rf"
  shows "lastLogIndex rf' = lastLogIndex rf" "lastLogTerm rf' = lastLogTerm rf"
    "logAt rf' = logAt rf"
  using assms by (simp_all add: lastLogIndex_def lastLogTerm_def logAt_def relIdx_def fun_eq_iff)

lemma beginElection_eq:
  assumes "nsim N s n rf"
  shows "beginElectionLocked rf = Some
     (resetElectionTimerLocked (rf\<lparr>rf_term := rf_term rf + 1, rf_customerId := Candidate,
        rf_leaderId := '''', rf_voteFor := n, rf_voteCount := 1\<rparr>),
      \<lparr>er_term = rf_term rf + 1, er_lastLogIndex = int (length (sp_log s n)),
        er_lastLogTerm = lastTerm (sp_log s n)\<rparr>, [SaveMeta (rf_term rf + 1) n])"
  using repr_lastTerm [OF nsim_repr [OF assms]] repr_last [OF nsim_repr [OF assms]]
    nsimD(1) [OF assms] logs_same_last [of "resetElectionTimerLocked (rf\<lparr>rf_term := rf_term rf + 1,
      rf_customerId := Candidate, rf_leaderId := '''', rf_voteFor := n, rf_voteCount := 1\<rparr>)" rf]
  by (simp add: beginElectionLocked_def Let_def)

lemma stand_nsim:
  assumes inv: "spec_inv N s" and nN: "n \<in> N" "n \<noteq> ''''" and n: "nsim N s n rf"
    and rf': "beginElectionLocked rf = Some (rf', r, ops)"
  shows "\<exists>s'. moves N n s s' \<and> nsim N s' n rf' \<and>
    sp_cand s' n (rf_term rf') = Some (sp_log s n) \<and> (\<exists>V. sp_vote s' n (rf_term rf') = Some (n, V))"
proof -
  let ?t = "rf_term rf + 1"
  let ?s = "s\<lparr>sp_term := (sp_term s)(n := ?t), sp_cand := upd2 (sp_cand s) n ?t (Some (sp_log s n)),
       sp_vote := upd2 (sp_vote s) n ?t (Some (n, sp_log s n))\<rparr>"
  have f: "rf_term rf' = ?t" "rf_voteFor rf' = n" "rf_logs rf' = rf_logs rf" "rf_me rf' = n"
    "rf_snapshotIndex rf' = rf_snapshotIndex rf" "rf_snapshot rf' = rf_snapshot rf"
    "rf_commitIndex rf' = rf_commitIndex rf" "rf_appliedIndex rf' = rf_appliedIndex rf"
    "rf_customerId rf' = Candidate"
    using rf' beginElection_eq [OF n] nsimD(1) [OF n] by auto
  have mv: "moves N n s ?s"
    by (rule stand_moves [OF inv nN(1)]) (simp add: nsim_term [OF n])
  note ex = moves_extends [OF mv]
  have cm: "committed N ?s ?t P" if "committed N s (rf_term rf) P" for P
    using committed_later [OF committed_extends [OF inv ex that]] by simp
  have "psim N ?s n (persistent rf')"
    using nsimD(2) [OF n] nN(2) cm
    by (auto simp: psim_def repr_def f upd2_apply vote_ok_def)
  moreover have "commit_ok N ?s n rf'"
    using commit_okD [OF nsimD(3) [OF n]] cm by (simp add: commit_ok_def f)
  moreover have "sp_cand s n ?t = None"
    using inv_fresh(2) [OF inv, of n ?t] nsim_term [OF n] by simp
  then have "cand_ok ?s n rf'"
    using inv_leadD(1) [OF inv] by (auto simp: cand_ok_def f upd2_apply)
  ultimately have "nsim N ?s n rf'" by (simp add: nsim_def f)
  moreover have "sp_cand ?s n (rf_term rf') = Some (sp_log s n)"
    "sp_vote ?s n (rf_term rf') = Some (n, sp_log s n)" by (simp_all add: f upd2_apply)
  ultimately show ?thesis using mv by blast
qed

text \<open>What a request for a vote in the network means.\<close>

definition vote_args_ok :: "'c spec \<Rightarrow> NodeID \<Rightarrow> RequestVoteArgs \<Rightarrow> bool" where
  "vote_args_ok s c args \<longleftrightarrow> rv_CandidateId args = c \<and>
     (\<exists>L. sp_cand s c (rv_Term args) = Some L \<and> rv_LastLogIndex args = int (length L) \<and>
        rv_LastLogTerm args = lastTerm L)"

lemma vote_args_ok_extends: "extends s s' \<Longrightarrow> vote_args_ok s c args \<Longrightarrow> vote_args_ok s' c args"
  unfolding vote_args_ok_def extends_def by blast

text \<open>The vote itself, once the terms agree.\<close>

lemma grant_nsim:
  assumes inv: "spec_inv N s" and n: "nsim N s n rf" and a: "vote_args_ok s c args" and c: "c \<noteq> ''''"
    and t: "rf_term rf = rv_Term args" and v: "rf_voteFor rf = '''' \<or> rf_voteFor rf = c"
    and ok: "lastTerm (sp_log s n) < rv_LastLogTerm args \<or> rv_LastLogTerm args = lastTerm (sp_log s n) \<and>
      int (length (sp_log s n)) \<le> rv_LastLogIndex args"
  shows "\<exists>s'. moves N n s s' \<and> nsim N s' n (resetElectionTimerLocked (rf\<lparr>rf_voteFor := c\<rparr>)) \<and>
    (\<exists>V. sp_vote s' n (rv_Term args) = Some (c, V))"
proof (cases "rf_voteFor rf = c")
  case True
  then have "\<exists>V. sp_vote s n (rv_Term args) = Some (c, V)"
    using psimD(3) [OF nsimD(2) [OF n]] c t by (simp add: vote_ok_def)
  moreover have "nsim N s n (resetElectionTimerLocked (rf\<lparr>rf_voteFor := c\<rparr>))"
    using n True by (simp add: nsim_def psim_def commit_ok_def lead_ok_def cand_ok_def repr_def)
  ultimately show ?thesis using moves_refl by blast
next
  case False
  let ?T = "rv_Term args" and ?rf = "resetElectionTimerLocked (rf\<lparr>rf_voteFor := c\<rparr>)"
  let ?s = "s\<lparr>sp_vote := upd2 (sp_vote s) n ?T (Some (c, sp_log s n))\<rparr>"
  obtain L where L: "sp_cand s c ?T = Some L" "rv_LastLogIndex args = int (length L)"
    "rv_LastLogTerm args = lastTerm L" using a by (auto simp: vote_args_ok_def)
  have "sp_vote s n ?T = None" using psimD(3) [OF nsimD(2) [OF n]] v False t by (simp add: vote_ok_def)
  then have mv: "moves N n s ?s"
    by (intro vote_moves [OF inv _ _ L(1)]) (use ok L t in \<open>auto simp: nsim_term [OF n] uptodate_def\<close>)
  note cm = committed_extends [OF inv moves_extends [OF mv]]
  have "psim N ?s n (persistent ?rf)"
    using nsimD(2) [OF n] cm c t by (simp add: psim_def repr_def upd2_apply vote_ok_def)
  moreover have "commit_ok N ?s n ?rf" "lead_ok N ?s n ?rf" "cand_ok ?s n ?rf"
    using nsimD(3-5) [OF n] cm by (simp_all add: commit_ok_def lead_ok_def cand_ok_def)
  ultimately have "nsim N ?s n ?rf" using nsimD(1) [OF n] by (simp add: nsim_def)
  then show ?thesis using mv by (auto simp: upd2_apply)
qed

lemma observeTerm_term:
  "observeTerm t rf = (rf', ops) \<Longrightarrow> \<not> t < rf_term rf \<Longrightarrow> rf_term rf' = t"
  by (auto simp: observeTerm_def stepDown_def split: if_splits)

lemma RequestVote_nsim:
  assumes inv: "spec_inv N s" and n: "nsim N s n rf" and a: "vote_args_ok s c args" and c: "c \<noteq> ''''"
  shows "\<exists>rf' reply ops s'. RequestVote args rf = Some (rf', reply, ops) \<and> moves N n s s' \<and>
    nsim N s' n rf' \<and>
    (rvr_VoteGranted reply \<longrightarrow> (\<exists>V. sp_vote s' n (rv_Term args) = Some (c, V)))"
proof (cases "rv_Term args < rf_term rf")
  case True
  then have "RequestVote args rf = Some (rf, \<lparr>rvr_Term = rf_term rf, rvr_VoteGranted = False\<rparr>, [])"
    by (simp add: RequestVote_def)
  then show ?thesis using n moves_refl by fastforce
next
  case False
  obtain rf1 ops1 where o: "observeTerm (rv_Term args) rf = (rf1, ops1)" by fastforce
  obtain s1 where s1: "moves N n s s1" "nsim N s1 n rf1" using observeTerm_nsim [OF inv n o] by blast
  have inv1: "spec_inv N s1" by (rule moves_inv [OF s1(1) inv])
  have a1: "vote_args_ok s1 c args" by (rule vote_args_ok_extends [OF moves_extends [OF s1(1)] a])
  have t1: "rf_term rf1 = rv_Term args" by (rule observeTerm_term [OF o False])
  have cid: "rv_CandidateId args = c" using a by (simp add: vote_args_ok_def)
  note r = repr_last [OF nsim_repr [OF s1(2)]] repr_lastTerm [OF nsim_repr [OF s1(2)]]
  let ?ok = "(rf_voteFor rf1 = '''' \<or> rf_voteFor rf1 = c) \<and>
    (lastTerm (sp_log s1 n) < rv_LastLogTerm args \<or> rv_LastLogTerm args = lastTerm (sp_log s1 n) \<and>
      int (length (sp_log s1 n)) \<le> rv_LastLogIndex args)"
  show ?thesis
  proof (cases ?ok)
    case True
    obtain s2 where s2: "moves N n s1 s2"
      "nsim N s2 n (resetElectionTimerLocked (rf1\<lparr>rf_voteFor := c\<rparr>))"
      "\<exists>V. sp_vote s2 n (rv_Term args) = Some (c, V)"
      using grant_nsim [OF inv1 s1(2) a1 c t1] True by blast
    then show ?thesis using True False moves_trans [OF s2(1) s1(1)] o r cid
      by (auto simp: RequestVote_def)
  next
    case nok: False
    then have "RequestVote args rf =
        Some (rf1, \<lparr>rvr_Term = rf_term rf1, rvr_VoteGranted = False\<rparr>, ops1)"
      using False o r cid by (auto simp: RequestVote_def)
    then show ?thesis using s1 by fastforce
  qed
qed

lemma nsim_cong:
  assumes "nsim N s n rf" "persistent rf' = persistent rf" "rf_me rf' = rf_me rf"
    "rf_commitIndex rf' = rf_commitIndex rf" "rf_appliedIndex rf' = rf_appliedIndex rf"
    "rf_customerId rf' = rf_customerId rf" "rf_matchIndex rf' = rf_matchIndex rf"
    "rf_nextIndex rf' = rf_nextIndex rf"
  shows "nsim N s n rf'"
  using assms
  by (simp add: nsim_def commit_ok_def lead_ok_def cand_ok_def persistent_def)

lemma win_nsim:
  assumes inv: "spec_inv N s" and N: "finite N" and n: "nsim N s n rf" and r: "rf_customerId rf = Candidate"
    and Q: "majority N Q" "\<And>q. q \<in> Q \<Longrightarrow> \<exists>V. sp_vote s q (rf_term rf) = Some (n, V)"
    and ids: "set (rf_nodeIDs rf) = N"
  shows "\<exists>s'. moves N n s s' \<and> nsim N s' n (becomeLeader rf)"
proof -
  let ?T = "rf_term rf" and ?rf = "becomeLeader rf"
  let ?s = "s\<lparr>sp_lead := (sp_lead s)(?T := Some (n, sp_log s n, Q)),
       sp_tlog := (sp_tlog s)(?T := sp_log s n),
       sp_ack := upd2 (sp_ack s) n ?T (length (sp_log s n))\<rparr>"
  have ca: "sp_cand s n ?T = Some (sp_log s n)" "\<And>m L P. sp_lead s ?T = Some (m, L, P) \<Longrightarrow> m \<noteq> n"
    using nsimD(5) [OF n] r by (auto simp: cand_ok_def)
  have "sp_lead s ?T = None"
  proof (cases "sp_lead s ?T")
    case (Some x)
    then obtain m L P where l: "sp_lead s ?T = Some (m, L, P)" by (cases x) auto
    then show ?thesis using win_no_leader [OF inv N Q(1,2) l] ca(2) by blast
  qed
  then have mv: "moves N n s ?s" by (intro win_moves [OF inv _ ca(1) _ Q]) (simp_all add: nsim_term [OF n])
  note cm = committed_extends [OF inv moves_extends [OF mv]]
  have "psim N ?s n (persistent ?rf)" "commit_ok N ?s n ?rf"
    using nsimD(2,3) [OF n] cm by (simp_all add: psim_def repr_def becomeLeader_def commit_ok_def)
  moreover have "0 \<le> lastLogIndex rf" using repr_last [OF nsim_repr [OF n]] by simp
  then have "lead_ok N ?s n ?rf" by (simp add: lead_ok_def becomeLeader_def upd2_apply ids)
  ultimately have "nsim N ?s n ?rf" using nsimD(1) [OF n] by (simp add: nsim_def becomeLeader_def)
  then show ?thesis using mv by blast
qed

lemma sendRequestVote_nsim:
  assumes inv: "spec_inv N s" and N: "finite N" and n: "nsim N s n rf"
    and ids: "set (rf_nodeIDs rf) = N" "distinct (rf_nodeIDs rf)"
    and C: "rf_customerId rf = Candidate \<Longrightarrow> rvr_VoteGranted reply \<Longrightarrow> rf_term rf = rv_Term args \<Longrightarrow>
      C \<subseteq> N \<and> int (card C) = rf_voteCount rf + 1 \<and>
      (\<forall>q \<in> C. \<exists>V. sp_vote s q (rf_term rf) = Some (n, V))"
  shows "\<exists>s'. moves N n s s' \<and> nsim N s' n (fst (sendRequestVote args reply rf))"
proof -
  let ?c = "rvr_VoteGranted reply \<and> rf_customerId rf = Candidate \<and> rf_term rf = rv_Term args"
  let ?rf = "rf\<lparr>rf_voteCount := rf_voteCount rf + 1\<rparr>"
  have n': "nsim N s n ?rf" by (rule nsim_cong [OF n]) (simp_all add: persistent_def)
  show ?thesis
  proof (cases "rf_term rf < rvr_Term reply")
    case True
    then show ?thesis using stepDown_nsim [OF inv n True] by (simp add: sendRequestVote_def)
  next
    case t: False
    show ?thesis
    proof (cases ?c)
      case False
      then have "sendRequestVote args reply rf = (rf, [])" using t by (auto simp: sendRequestVote_def)
      then show ?thesis using n moves_refl by auto
    next
      case True
      then have C': "C \<subseteq> N" "int (card C) = rf_voteCount rf + 1"
        "\<And>q. q \<in> C \<Longrightarrow> \<exists>V. sp_vote s q (rf_term ?rf) = Some (n, V)" using C by simp_all
      have h: "fst (sendRequestVote args reply rf) =
          (if rf_voteCount rf + 1 > int (length (rf_nodeIDs rf) div 2) then becomeLeader ?rf else ?rf)"
        using t True by (simp add: sendRequestVote_def Let_def)
      have "card N = length (rf_nodeIDs rf)" using ids distinct_card by fastforce
      then have "majority N C" if "int (length (rf_nodeIDs rf) div 2) < rf_voteCount rf + 1"
        using C'(1,2) that by (auto simp: majority_def)
      moreover have "\<exists>s'. moves N n s s' \<and> nsim N s' n (becomeLeader ?rf)" if "majority N C"
        by (rule win_nsim [OF inv N n' _ that C'(3)]) (use True ids in simp_all)
      moreover have "\<exists>s'. moves N n s s' \<and> nsim N s' n ?rf" using n' moves_refl by blast
      ultimately show ?thesis unfolding h by simp
    qed
  qed
qed

section \<open>Client commands and snapshots\<close>

lemma append_nsim:
  assumes inv: "spec_inv N s" and n: "nsim N s n rf" and r: "rf_customerId rf = Leader"
    and e: "le_Term e = rf_term rf"
  shows "\<exists>s'. moves N n s s' \<and> nsim N s' n (rf\<lparr>rf_logs := rf_logs rf @ [e], rf_newEntryCh := b\<rparr>)"
proof -
  let ?T = "rf_term rf" and ?rf = "rf\<lparr>rf_logs := rf_logs rf @ [e], rf_newEntryCh := b\<rparr>"
  let ?s = "s\<lparr>sp_log := (sp_log s)(n := sp_log s n @ [e]),
       sp_tlog := (sp_tlog s)(?T := sp_tlog s ?T @ [e]),
       sp_ack := upd2 (sp_ack s) n ?T (Suc (length (sp_tlog s ?T)))\<rparr>"
  have l: "\<exists>L Q. sp_lead s ?T = Some (n, L, Q)" "sp_log s n = sp_tlog s ?T"
    "\<And>p. p \<noteq> n \<Longrightarrow> p \<in> N \<Longrightarrow> 0 \<le> rf_matchIndex rf p \<and> 1 \<le> rf_nextIndex rf p \<and>
      rf_matchIndex rf p \<le> int (sp_ack s p ?T)"
    using nsimD(4) [OF n] r by (simp_all add: lead_ok_def)
  have mv: "moves N n s ?s" using l append_moves [OF inv nsim_term [OF n] _ _ e] by blast
  note cm = committed_extends [OF inv moves_extends [OF mv]]
  note k = repr_snap [OF nsim_repr [OF n]] repr_logs [OF nsim_repr [OF n]]
  have tk: "take i (sp_log s n @ [e]) = take i (sp_log s n)" if "i \<le> length (sp_log s n)" for i
    using that by simp
  have "psim N ?s n (persistent ?rf)"
    using nsimD(2) [OF n] cm k
    by (auto simp: psim_def repr_def termAt_def nth_append nat_le_iff tk)
  moreover have "commit_ok N ?s n ?rf"
    using nsimD(3) [OF n] cm by (auto simp: commit_ok_def tk nat_le_iff)
  moreover have "lead_ok N ?s n ?rf"
    using l by (auto simp: lead_ok_def upd2_apply)
  ultimately have "nsim N ?s n ?rf" using nsimD(1) [OF n] r by (simp add: nsim_def)
  then show ?thesis using mv by blast
qed

lemma Start_nsim:
  assumes inv: "spec_inv N s" and n: "nsim N s n rf" and h: "Start c rf = (rf', res, ops)"
  shows "\<exists>s'. moves N n s s' \<and> nsim N s' n rf'"
proof (cases "rf_customerId rf = Leader")
  case True
  then show ?thesis
    using append_nsim [OF inv n True, of "\<lparr>le_Command = c, le_Term = rf_term rf\<rparr>" True] h
    by (auto simp: Start_def Let_def)
next
  case False
  then show ?thesis using h n moves_refl by (auto simp: Start_def)
qed

lemma Snapshot_nsim:
  assumes n: "nsim N s n rf" and i: "i \<le> rf_appliedIndex rf" and sn: "sn \<noteq> None"
  shows "\<exists>rf' ops. Snapshot i sn rf = Some (rf', ops) \<and> nsim N s n rf'"
proof (cases "i \<le> rf_snapshotIndex rf")
  case False
  note c = commit_okD [OF nsimD(3) [OF n]] and k = repr_snap [OF nsim_repr [OF n]]
    and lg = repr_logs [OF nsim_repr [OF n]]
  have i': "rf_snapshotIndex rf \<le> i" "i \<le> int (length (sp_log s n))" "0 \<le> i" "0 < i"
    using False c i k by simp_all
  obtain e where e: "logAt rf i = Some e" "le_Term e = termAt (sp_log s n) (nat i)"
    using repr_logAt [OF nsim_repr [OF n] i'(1,2)] by blast
  let ?rf = "rf\<lparr>rf_logs := sentinel (le_Term e) # drop (nat (relIdx rf i + 1)) (rf_logs rf),
    rf_snapshotIndex := i, rf_snapshot := sn\<rparr>"
  have "nat (relIdx rf i + 1) = Suc (nat i - nat (rf_snapshotIndex rf))"
    using i' k by (simp add: relIdx_def)
  then have d: "drop (nat (relIdx rf i + 1)) (rf_logs rf) = drop (nat i) (sp_log s n)"
    using i' k by (simp add: lg)
  have "Snapshot i sn rf = Some (?rf, [SaveSnapshot i (le_Term e) sn (drop (nat (relIdx rf i + 1)) (rf_logs rf))])"
    using False e i' k by (simp add: Snapshot_def Let_def repr_last [OF nsim_repr [OF n]] relIdx_def lg)
  moreover have "committed N s (rf_term rf) (take (nat i) (sp_log s n))"
    by (rule committed_prefix [OF c(4) prefix_take_le]) (use i c in simp)
  then have "nsim N s n ?rf"
    using n c i i' sn d e
    by (simp add: nsim_def psim_def repr_def commit_ok_def lead_ok_def cand_ok_def nat_le_iff)
  ultimately show ?thesis by blast
qed (use n in \<open>simp add: Snapshot_def\<close>)

section \<open>Accepting entries\<close>

text \<open>What a message from a leader means: a part of its log, or a committed prefix of it.\<close>

definition append_args_ok :: "NodeID set \<Rightarrow> 'c spec \<Rightarrow> 'c AppendEntries \<Rightarrow> bool" where
  "append_args_ok N s args \<longleftrightarrow> sp_lead s (ae_Term args) \<noteq> None \<and>
     (if ae_Snapshot args \<noteq> None
      then 0 < ae_SnapshotIndex args \<and> nat (ae_SnapshotIndex args) \<le> length (sp_tlog s (ae_Term args)) \<and>
        ae_SnapshotTerm args = termAt (sp_tlog s (ae_Term args)) (nat (ae_SnapshotIndex args)) \<and>
        committed N s (ae_Term args) (take (nat (ae_SnapshotIndex args)) (sp_tlog s (ae_Term args)))
      else 0 \<le> ae_PrevLogIndex args \<and>
        nat (ae_PrevLogIndex args) + length (ae_Entries args) \<le> length (sp_tlog s (ae_Term args)) \<and>
        ae_PrevLogTerm args = termAt (sp_tlog s (ae_Term args)) (nat (ae_PrevLogIndex args)) \<and>
        ae_Entries args = take (length (ae_Entries args))
          (drop (nat (ae_PrevLogIndex args)) (sp_tlog s (ae_Term args))) \<and>
        ae_LeaderCommit args \<le> ae_PrevLogIndex args + int (length (ae_Entries args)) \<and>
        committed N s (ae_Term args) (take (nat (ae_LeaderCommit args)) (sp_tlog s (ae_Term args))))"

text \<open>How much of the leader's log a node that answers with success has.\<close>

definition acked :: "'c AppendEntries \<Rightarrow> nat" where
  "acked args = (if ae_Snapshot args \<noteq> None then nat (ae_SnapshotIndex args)
     else nat (ae_PrevLogIndex args) + length (ae_Entries args))"

lemma append_args_ok_extends:
  assumes inv: "spec_inv N s" and ex: "extends s s'" and a: "append_args_ok N s args"
  shows "append_args_ok N s' args"
proof -
  let ?T = "ae_Term args"
  have l: "sp_lead s' ?T \<noteq> None" using a extends_lead [OF ex] by (auto simp: append_args_ok_def)
  have p: "prefix (sp_tlog s ?T) (sp_tlog s' ?T)" by (rule extends_tlog [OF ex])
  note len = prefix_length_le [OF p] and cm = committed_extends [OF inv ex]
  have tk: "take i (sp_tlog s' ?T) = take i (sp_tlog s ?T)" if "i \<le> length (sp_tlog s ?T)" for i
    by (rule extends_take [OF ex that])
  have ta: "termAt (sp_tlog s' ?T) i = termAt (sp_tlog s ?T) i" if "i \<le> length (sp_tlog s ?T)" for i
    by (rule termAt_prefix [OF p that])
  have sl: "take j (drop i (sp_tlog s' ?T)) = take j (drop i (sp_tlog s ?T))"
    if "i + j \<le> length (sp_tlog s ?T)" for i j
    using tk [OF that] by (metis drop_take diff_add_inverse)
  show ?thesis
  proof (cases "ae_Snapshot args = None")
    case True
    have "nat (ae_LeaderCommit args) \<le> length (sp_tlog s ?T)"
      using a True by (auto simp: append_args_ok_def)
    then show ?thesis using a True l len tk [of "nat (ae_LeaderCommit args)"]
        ta [of "nat (ae_PrevLogIndex args)"] sl [of "nat (ae_PrevLogIndex args)"] cm
      by (auto simp: append_args_ok_def)
  next
    case False
    then show ?thesis using a l len tk [of "nat (ae_SnapshotIndex args)"]
        ta [of "nat (ae_SnapshotIndex args)"] cm
      by (auto simp: append_args_ok_def)
  qed
qed

lemma committed_kept:
  assumes "spec_inv N s" "finite N" "committed N s T P" "sp_lead s T \<noteq> None" "prefix P L"
  shows "prefix P (accepted_log (take m (sp_tlog s T)) L)"
  by (rule accepted_log_keeps [OF assms(5) committed_in_tlog [OF assms(1-4)]])

lemma accept_nsim:
  assumes inv: "spec_inv N s" and n: "nsim N s n rf"
    and l: "sp_lead s (rf_term rf) \<noteq> None" and m: "m \<le> length (sp_tlog s (rf_term rf))"
    and L': "L' = accepted_log (take m (sp_tlog s (rf_term rf))) (sp_log s n)"
    and f: "rf_term rf' = rf_term rf" "rf_voteFor rf' = rf_voteFor rf" "rf_me rf' = rf_me rf"
      "rf_customerId rf' = Follower"
    and r: "repr (persistent rf') L'"
    and k: "0 < rf_snapshotIndex rf' \<longrightarrow> rf_snapshot rf' \<noteq> None"
    and c: "rf_snapshotIndex rf' \<le> rf_commitIndex rf'" "rf_commitIndex rf' \<le> int (length L')"
      "rf_appliedIndex rf' \<le> rf_commitIndex rf'"
      "committed N s (rf_term rf) (take (nat (rf_commitIndex rf')) L')"
  shows "\<exists>s'. moves N n s s' \<and> nsim N s' n rf' \<and> m \<le> sp_ack s' n (rf_term rf)"
proof -
  let ?T = "rf_term rf"
  let ?s = "s\<lparr>sp_log := (sp_log s)(n := L'), sp_ack := upd2 (sp_ack s) n ?T (max (sp_ack s n ?T) m)\<rparr>"
  have mv: "moves N n s ?s" unfolding L' by (rule accept_moves [OF inv nsim_term [OF n] l m])
  have cm: "committed N ?s ?T (take (nat (rf_commitIndex rf')) L')"
    by (rule committed_extends [OF inv moves_extends [OF mv] c(4)])
  have "committed N ?s ?T (take (nat (rf_snapshotIndex rf')) L')"
    by (rule committed_prefix [OF cm prefix_take_le]) (use c(1) in simp)
  then have "psim N ?s n (persistent rf')"
    using nsimD(2) [OF n] r k f by (simp add: psim_def)
  moreover have "commit_ok N ?s n rf'" using c cm f by (simp add: commit_ok_def)
  ultimately have "nsim N ?s n rf'" using f nsimD(1) [OF n] by (simp add: nsim_def)
  moreover have "m \<le> sp_ack ?s n ?T" by (simp add: upd2_apply)
  ultimately show ?thesis using mv by blast
qed

subsection \<open>Snapshots\<close>

lemma take_eq_termAt:
  assumes "spec_inv N s" "grounded s L" "grounded s M" "i \<le> length L" "i \<le> length M"
    "termAt L i = termAt M i"
  shows "take i L = take i M"
proof (cases i)
  case (Suc j)
  then show ?thesis using grounded_match [OF assms(2,3), of j] assms by (simp add: termAt_def)
qed simp

text \<open>The snapshot index is stale: what it covers is in the log of the node already.\<close>

lemma stale_snapshot_prefix:
  assumes inv: "spec_inv N s" and N: "finite N" and n: "nsim N s n rf"
    and l: "sp_lead s (rf_term rf) \<noteq> None" and k: "k \<le> nat (rf_snapshotIndex rf)"
      "k \<le> length (sp_tlog s (rf_term rf))"
  shows "prefix (take k (sp_tlog s (rf_term rf))) (sp_log s n)"
proof -
  let ?P = "take (nat (rf_snapshotIndex rf)) (sp_log s n)"
  have "prefix ?P (sp_tlog s (rf_term rf))"
    using committed_in_tlog [OF inv N psimD(4) [OF nsimD(2) [OF n]]] l by simp
  moreover have "k \<le> length ?P" using k repr_snap [OF nsim_repr [OF n]] by (simp add: nat_le_iff)
  ultimately have "take k (sp_tlog s (rf_term rf)) = take k (sp_log s n)"
    using k prefix_take_eqD [of ?P _ k] by (simp add: min_absorb1)
  then show ?thesis by (simp add: take_is_prefix)
qed

lemma repr_snapshot:
  assumes "int k \<le> int (length L)"
    and "rf_snapshotIndex rf = int k" "rf_logs rf = sentinel (termAt L k) # drop k L"
  shows "repr (persistent rf) L"
  using assms by (simp add: repr_def)

lemma install_new_logs:
  assumes inv: "spec_inv N s" and n: "nsim N s n rf"
    and S: "rf_snapshotIndex rf < S" "nat S \<le> length (sp_tlog s T)"
      "St = termAt (sp_tlog s T) (nat S)"
    and L': "L' = accepted_log (take (nat S) (sp_tlog s T)) (sp_log s n)"
    and a: "ae_SnapshotIndex args = S" "ae_SnapshotTerm args = St"
  shows "\<exists>tl. installSnapshot args rf =
      Some (rf\<lparr>rf_snapshot := ae_Snapshot args, rf_logs := sentinel St # tl, rf_snapshotIndex := S,
          rf_commitIndex := max (rf_commitIndex rf) S\<rparr>,
        \<lparr>aer_Term = rf_term rf, aer_Success = True, aer_LastMatchIndex = S\<rparr>,
        [SaveSnapshot S St (ae_Snapshot args) tl]) \<and>
      sentinel St # tl = sentinel (termAt L' (nat S)) # drop (nat S) L' \<and> nat S \<le> length L'"
proof -
  let ?L = "sp_log s n" and ?M = "sp_tlog s T"
  note k = repr_snap [OF nsim_repr [OF n]] and lg = repr_logs [OF nsim_repr [OF n]]
  have S0: "0 < S" using S k by simp
  have g: "grounded s ?L" "grounded s ?M" by (rule inv_groundedD [OF inv])+
  have len: "relIdx rf S < int (length (rf_logs rf)) \<longleftrightarrow> nat S \<le> length ?L"
    using S0 k by (simp add: relIdx_def lg) linarith
  show ?thesis
  proof (cases "nat S \<le> length ?L \<and> termAt ?L (nat S) = St")
    case True
    then have "take (nat S) ?L = take (nat S) ?M"
      using take_eq_termAt [OF inv g] S by simp
    then have L: "L' = ?L" by (metis L' accepted_log_def take_is_prefix)
    have "nat (relIdx rf S + 1) = Suc (nat S - nat (rf_snapshotIndex rf))"
      using S k by (simp add: relIdx_def)
    then have d: "drop (nat (relIdx rf S + 1)) (rf_logs rf) = drop (nat S) ?L"
      using S k by (simp add: lg)
    obtain e where e: "logAt rf S = Some e" "le_Term e = termAt ?L (nat S)"
      by (rule repr_logAt [OF nsim_repr [OF n], of S]) (use S S0 True in auto)
    have "relIdx rf S < int (length (rf_logs rf))" "0 \<le> relIdx rf S + 1"
      using len True S by (simp_all add: relIdx_def)
    then show ?thesis using True S(1) e a d L by (simp add: installSnapshot_def Let_def)
  next
    case False
    have np: "\<not> prefix (take (nat S) ?M) ?L"
    proof
      assume p: "prefix (take (nat S) ?M) ?L"
      then have "nat S \<le> length ?L" using S prefix_length_le by fastforce
      moreover have "termAt ?L (nat S) = St"
        using termAt_prefix [OF p, of "nat S"] S by (simp add: termAt_take)
      ultimately show False using False by simp
    qed
    then have L: "L' = take (nat S) ?M" by (simp add: L' accepted_log_def)
    have "(if relIdx rf S < int (length (rf_logs rf))
        then do { e \<leftarrow> logAt rf S; Some (le_Term e = St) } else Some False) = Some False"
    proof (cases "nat S \<le> length ?L")
      case True
      obtain e where "logAt rf S = Some e" "le_Term e = termAt ?L (nat S)"
        by (rule repr_logAt [OF nsim_repr [OF n], of S]) (use S S0 True in auto)
      then show ?thesis using False True len by simp
    qed (simp add: len)
    then show ?thesis using S a L
      by (auto simp: installSnapshot_def Let_def termAt_take split: if_splits)
  qed
qed

text \<open>What was committed stays where it is when entries are accepted.\<close>

lemma commit_accepted:
  assumes inv: "spec_inv N s" and N: "finite N" and n: "nsim N s n rf"
    and l: "sp_lead s (rf_term rf) \<noteq> None"
    and L': "L' = accepted_log (take m (sp_tlog s (rf_term rf))) (sp_log s n)"
  shows "rf_commitIndex rf \<le> int (length L')"
    "take (nat (rf_commitIndex rf)) L' = take (nat (rf_commitIndex rf)) (sp_log s n)"
    "committed N s (rf_term rf) (take (nat (rf_commitIndex rf)) L')"
proof -
  let ?P = "take (nat (rf_commitIndex rf)) (sp_log s n)"
  note c = commit_okD [OF nsimD(3) [OF n]]
  have p: "prefix ?P L'"
    unfolding L' by (rule committed_kept [OF inv N c(4) l take_is_prefix])
  have len: "length ?P = nat (rf_commitIndex rf)" using c(2) by simp
  then show "rf_commitIndex rf \<le> int (length L')" using prefix_length_le [OF p] by simp
  show t: "take (nat (rf_commitIndex rf)) L' = ?P" using p len by (metis prefix_take_iff)
  show "committed N s (rf_term rf) (take (nat (rf_commitIndex rf)) L')" unfolding t by (rule c(4))
qed

lemma append_args_snapshotD:
  assumes "append_args_ok N s args" "ae_Snapshot args \<noteq> None"
  shows "sp_lead s (ae_Term args) \<noteq> None" "0 < ae_SnapshotIndex args"
    "nat (ae_SnapshotIndex args) \<le> length (sp_tlog s (ae_Term args))"
    "ae_SnapshotTerm args = termAt (sp_tlog s (ae_Term args)) (nat (ae_SnapshotIndex args))"
    "committed N s (ae_Term args) (take (nat (ae_SnapshotIndex args)) (sp_tlog s (ae_Term args)))"
    "acked args = nat (ae_SnapshotIndex args)"
  using assms by (simp_all add: append_args_ok_def acked_def)

lemma install_new_nsim:
  assumes inv: "spec_inv N s" and N: "finite N" and n: "nsim N s n rf"
    and a: "append_args_ok N s args" "ae_Snapshot args \<noteq> None" and t: "rf_term rf = ae_Term args"
    and f: "rf_customerId rf = Follower" and S: "rf_snapshotIndex rf < ae_SnapshotIndex args"
  shows "\<exists>rf' reply ops s'. installSnapshot args rf = Some (rf', reply, ops) \<and> moves N n s s' \<and>
    nsim N s' n rf' \<and> acked args \<le> sp_ack s' n (ae_Term args)"
proof -
  let ?S = "ae_SnapshotIndex args" and ?M = "sp_tlog s (rf_term rf)"
  let ?L = "accepted_log (take (nat ?S) ?M) (sp_log s n)"
  note a = append_args_snapshotD [OF a] a(2)
  obtain tl where h: "installSnapshot args rf =
      Some (rf\<lparr>rf_snapshot := ae_Snapshot args, rf_logs := sentinel (ae_SnapshotTerm args) # tl,
          rf_snapshotIndex := ?S, rf_commitIndex := max (rf_commitIndex rf) ?S\<rparr>,
        \<lparr>aer_Term = rf_term rf, aer_Success = True, aer_LastMatchIndex = ?S\<rparr>,
        [SaveSnapshot ?S (ae_SnapshotTerm args) (ae_Snapshot args) tl])"
    and tl: "sentinel (ae_SnapshotTerm args) # tl = sentinel (termAt ?L (nat ?S)) # drop (nat ?S) ?L"
      "nat ?S \<le> length ?L"
    using install_new_logs [OF inv n S _ _ refl refl refl, where T = "rf_term rf"] a(3,4) t by metis
  let ?rf = "rf\<lparr>rf_snapshot := ae_Snapshot args, rf_logs := sentinel (ae_SnapshotTerm args) # tl,
          rf_snapshotIndex := ?S, rf_commitIndex := max (rf_commitIndex rf) ?S\<rparr>"
  have l: "sp_lead s (rf_term rf) \<noteq> None" using a(1) t by simp
  note c = commit_accepted [OF inv N n l refl, of "nat ?S"]
  have "take (nat ?S) ?L = take (nat ?S) ?M"
    using prefix_take_eqD [OF accepted_log_prefix, of "nat ?S" "take (nat ?S) ?M"] a(3) t by simp
  then have cS: "committed N s (rf_term rf) (take (nat ?S) ?L)" using a(5) t by simp
  have "\<exists>s'. moves N n s s' \<and> nsim N s' n ?rf \<and> nat ?S \<le> sp_ack s' n (rf_term rf)"
  proof (rule accept_nsim [OF inv n l _ refl])
    show "repr (persistent ?rf) ?L" by (rule repr_snapshot [of "nat ?S"]) (use tl a(2) in simp_all)
    show "committed N s (rf_term rf) (take (nat (rf_commitIndex ?rf)) ?L)"
      using c(3) cS by (auto simp: max_def)
    show "rf_commitIndex ?rf \<le> int (length ?L)" using c(1) tl(2) a(2) by simp
    show "rf_appliedIndex ?rf \<le> rf_commitIndex ?rf"
      using commit_okD(3) [OF nsimD(3) [OF n]] by simp
  qed (use a t f in simp_all)
  then show ?thesis using h a(6) t by auto
qed

lemma installSnapshot_nsim:
  assumes inv: "spec_inv N s" and N: "finite N" and n: "nsim N s n rf"
    and a: "append_args_ok N s args" "ae_Snapshot args \<noteq> None" and t: "rf_term rf = ae_Term args"
    and f: "rf_customerId rf = Follower"
  shows "\<exists>rf' reply ops s'. installSnapshot args rf = Some (rf', reply, ops) \<and> moves N n s s' \<and>
    nsim N s' n rf' \<and> acked args \<le> sp_ack s' n (ae_Term args)"
proof (cases "ae_SnapshotIndex args \<le> rf_snapshotIndex rf")
  case True
  let ?S = "nat (ae_SnapshotIndex args)"
  note a = append_args_snapshotD [OF a]
  have l: "sp_lead s (rf_term rf) \<noteq> None" and S: "?S \<le> length (sp_tlog s (rf_term rf))"
    using a t by simp_all
  have "prefix (take ?S (sp_tlog s (rf_term rf))) (sp_log s n)"
    by (rule stale_snapshot_prefix [OF inv N n l _ S]) (use True in simp)
  then have L: "sp_log s n = accepted_log (take ?S (sp_tlog s (rf_term rf))) (sp_log s n)"
    by (simp add: accepted_log_def)
  have "\<exists>s'. moves N n s s' \<and> nsim N s' n rf \<and> ?S \<le> sp_ack s' n (rf_term rf)"
    by (rule accept_nsim [OF inv n l S L])
      (use f nsim_repr [OF n] psimD(5) [OF nsimD(2) [OF n]] commit_okD [OF nsimD(3) [OF n]] in simp_all)
  then show ?thesis using True a(6) t by (auto simp: installSnapshot_def)
qed (use install_new_nsim [OF assms] in simp)

subsection \<open>Entries\<close>

lemma matchingEntries_spec:
  assumes "repr (persistent rf) L" "rf_snapshotIndex rf < i" "i \<le> int (length L) + 1"
  shows "\<exists>k. matchingEntries rf i es = Some k \<and> k \<le> length es \<and> nat i - 1 + k \<le> length L \<and>
    (\<forall>j < k. le_Term (L ! (nat i - 1 + j)) = le_Term (es ! j)) \<and>
    (k < length es \<longrightarrow> nat i - 1 + k < length L \<longrightarrow> le_Term (L ! (nat i - 1 + k)) \<noteq> le_Term (es ! k))"
  using assms(2,3)
proof (induction es arbitrary: i)
  case Nil
  then show ?case by auto
next
  case (Cons x es)
  note last = repr_last [OF assms(1)] and k0 = repr_snap(1) [OF assms(1)]
  show ?case
  proof (cases "i > lastLogIndex rf")
    case True
    then show ?thesis using Cons.prems last by auto
  next
    case False
    then have i: "i \<le> int (length L)" using last by simp
    obtain e where e: "logAt rf i = Some e" "e = L ! (nat i - 1)"
      using repr_logAt [OF assms(1) _ i] Cons.prems(1) by (metis less_imp_le)
    show ?thesis
    proof (cases "le_Term e = le_Term x")
      case True
      have n: "nat (i + 1) - 1 = Suc (nat i - 1)" using Cons.prems(1) k0 by simp
      have "rf_snapshotIndex rf < i + 1" "i + 1 \<le> int (length L) + 1" using Cons.prems i by simp_all
      then obtain k where k: "matchingEntries rf (i + 1) es = Some k" "k \<le> length es"
        "Suc (nat i - 1) + k \<le> length L"
        "\<And>j. j < k \<Longrightarrow> le_Term (L ! (Suc (nat i - 1) + j)) = le_Term (es ! j)"
        "k < length es \<Longrightarrow> Suc (nat i - 1) + k < length L \<Longrightarrow>
          le_Term (L ! (Suc (nat i - 1) + k)) \<noteq> le_Term (es ! k)"
        using Cons.IH [of "i + 1"] unfolding n by blast
      have "le_Term (L ! (nat i - 1 + j)) = le_Term ((x # es) ! j)" if "j < Suc k" for j
        using that k(4) True e(2) by (cases j) simp_all
      then show ?thesis using k(1-3,5) True False e(1) by (intro exI [of _ "Suc k"]) simp
    next
      case False
      then show ?thesis using e \<open>\<not> i > lastLogIndex rf\<close> i Cons.prems k0
        by (intro exI [of _ 0]) auto
    qed
  qed
qed

lemma slice_extend:
  "k \<le> j \<Longrightarrow> j \<le> length M \<Longrightarrow> drop k (take j M) @ take q (drop j M) = drop k (take (j + q) M)"
  by (simp add: take_add drop_append)

text \<open>The part of the log the follower keeps, when it agrees with the leader up to \<open>j\<close>.\<close>

lemma logs_upto:
  assumes r: "repr (persistent rf) L" and j: "rf_snapshotIndex rf \<le> int j" "j \<le> length L"
    and M: "take j L = take j M"
  shows "take (nat (relIdx rf (int j + 1))) (rf_logs rf) =
    sentinel (termAt (take j M) (nat (rf_snapshotIndex rf))) # drop (nat (rf_snapshotIndex rf)) (take j M)"
    "0 \<le> relIdx rf (int j + 1)" "relIdx rf (int j + 1) \<le> int (length (rf_logs rf))"
proof -
  let ?k = "nat (rf_snapshotIndex rf)"
  note k = repr_snap [OF r] and lg = repr_logs [OF r]
  have kj: "?k \<le> j" using j k by simp
  have rel: "nat (relIdx rf (int j + 1)) = Suc (j - ?k)" using j k by (simp add: relIdx_def)
  have "termAt L ?k = termAt (take j M) ?k" using kj M by (metis termAt_take)
  moreover have "take (j - ?k) (drop ?k L) = drop ?k (take j M)" using M by (metis drop_take)
  ultimately show "take (nat (relIdx rf (int j + 1))) (rf_logs rf) =
      sentinel (termAt (take j M) ?k) # drop ?k (take j M)"
    unfolding rel lg by simp
  show "0 \<le> relIdx rf (int j + 1)" "relIdx rf (int j + 1) \<le> int (length (rf_logs rf))"
    using j k by (simp_all add: relIdx_def lg) 
qed

text \<open>
  \<open>entries_from s n rf args p k\<close>: the message carries entries of the leader's log from \<open>p\<close>
  on, the follower's log has the first \<open>k\<close> of them, and the next one, if any, it has not.
\<close>

definition entries_from :: "'c spec \<Rightarrow> NodeID \<Rightarrow> 'c Raft \<Rightarrow> 'c AppendEntries \<Rightarrow> nat \<Rightarrow> nat \<Rightarrow> bool" where
  "entries_from s n rf args p k \<longleftrightarrow> ae_PrevLogIndex args = int p \<and>
     p + length (ae_Entries args) \<le> length (sp_tlog s (rf_term rf)) \<and>
     ae_Entries args = take (length (ae_Entries args)) (drop p (sp_tlog s (rf_term rf))) \<and>
     rf_snapshotIndex rf \<le> int p \<and> k \<le> length (ae_Entries args) \<and> p + k \<le> length (sp_log s n) \<and>
     take (p + k) (sp_log s n) = take (p + k) (sp_tlog s (rf_term rf)) \<and>
     matchingEntries rf (int p + 1) (ae_Entries args) = Some k \<and>
     (k < length (ae_Entries args) \<longrightarrow>
        (\<forall>P. prefix P (sp_tlog s (rf_term rf)) \<longrightarrow> prefix P (sp_log s n) \<longrightarrow> length P \<le> p + k))"

lemma entries_from_ex:
  assumes inv: "spec_inv N s" and n: "nsim N s n rf" and p: "ae_PrevLogIndex args = int p"
    and M: "p + length (ae_Entries args) \<le> length (sp_tlog s (rf_term rf))"
      "ae_Entries args = take (length (ae_Entries args)) (drop p (sp_tlog s (rf_term rf)))"
    and L: "rf_snapshotIndex rf \<le> int p" "p \<le> length (sp_log s n)"
      "take p (sp_log s n) = take p (sp_tlog s (rf_term rf))"
  shows "\<exists>k. entries_from s n rf args p k"
proof -
  let ?L = "sp_log s n" and ?M = "sp_tlog s (rf_term rf)" and ?es = "ae_Entries args"
  have es: "?es ! j = ?M ! (p + j)" if "j < length ?es" for j
    using that M(1) by (subst M(2)) simp
  obtain k where k: "matchingEntries rf (int p + 1) ?es = Some k" "k \<le> length ?es" "p + k \<le> length ?L"
    "\<And>j. j < k \<Longrightarrow> le_Term (?L ! (p + j)) = le_Term (?es ! j)"
    "k < length ?es \<Longrightarrow> p + k < length ?L \<Longrightarrow> le_Term (?L ! (p + k)) \<noteq> le_Term (?es ! k)"
    using matchingEntries_spec [OF nsim_repr [OF n], of "int p + 1" ?es] L by (auto simp: nat_add_distrib)
  have "take (p + k) ?L = take (p + k) ?M"
  proof (cases k)
    case (Suc j)
    have "le_Term (?L ! (p + j)) = le_Term (?M ! (p + j))" using k(4) [of j] es [of j] k(2) Suc by simp
    then show ?thesis
      using grounded_match [OF inv_groundedD(1) [OF inv] inv_groundedD(2) [OF inv], of "p + j" n]
        k(2,3) M(1) Suc by simp
  qed (use L in simp)
  moreover have "length P \<le> p + k" if "prefix P ?M" "prefix P ?L" "k < length ?es" for P
  proof (rule ccontr)
    assume "\<not> length P \<le> p + k"
    then have lt: "p + k < length P" "length P \<le> length ?L"
      using prefix_length_le [OF that(2)] by simp_all
    have "?L ! (p + k) = ?M ! (p + k)"
      using prefix_nthD [OF that(1) lt(1)] prefix_nthD [OF that(2) lt(1)] by simp
    then show False using k(5) that(3) lt es [OF that(3)] by simp
  qed
  ultimately show ?thesis using k p M L by (auto simp: entries_from_def)
qed

lemma appendNew_eq:
  assumes n: "nsim N s n rf" and e: "entries_from s n rf args p k"
  shows "appendNew args rf = (if k < length (ae_Entries args) then
     Some (rf\<lparr>rf_logs := take (nat (relIdx rf (int (p + k) + 1))) (rf_logs rf) @ drop k (ae_Entries args)\<rparr>,
       [TruncateSuffix (int (p + k) + 1), AppendLog (drop k (ae_Entries args))])
     else Some (rf, []))"
proof -
  have "rf_snapshotIndex rf \<le> int (p + k)" "p + k \<le> length (sp_log s n)"
    "take (p + k) (sp_log s n) = take (p + k) (sp_tlog s (rf_term rf))"
    using e by (auto simp: entries_from_def)
  note u = logs_upto(2,3) [OF nsim_repr [OF n] this]
  have i: "int p + 1 + int k = int (p + k) + 1" by simp
  show ?thesis
    using e u unfolding entries_from_def appendNew_def Let_def by (auto simp: i simp del: of_nat_add)
qed

lemma appendNew_log:
  assumes n: "nsim N s n rf" and e: "entries_from s n rf args p k" and k: "k < length (ae_Entries args)"
    and q: "q \<le> length (ae_Entries args) - k"
  shows "take (nat (relIdx rf (int (p + k) + 1))) (rf_logs rf) @ take q (drop k (ae_Entries args)) =
    sentinel (termAt (take (p + k + q) (sp_tlog s (rf_term rf))) (nat (rf_snapshotIndex rf))) #
    drop (nat (rf_snapshotIndex rf)) (take (p + k + q) (sp_tlog s (rf_term rf)))"
proof -
  let ?M = "sp_tlog s (rf_term rf)" and ?kk = "nat (rf_snapshotIndex rf)" and ?es = "ae_Entries args"
  have a: "rf_snapshotIndex rf \<le> int (p + k)" "p + k \<le> length (sp_log s n)"
    "take (p + k) (sp_log s n) = take (p + k) ?M" and m: "p + length ?es \<le> length ?M"
    "?es = take (length ?es) (drop p ?M)"
    using e by (auto simp: entries_from_def)
  have "drop k ?es = take (length ?es - k) (drop (p + k) ?M)"
    by (subst m(2)) (simp add: drop_take add.commute)
  then have es: "take q (drop k ?es) = take q (drop (p + k) ?M)" using q by simp
  have t: "termAt (take (p + k) ?M) ?kk = termAt (take (p + k + q) ?M) ?kk"
    using a(1) by (simp add: termAt_take)
  have sl: "drop ?kk (take (p + k) ?M) @ take q (drop (p + k) ?M) = drop ?kk (take (p + k + q) ?M)"
    by (rule slice_extend) (use a(1) m k in simp_all)
  show ?thesis unfolding logs_upto(1) [OF nsim_repr [OF n] a] es t using sl by simp
qed

lemma append_args_entriesD:
  assumes "append_args_ok N s args" "ae_Snapshot args = None"
  shows "sp_lead s (ae_Term args) \<noteq> None" "0 \<le> ae_PrevLogIndex args"
    "nat (ae_PrevLogIndex args) + length (ae_Entries args) \<le> length (sp_tlog s (ae_Term args))"
    "ae_PrevLogTerm args = termAt (sp_tlog s (ae_Term args)) (nat (ae_PrevLogIndex args))"
    "ae_Entries args = take (length (ae_Entries args))
       (drop (nat (ae_PrevLogIndex args)) (sp_tlog s (ae_Term args)))"
    "ae_LeaderCommit args \<le> ae_PrevLogIndex args + int (length (ae_Entries args))"
    "committed N s (ae_Term args) (take (nat (ae_LeaderCommit args)) (sp_tlog s (ae_Term args)))"
    "acked args = nat (ae_PrevLogIndex args) + length (ae_Entries args)"
  using assms by (simp_all add: append_args_ok_def acked_def)

lemma appendNew_repr:
  assumes n: "nsim N s n rf" and e: "entries_from s n rf args p k"
  shows "\<exists>rf1 ops. (if ae_Entries args \<noteq> [] then appendNew args rf else Some (rf, [])) = Some (rf1, ops) \<and>
    repr (persistent rf1) (accepted_log (take (p + length (ae_Entries args)) (sp_tlog s (rf_term rf)))
      (sp_log s n)) \<and> rf1 = rf\<lparr>rf_logs := rf_logs rf1\<rparr>"
proof (cases "k < length (ae_Entries args)")
  case True
  let ?es = "ae_Entries args" and ?M = "sp_tlog s (rf_term rf)" and ?kk = "nat (rf_snapshotIndex rf)"
  let ?m = "p + length ?es"
  have a: "?m \<le> length ?M" "rf_snapshotIndex rf \<le> int p"
    and c: "\<And>P. prefix P ?M \<Longrightarrow> prefix P (sp_log s n) \<Longrightarrow> length P \<le> p + k"
    using e True by (auto simp: entries_from_def)
  have "\<not> prefix (take ?m ?M) (sp_log s n)"
    using c [OF take_is_prefix, of ?m] a(1) True by auto
  then have L: "accepted_log (take ?m ?M) (sp_log s n) = take ?m ?M" by (simp add: accepted_log_def)
  let ?rf = "rf\<lparr>rf_logs := take (nat (relIdx rf (int (p + k) + 1))) (rf_logs rf) @ drop k ?es\<rparr>"
  have "p + k + (length ?es - k) = ?m" using True by simp
  then have "rf_logs ?rf = sentinel (termAt (take ?m ?M) ?kk) # drop ?kk (take ?m ?M)"
    using appendNew_log [OF n e True order_refl] by simp
  moreover have "0 \<le> rf_snapshotIndex rf" by (rule repr_snap(1) [OF nsim_repr [OF n]])
  ultimately have "repr (persistent ?rf) (take ?m ?M)" using a by (simp add: repr_def)
  then show ?thesis using appendNew_eq [OF n e] True L by auto
next
  case False
  then have "prefix (take (p + length (ae_Entries args)) (sp_tlog s (rf_term rf))) (sp_log s n)"
    using e by (auto simp: entries_from_def) (metis take_is_prefix)
  then show ?thesis using appendNew_eq [OF n e] False nsim_repr [OF n]
    by (auto simp: accepted_log_def)
qed

lemma conflictIndex_total:
  assumes "repr (persistent rf) L"
  shows "i \<le> int (length L) \<Longrightarrow> \<exists>j. conflictIndex rf t i = Some j"
proof (induction "nat (i - rf_snapshotIndex rf)" arbitrary: i rule: less_induct)
  case less
  show ?case
  proof (cases "i > rf_snapshotIndex rf")
    case True
    obtain e where e: "logAt rf i = Some e"
      using repr_logAt [OF assms _ less.prems] True by (metis less_imp_le)
    have "\<exists>j. conflictIndex rf t (i - 1) = Some j"
      using less.hyps [of "i - 1"] less.prems True by simp
    then show ?thesis by (subst conflictIndex.simps) (auto simp: e)
  qed (simp add: conflictIndex.simps)
qed

lemma append_match_nsim:
  assumes inv: "spec_inv N s" and N: "finite N" and n: "nsim N s n rf"
    and a: "append_args_ok N s args" "ae_Snapshot args = None" and t: "rf_term rf = ae_Term args"
    and f: "rf_customerId rf = Follower" and e: "entries_from s n rf args (nat (ae_PrevLogIndex args)) k"
  shows "\<exists>rf1 ops s'. (if ae_Entries args \<noteq> [] then appendNew args rf else Some (rf, [])) = Some (rf1, ops) \<and>
    moves N n s s' \<and> nsim N s' n (if ae_LeaderCommit args > rf_commitIndex rf1
      then rf1\<lparr>rf_commitIndex := min (ae_LeaderCommit args) (lastLogIndex rf1)\<rparr> else rf1) \<and>
    acked args \<le> sp_ack s' n (ae_Term args)"
proof -
  note b = append_args_entriesD [OF a, folded t]
  let ?M = "sp_tlog s (rf_term rf)" and ?m = "acked args" and ?lc = "ae_LeaderCommit args"
  let ?L = "accepted_log (take ?m ?M) (sp_log s n)"
  obtain rf1 ops where h: "(if ae_Entries args \<noteq> [] then appendNew args rf else Some (rf, [])) = Some (rf1, ops)"
    and r: "repr (persistent rf1) ?L" and rf1: "rf1 = rf\<lparr>rf_logs := rf_logs rf1\<rparr>"
    using appendNew_repr [OF n e] unfolding b(8) [symmetric] by blast
  have g: "rf_term rf1 = rf_term rf" "rf_voteFor rf1 = rf_voteFor rf" "rf_me rf1 = rf_me rf"
    "rf_customerId rf1 = Follower" "rf_snapshotIndex rf1 = rf_snapshotIndex rf"
    "rf_snapshot rf1 = rf_snapshot rf" "rf_commitIndex rf1 = rf_commitIndex rf"
    "rf_appliedIndex rf1 = rf_appliedIndex rf"
    using f by (subst rf1, simp)+
  let ?rf = "if ?lc > rf_commitIndex rf1
    then rf1\<lparr>rf_commitIndex := min ?lc (lastLogIndex rf1)\<rparr> else rf1"
  have m: "?m \<le> length ?M" using b(3,8) by simp
  have tk: "take i ?L = take i ?M" if "i \<le> ?m" for i
    using prefix_take_eqD [OF accepted_log_prefix, of i "take ?m ?M"] that m by simp
  have lenL: "?m \<le> length ?L" using prefix_length_le [OF accepted_log_prefix, of "take ?m ?M"] m by simp
  have lc: "?lc \<le> int ?m" using b(2,6,8) by simp
  have ci: "rf_commitIndex ?rf = (if ?lc > rf_commitIndex rf then ?lc else rf_commitIndex rf)"
    using lc lenL by (auto simp: g repr_last [OF r])
  note c = commit_accepted [OF inv N n b(1) refl, of ?m] and c0 = commit_okD [OF nsimD(3) [OF n]]
  have "\<exists>s'. moves N n s s' \<and> nsim N s' n ?rf \<and> ?m \<le> sp_ack s' n (rf_term rf)"
  proof (rule accept_nsim [OF inv n b(1) m refl])
    have eq: "persistent ?rf = persistent rf1" by (simp add: persistent_def)
    show "repr (persistent ?rf) ?L" unfolding eq by (rule r)
    show "rf_commitIndex ?rf \<le> int (length ?L)" using ci c(1) lc lenL by auto
    show "committed N s (rf_term rf) (take (nat (rf_commitIndex ?rf)) ?L)"
      using ci c(3) tk [of "nat ?lc"] b(7) lc by auto
    show "rf_snapshotIndex ?rf \<le> rf_commitIndex ?rf" "rf_appliedIndex ?rf \<le> rf_commitIndex ?rf"
      using ci c0 by (auto simp: g)
  qed (use g psimD(5) [OF nsimD(2) [OF n]] in \<open>auto split: if_splits\<close>)
  then show ?thesis using h t by auto
qed

lemma appendEntries_nsim:
  assumes inv: "spec_inv N s" and N: "finite N" and n: "nsim N s n rf"
    and a: "append_args_ok N s args" "ae_Snapshot args = None" and t: "rf_term rf = ae_Term args"
    and f: "rf_customerId rf = Follower"
  shows "\<exists>rf' reply ops s'. appendEntries args rf = Some (rf', reply, ops) \<and> moves N n s s' \<and>
    nsim N s' n rf' \<and> (aer_Success reply \<longrightarrow> acked args \<le> sp_ack s' n (ae_Term args))"
proof -
  let ?p = "ae_PrevLogIndex args" and ?L = "sp_log s n" and ?M = "sp_tlog s (rf_term rf)"
  note b = append_args_entriesD [OF a, folded t] and r = nsim_repr [OF n]
  have fail: ?thesis if "appendEntries args rf = Some (rf, \<lparr>aer_Term = rf_term rf, aer_Success = False,
      aer_LastMatchIndex = i\<rparr>, [])" for i
    using that n moves_refl by fastforce
  show ?thesis
  proof (cases "?p < rf_snapshotIndex rf \<or> ?p > lastLogIndex rf")
    case True
    then show ?thesis
      using fail [of "rf_snapshotIndex rf"] fail [of "lastLogIndex rf"]
      by (cases "?p < rf_snapshotIndex rf") (simp_all add: appendEntries_def)
  next
    case False
    then have p: "rf_snapshotIndex rf \<le> ?p" "?p \<le> int (length ?L)" by (simp_all add: repr_last [OF r])
    obtain e where e: "logAt rf ?p = Some e" "le_Term e = termAt ?L (nat ?p)"
      using repr_logAt [OF r p] by blast
    show ?thesis
    proof (cases "le_Term e = ae_PrevLogTerm args")
      case ne: False
      obtain i where "conflictIndex rf (le_Term e) ?p = Some i"
        using conflictIndex_total [OF r p(2)] by blast
      then show ?thesis by (intro fail) (use False ne e in \<open>simp add: appendEntries_def\<close>)
    next
      case True
      have "take (nat ?p) ?L = take (nat ?p) ?M"
        by (rule take_eq_termAt [OF inv inv_groundedD(1) [OF inv] inv_groundedD(2) [OF inv]])
          (use True e b p in simp_all)
      then have "\<exists>k. entries_from s n rf args (nat ?p) k"
        by (intro entries_from_ex [OF inv n _ b(3,5)]) (use b(2) p in simp_all)
      then obtain k where k: "entries_from s n rf args (nat ?p) k" by blast
      obtain rf1 ops s' where h:
        "(if ae_Entries args \<noteq> [] then appendNew args rf else Some (rf, [])) = Some (rf1, ops)"
        and s': "moves N n s s'" "nsim N s' n (if ae_LeaderCommit args > rf_commitIndex rf1
          then rf1\<lparr>rf_commitIndex := min (ae_LeaderCommit args) (lastLogIndex rf1)\<rparr> else rf1)"
        "acked args \<le> sp_ack s' n (ae_Term args)"
        using append_match_nsim [OF inv N n a t f k] by blast
      have "appendEntries args rf = Some (if ae_LeaderCommit args > rf_commitIndex rf1
          then rf1\<lparr>rf_commitIndex := min (ae_LeaderCommit args) (lastLogIndex rf1)\<rparr> else rf1,
        \<lparr>aer_Term = rf_term rf1, aer_Success = True, aer_LastMatchIndex = 0\<rparr>, ops)"
        unfolding appendEntries_def h using False True e(1) by simp
      then show ?thesis using s' by blast
    qed
  qed
qed

lemma AppendEntriesHandler_nsim:
  assumes inv: "spec_inv N s" and N: "finite N" and n: "nsim N s n rf"
    and a: "append_args_ok N s args"
  shows "\<exists>rf' reply ops s'. AppendEntriesHandler args rf = Some (rf', reply, ops) \<and> moves N n s s' \<and>
    nsim N s' n rf' \<and> (aer_Success reply \<longrightarrow> acked args \<le> sp_ack s' n (ae_Term args))"
proof (cases "ae_Term args < rf_term rf")
  case True
  then show ?thesis using n moves_refl [of N n s] by (fastforce simp: AppendEntriesHandler_def)
next
  case False
  obtain rf1 ops1 where o: "observeTerm (ae_Term args) rf = (rf1, ops1)" by fastforce
  obtain s1 where s1: "moves N n s s1" "nsim N s1 n rf1" using observeTerm_nsim [OF inv n o] by blast
  let ?rf = "resetElectionTimerLocked
    (rf1\<lparr>rf_customerId := Follower, rf_leaderId := ae_LeaderId args\<rparr>)"
  note inv1 = moves_inv [OF s1(1) inv] and a1 = append_args_ok_extends [OF inv moves_extends [OF s1(1)] a]
  have t: "rf_term ?rf = ae_Term args" using observeTerm_term [OF o False] by simp
  have n1: "nsim N s1 n ?rf"
    using s1(2) by (simp add: nsim_def psim_def commit_ok_def repr_def)
  have "\<exists>rf' reply ops s'. (if ae_Snapshot args \<noteq> None then installSnapshot args ?rf
      else appendEntries args ?rf) = Some (rf', reply, ops) \<and> moves N n s1 s' \<and>
    nsim N s' n rf' \<and> (aer_Success reply \<longrightarrow> acked args \<le> sp_ack s' n (ae_Term args))"
  proof (cases "ae_Snapshot args = None")
    case True
    then show ?thesis using appendEntries_nsim [OF inv1 N n1 a1 True t] by simp
  next
    case False
    then show ?thesis using installSnapshot_nsim [OF inv1 N n1 a1 False t] by fastforce
  qed
  then obtain rf' reply ops s' where h: "(if ae_Snapshot args \<noteq> None then installSnapshot args ?rf
      else appendEntries args ?rf) = Some (rf', reply, ops)" "moves N n s1 s'" "nsim N s' n rf'"
    "aer_Success reply \<longrightarrow> acked args \<le> sp_ack s' n (ae_Term args)" by blast
  then have "AppendEntriesHandler args rf = Some (rf', reply, ops1 @ ops)"
    using False o by (simp add: AppendEntriesHandler_def)
  then show ?thesis using h(3,4) moves_trans [OF h(2) s1(1)] by blast
qed

end
