(* ===== verification/RaftLeader.thy ===== *)
theory RaftLeader
  imports RaftRefine
begin

text \<open>
  The leader's side of the refinement, the apply loop and start-up: the replies that move the
  commit index, the messages of a heartbeat, what the apply loop hands to the service, and the
  state a node starts in after a crash at any point of its writes.
\<close>

section \<open>Commitment\<close>

lemma nsim_leader:
  assumes "nsim N s n rf" "rf_customerId rf = Leader"
  obtains L Q where "sp_lead s (rf_term rf) = Some (n, L, Q)" "sp_log s n = sp_tlog s (rf_term rf)"
    "sp_ack s n (rf_term rf) = length (sp_tlog s (rf_term rf))"
    "\<And>p. p \<noteq> n \<Longrightarrow> p \<in> N \<Longrightarrow> rf_matchIndex rf p \<le> int (sp_ack s p (rf_term rf))"
  using nsimD(4) [OF assms(1)] assms(2) by (auto simp: lead_ok_def)

lemma nsim_leader_peer:
  assumes "nsim N s n rf" "rf_customerId rf = Leader" "p \<in> N" "p \<noteq> n"
  shows "0 \<le> rf_matchIndex rf p" "1 \<le> rf_nextIndex rf p"
    "rf_matchIndex rf p \<le> int (sp_ack s p (rf_term rf))"
  using nsimD(4) [OF assms(1)] assms(2-) by (auto simp: lead_ok_def)

lemma countMatches_card:
  assumes "distinct (rf_nodeIDs rf)" "rf_me rf \<in> set (rf_nodeIDs rf)"
  shows "countMatches rf i = card (insert (rf_me rf)
    {p \<in> set (rf_nodeIDs rf). p \<noteq> rf_me rf \<and> rf_matchIndex rf p \<ge> i})"
  using distinct_card [OF distinct_filter [OF assms(1)],
    of "\<lambda>p. p \<noteq> rf_me rf \<and> rf_matchIndex rf p \<ge> i"]
  by (simp add: countMatches_def)

lemma counted_chosen:
  assumes n: "nsim N s n rf" "rf_customerId rf = Leader"
    and ids: "set (rf_nodeIDs rf) = N" "distinct (rf_nodeIDs rf)" "n \<in> N"
    and i: "0 < i" "i \<le> int (length (sp_log s n))" "termAt (sp_log s n) (nat i) = rf_term rf"
    and cnt: "countMatches rf i > length (rf_nodeIDs rf) div 2"
  shows "committed N s (rf_term rf) (take (nat i) (sp_log s n))"
proof -
  let ?T = "rf_term rf"
  let ?Q = "insert n {p \<in> N. p \<noteq> n \<and> rf_matchIndex rf p \<ge> i}"
  obtain L P where l: "sp_lead s ?T = Some (n, L, P)" "sp_log s n = sp_tlog s ?T"
    "sp_ack s n ?T = length (sp_tlog s ?T)"
    "\<And>p. p \<noteq> n \<Longrightarrow> p \<in> N \<Longrightarrow> rf_matchIndex rf p \<le> int (sp_ack s p ?T)"
    using nsim_leader [OF n] by blast
  have me: "rf_me rf = n" by (rule nsimD(1) [OF n(1)])
  have "card N = length (rf_nodeIDs rf)" using ids distinct_card by fastforce
  then have "majority N ?Q"
    using cnt countMatches_card [OF ids(2), of i] ids me by (auto simp: majority_def)
  moreover have "nat i \<le> sp_ack s q ?T" if "q \<in> ?Q" for q
    using that l(3) l(4) [of q] i(2) unfolding l(2) by auto
  ultimately have "chosen N s ?T (nat i)"
    using i unfolding chosen_def l(2) by (auto simp: termAt_def)
  then show ?thesis unfolding l(2) committed_def by blast
qed

lemma nsim_set_commit:
  assumes "nsim N s n rf" "rf_commitIndex rf \<le> i" "i \<le> int (length (sp_log s n))"
    "committed N s (rf_term rf) (take (nat i) (sp_log s n))"
  shows "nsim N s n (rf\<lparr>rf_commitIndex := i\<rparr>)"
  using assms by (simp add: nsim_def commit_ok_def lead_ok_def cand_ok_def persistent_def)

lemma advanceCommit_nsim:
  assumes "nsim N s n rf" "rf_customerId rf = Leader" "set (rf_nodeIDs rf) = N"
    "distinct (rf_nodeIDs rf)" "n \<in> N" "sorted_wrt (<) (rf_commitIndex rf # ns)"
    "\<And>i. i \<in> set ns \<Longrightarrow> i \<le> int (length (sp_log s n))"
  shows "\<exists>rf'. advanceCommit ns rf = Some rf' \<and> nsim N s n rf'"
  using assms
proof (induction ns rf rule: advanceCommit.induct)
  case (2 i ns rf)
  note r = nsim_repr [OF 2(3)] and c = commit_okD [OF nsimD(3) [OF 2(3)]]
  have i: "rf_commitIndex rf < i" "i \<le> int (length (sp_log s n))" using "2.prems" by simp_all
  have i': "rf_snapshotIndex rf \<le> i" "0 < i" using i c(1) repr_snap(1) [OF r] by simp_all
  obtain e where e: "logAt rf i = Some e" "le_Term e = termAt (sp_log s n) (nat i)"
    using repr_logAt [OF r i'(1) i(2)] by blast
  show ?case
  proof (cases "le_Term e = rf_term rf \<and> countMatches rf i > length (rf_nodeIDs rf) div 2")
    case True
    have "committed N s (rf_term rf) (take (nat i) (sp_log s n))"
      by (rule counted_chosen [OF "2.prems"(1-5) i'(2) i(2)]) (use True e in simp_all)
    then have "nsim N s n (rf\<lparr>rf_commitIndex := i\<rparr>)"
      using nsim_set_commit [OF "2.prems"(1)] i by simp
    then have "\<exists>rf'. advanceCommit ns (rf\<lparr>rf_commitIndex := i\<rparr>) = Some rf' \<and> nsim N s n rf'"
      using "2.IH"(2) [OF e(1)] True "2.prems" by simp
    then show ?thesis using True e(1) by simp
  next
    case False
    have "\<exists>rf'. advanceCommit ns rf = Some rf' \<and> nsim N s n rf'"
    proof (cases "le_Term e = rf_term rf")
      case True
      then show ?thesis using "2.IH"(2) [OF e(1)] False "2.prems" by simp
    next
      case ne: False
      then show ?thesis using "2.IH"(1) [OF e(1)] "2.prems" by simp
    qed
    then show ?thesis using False e(1) by auto
  qed
qed simp

lemma sorted_upto: "sorted_wrt (<) (c # [c + 1 .. d :: int])"
  by (simp add: sorted_wrt_upto)

lemma nsim_set_match:
  assumes "nsim N s n rf" "p \<in> N \<Longrightarrow> p \<noteq> n \<Longrightarrow> rf_customerId rf = Leader \<Longrightarrow>
      0 \<le> v \<and> 1 \<le> x \<and> v \<le> int (sp_ack s p (rf_term rf))"
  shows "nsim N s n (rf\<lparr>rf_matchIndex := (rf_matchIndex rf)(p := v),
    rf_nextIndex := (rf_nextIndex rf)(p := x)\<rparr>)"
  using assms by (auto simp: nsim_def commit_ok_def lead_ok_def cand_ok_def persistent_def)

lemma sendAppendEntries_nsim:
  assumes inv: "spec_inv N s" and n: "nsim N s n rf"
    and ids: "set (rf_nodeIDs rf) = N" "distinct (rf_nodeIDs rf)" "n \<in> N"
    and a: "append_args_ok N s args"
    and ok: "aer_Success reply \<Longrightarrow> acked args \<le> sp_ack s p (ae_Term args)"
  shows "\<exists>rf' ops s'. sendAppendEntries p args reply rf = Some (rf', ops) \<and> moves N n s s' \<and> nsim N s' n rf'"
proof -
  let ?m = "if ae_Snapshot args \<noteq> None then ae_SnapshotIndex args
    else ae_PrevLogIndex args + int (length (ae_Entries args))"
  have m: "?m = int (acked args)" using a by (cases "ae_Snapshot args") (auto simp: append_args_ok_def acked_def)
  consider (down) "rf_term rf < aer_Term reply"
    | (stale) "\<not> rf_term rf < aer_Term reply" "rf_term rf \<noteq> ae_Term args \<or> rf_customerId rf \<noteq> Leader"
    | (success) "\<not> rf_term rf < aer_Term reply" "rf_term rf = ae_Term args" "rf_customerId rf = Leader"
        "aer_Success reply"
    | (failure) "\<not> rf_term rf < aer_Term reply" "rf_term rf = ae_Term args" "rf_customerId rf = Leader"
        "\<not> aer_Success reply"
    by blast
  then show ?thesis
  proof cases
    case down
    then show ?thesis using stepDown_nsim [OF inv n down]
      by (cases "stepDown (aer_Term reply) rf") (auto simp: sendAppendEntries_def)
  next
    case stale
    then show ?thesis using n moves_refl [of N n s] by (auto simp: sendAppendEntries_def)
  next
    case success
    let ?v = "if ?m > rf_matchIndex rf p then ?m else rf_matchIndex rf p"
    let ?rf = "rf\<lparr>rf_matchIndex := (rf_matchIndex rf)(p := ?v),
      rf_nextIndex := (rf_nextIndex rf)(p := ?v + 1)\<rparr>"
    have "0 \<le> ?v \<and> 1 \<le> ?v + 1 \<and> ?v \<le> int (sp_ack s p (rf_term rf))" if p: "p \<in> N" "p \<noteq> n"
      using nsim_leader_peer [OF n success(3) p] ok [OF success(4)] success(2) unfolding m by simp
    then have n': "nsim N s n ?rf" by (intro nsim_set_match [OF n]) simp
    have last: "lastLogIndex ?rf = int (length (sp_log s n))" by (rule repr_last [OF nsim_repr [OF n']])
    have "\<exists>rf'. advanceCommit [rf_commitIndex ?rf + 1 .. lastLogIndex ?rf] ?rf = Some rf' \<and> nsim N s n rf'"
      by (rule advanceCommit_nsim [OF n' _ _ _ ids(3) sorted_upto]) (use success ids last in simp_all)
    then obtain rf' where rf': "advanceCommit [rf_commitIndex ?rf + 1 .. lastLogIndex ?rf] ?rf = Some rf'"
      "nsim N s n rf'" by blast
    have "sendAppendEntries p args reply rf = Some (rf', [])"
      using success rf'(1) by (simp add: sendAppendEntries_def Let_def split: if_splits)
    then show ?thesis using rf'(2) moves_refl by blast
  next
    case failure
    have "nsim N s n (rf\<lparr>rf_nextIndex := (rf_nextIndex rf)(p := max 1 x)\<rparr>)" for x
      using n by (auto simp: nsim_def commit_ok_def lead_ok_def cand_ok_def persistent_def)
    then show ?thesis using failure n moves_refl [of N n s] by (auto simp: sendAppendEntries_def)
  qed
qed

section \<open>Heartbeats\<close>

lemma heartbeatArgs_snapshot:
  assumes n: "nsim N s n rf" "rf_customerId rf = Leader"
    and sn: "rf_nextIndex rf peer - 1 < rf_snapshotIndex rf" "0 < rf_snapshotIndex rf"
  shows "\<exists>a. heartbeatArgs rf peer = Some a \<and> append_args_ok N s a"
proof -
  note r = nsim_repr [OF n(1)]
  note k = repr_snap [OF r] and lg = repr_logs [OF r] and p = psimD [OF nsimD(2) [OF n(1)]]
  obtain b where b: "rf_snapshot rf = Some b" using p(5) sn by auto
  obtain L Q where l: "sp_lead s (rf_term rf) = Some (n, L, Q)" "sp_log s n = sp_tlog s (rf_term rf)"
    using nsim_leader [OF n] by blast
  have "\<not> rf_nextIndex rf peer - 1 > lastLogIndex rf" using sn(1) k by (simp add: repr_last [OF r])
  then have "heartbeatArgs rf peer = Some \<lparr>ae_Term = rf_term rf, ae_LeaderId = rf_me rf,
      ae_PrevLogIndex = 0, ae_PrevLogTerm = 0, ae_Entries = [], ae_LeaderCommit = rf_commitIndex rf,
      ae_Snapshot = Some b, ae_SnapshotIndex = rf_snapshotIndex rf,
      ae_SnapshotTerm = termAt (sp_log s n) (nat (rf_snapshotIndex rf))\<rparr>"
    using sn(1) by (simp add: heartbeatArgs_def Let_def b lg)
  then show ?thesis using l sn(2) k p(4) by (auto simp: append_args_ok_def nat_le_iff)
qed

lemma heartbeatArgs_entries:
  assumes n: "nsim N s n rf" "rf_customerId rf = Leader"
    and sn: "rf_nextIndex rf peer - 1 \<ge> rf_snapshotIndex rf"
  shows "\<exists>a. heartbeatArgs rf peer = Some a \<and> append_args_ok N s a"
proof -
  note r = nsim_repr [OF n(1)]
  note k = repr_snap [OF r] and lg = repr_logs [OF r] and c = commit_okD [OF nsimD(3) [OF n(1)]]
    and last = repr_last [OF r] and ps = psimD [OF nsimD(2) [OF n(1)]]
  let ?M = "sp_log s n" and ?next = "rf_nextIndex rf peer - 1"
  define p where "p = nat (min ?next (int (length ?M)))"
  obtain L Q where l: "sp_lead s (rf_term rf) = Some (n, L, Q)" "?M = sp_tlog s (rf_term rf)"
    using nsim_leader [OF n] by blast
  have p: "p \<le> length ?M" "rf_snapshotIndex rf \<le> int p" using k sn by (auto simp: p_def)
  obtain e where e: "logAt rf (int p) = Some e" "le_Term e = termAt ?M p"
    using repr_logAt [OF r p(2)] p(1) by auto
  let ?prev1 = "if ?next > lastLogIndex rf then lastLogIndex rf else ?next"
  have "(if ?prev1 < rf_snapshotIndex rf then Some (0, 0, rf_snapshot rf)
      else do { e \<leftarrow> logAt rf ?prev1; Some (?prev1, le_Term e, None) }) = Some (int p, termAt ?M p, None)"
  proof -
    have "\<not> ?prev1 < rf_snapshotIndex rf" "?prev1 = int p" using k sn by (auto simp: last p_def)
    then show ?thesis using e by simp
  qed
  moreover have "nat (relIdx rf (int p) + 1) = Suc (p - nat (rf_snapshotIndex rf))"
    using p k by (simp add: relIdx_def)
  then have "(if int p < lastLogIndex rf \<and> (None :: slice) = None
      then sl_from (rf_logs rf) (relIdx rf (int p) + 1) else Some []) = Some (drop p ?M)"
    using p k by (auto simp: last lg relIdx_def)
  ultimately have "heartbeatArgs rf peer = Some \<lparr>ae_Term = rf_term rf, ae_LeaderId = rf_me rf,
      ae_PrevLogIndex = int p, ae_PrevLogTerm = termAt ?M p, ae_Entries = drop p ?M,
      ae_LeaderCommit = rf_commitIndex rf, ae_Snapshot = None, ae_SnapshotIndex = rf_snapshotIndex rf,
      ae_SnapshotTerm = termAt ?M (nat (rf_snapshotIndex rf))\<rparr>"
    unfolding heartbeatArgs_def Let_def by (simp add: lg)
  then show ?thesis using l p c by (auto simp: append_args_ok_def)
qed

lemma heartbeatArgs_ok:
  assumes "nsim N s n rf" "rf_customerId rf = Leader" "peer \<in> N" "peer \<noteq> n"
  shows "\<exists>a. heartbeatArgs rf peer = Some a \<and> append_args_ok N s a"
proof (cases "rf_nextIndex rf peer - 1 < rf_snapshotIndex rf")
  case True
  have "1 \<le> rf_nextIndex rf peer" by (rule nsim_leader_peer(2) [OF assms])
  then show ?thesis using heartbeatArgs_snapshot [OF assms(1,2) True] True by simp
qed (use heartbeatArgs_entries [OF assms(1,2)] in simp)

lemma heartbeats_ok:
  assumes "nsim N s n rf" "rf_customerId rf = Leader"
  shows "set ids \<subseteq> N \<Longrightarrow>
    \<exists>hs. heartbeats rf ids = Some hs \<and> (\<forall>(b, a) \<in> set hs. append_args_ok N s a \<and> b \<in> set ids)"
proof (induction ids)
  case (Cons peer ids)
  obtain hs where hs: "heartbeats rf ids = Some hs" "\<forall>(b, a) \<in> set hs. append_args_ok N s a \<and> b \<in> set ids"
    using Cons by auto
  show ?case
  proof (cases "peer = rf_me rf")
    case False
    then obtain a where "heartbeatArgs rf peer = Some a" "append_args_ok N s a"
      using heartbeatArgs_ok [OF assms, of peer] Cons.prems nsimD(1) [OF assms(1)] by auto
    then show ?thesis using hs False by auto
  qed (use hs in auto)
qed simp

lemma startHeartbeat_ok:
  assumes "nsim N s n rf" "set (rf_nodeIDs rf) = N"
  shows "\<exists>hs. startHeartbeat rf = Some hs \<and>
    (\<forall>(b, a) \<in> set hs. append_args_ok N s a \<and> b \<in> set (rf_nodeIDs rf))"
  using heartbeats_ok [OF assms(1), of "rf_nodeIDs rf"] assms(2) by (auto simp: startHeartbeat_def)

section \<open>The apply loop\<close>

text \<open>What the service is given: entries of a committed prefix, in the place the index says.\<close>

definition apply_ok :: "NodeID set \<Rightarrow> 'c spec \<Rightarrow> 'c ApplyMsg \<Rightarrow> bool" where
  "apply_ok N s m \<longleftrightarrow> (am_CommandValid m \<longrightarrow> (\<exists>T P. committed N s T P \<and> 0 < am_CommandIndex m \<and>
     am_CommandIndex m \<le> int (length P) \<and> am_Command m = le_Command (P ! (nat (am_CommandIndex m) - 1))))"

lemma apply_ok_extends: "spec_inv N s \<Longrightarrow> extends s s' \<Longrightarrow> apply_ok N s m \<Longrightarrow> apply_ok N s' m"
  unfolding apply_ok_def using committed_extends by blast

lemma commandMsgs_ok:
  assumes "committed N s T P" "p + length es \<le> length P" "take (length es) (drop p P) = es"
  shows "\<forall>m \<in> set (commandMsgs (int p + 1) es). apply_ok N s m"
  using assms(2,3)
proof (induction es arbitrary: p)
  case (Cons e es)
  have d: "drop p P = P ! p # drop (Suc p) P" using Cons.prems(1) by (simp add: Cons_nth_drop_Suc)
  then have "e = P ! p" "take (length es) (drop (Suc p) P) = es" using Cons.prems(2) by simp_all
  then have "\<forall>m \<in> set (commandMsgs (int (Suc p) + 1) es). apply_ok N s m"
    using Cons.IH [of "Suc p"] Cons.prems(1) by simp
  moreover have "apply_ok N s (commandMsg (le_Command e) (int p + 1))"
  proof -
    have "nat (int p + 1) - 1 = p" "int p + 1 \<le> int (length P)" using Cons.prems(1) by simp_all
    then show ?thesis using assms(1) \<open>e = P ! p\<close> unfolding apply_ok_def commandMsg_def by fastforce
  qed
  ultimately show ?case by (simp add: add.commute)
qed simp

text \<open>What a turn of the loop delivers, in terms of the log the node stands for.\<close>

lemma sendApplyMsg_eq:
  assumes n: "nsim N s n rf" and go: "\<not> rf_dead rf" "rf_commitIndex rf \<noteq> rf_appliedIndex rf"
  defines "p \<equiv> nat (max (rf_appliedIndex rf) (rf_snapshotIndex rf))" and "c \<equiv> nat (rf_commitIndex rf)"
  shows "sendApplyMsg rf = Some (rf\<lparr>rf_appliedIndex := rf_commitIndex rf\<rparr>,
      (if rf_appliedIndex rf + 1 \<le> rf_snapshotIndex rf \<and> rf_snapshot rf \<noteq> None
       then [snapshotMsg (rf_snapshot rf) (termAt (sp_log s n) (nat (rf_snapshotIndex rf))) (rf_snapshotIndex rf)] else []) @
      commandMsgs (int p + 1) (take (c - p) (drop p (sp_log s n))))"
    "p \<le> c" "c \<le> length (sp_log s n)"
proof -
  note r = nsim_repr [OF n]
  note k = repr_snap [OF r] and lg = repr_logs [OF r] and co = commit_okD [OF nsimD(3) [OF n]]
  let ?kk = "nat (rf_snapshotIndex rf)" and ?L = "sp_log s n"
  let ?st = "if rf_appliedIndex rf + 1 \<le> rf_snapshotIndex rf then (rf_snapshot rf, rf_snapshotIndex rf + 1)
    else (None, rf_appliedIndex rf + 1)"
  let ?sn = "if rf_appliedIndex rf + 1 \<le> rf_snapshotIndex rf then rf_snapshot rf else None"
  have st: "?st = (?sn, int p + 1)" using k by (auto simp: p_def max_def)
  have c0: "0 \<le> rf_commitIndex rf" "rf_appliedIndex rf < rf_commitIndex rf" using co k go by simp_all
  then show p: "p \<le> c" "c \<le> length ?L" using co k unfolding p_def c_def by simp_all
  have p0: "?kk \<le> p" using k unfolding p_def by simp
  let ?es = "take (c - p) (drop p ?L)"
  have "nat (relIdx rf (int p + 1)) = Suc (p - ?kk)" "nat (relIdx rf (rf_commitIndex rf) + 1) = Suc (c - ?kk)"
    "0 \<le> relIdx rf (int p + 1)" "relIdx rf (int p + 1) \<le> relIdx rf (rf_commitIndex rf) + 1"
    "relIdx rf (rf_commitIndex rf) + 1 \<le> int (length (rf_logs rf))"
    using p p0 k c0(1) co(1) by (simp_all add: relIdx_def lg c_def)
  then have rg: "sl_range (rf_logs rf) (relIdx rf (int p + 1)) (relIdx rf (rf_commitIndex rf) + 1) = Some ?es"
    using p0 by (simp add: lg)
  have g0: "sl_get (rf_logs rf) 0 = Some (sentinel (termAt ?L ?kk))" by (simp add: lg)
  have A: "sendApplyMsg rf = Some (rf\<lparr>rf_appliedIndex := rf_commitIndex rf\<rparr>,
      (if ?sn \<noteq> None then [snapshotMsg ?sn (termAt ?L ?kk) (rf_snapshotIndex rf)] else []) @ commandMsgs (int p + 1) ?es)"
    unfolding sendApplyMsg_def Let_def st using go
    by (simp only: g0 rg if_False prod.case bind.bind_lunit le_Term_sentinel simp_thms)
  have B: "(if ?sn \<noteq> None then [snapshotMsg ?sn (termAt ?L ?kk) (rf_snapshotIndex rf)] else []) =
      (if rf_appliedIndex rf + 1 \<le> rf_snapshotIndex rf \<and> rf_snapshot rf \<noteq> None
       then [snapshotMsg (rf_snapshot rf) (termAt ?L ?kk) (rf_snapshotIndex rf)] else [])" by auto
  show "sendApplyMsg rf = Some (rf\<lparr>rf_appliedIndex := rf_commitIndex rf\<rparr>,
      (if rf_appliedIndex rf + 1 \<le> rf_snapshotIndex rf \<and> rf_snapshot rf \<noteq> None
       then [snapshotMsg (rf_snapshot rf) (termAt ?L ?kk) (rf_snapshotIndex rf)] else []) @
      commandMsgs (int p + 1) ?es)" using A by (subst B [symmetric])
qed

lemma sendApplyMsg_nsim:
  assumes n: "nsim N s n rf"
  shows "\<exists>rf' ms. sendApplyMsg rf = Some (rf', ms) \<and> nsim N s n rf' \<and> (\<forall>m \<in> set ms. apply_ok N s m)"
proof (cases "rf_dead rf \<or> rf_commitIndex rf = rf_appliedIndex rf")
  case True
  then show ?thesis using n by (simp add: sendApplyMsg_def)
next
  case False
  define p c where p: "p = nat (max (rf_appliedIndex rf) (rf_snapshotIndex rf))" "c = nat (rf_commitIndex rf)"
  have e: "\<not> rf_dead rf" "rf_commitIndex rf \<noteq> rf_appliedIndex rf" using False by auto
  note send = sendApplyMsg_eq [OF n e, folded p]
  have "\<forall>m \<in> set (commandMsgs (int p + 1) (take (c - p) (drop p (sp_log s n)))). apply_ok N s m"
    by (rule commandMsgs_ok [OF commit_okD(4) [OF nsimD(3) [OF n], folded p]])
      (use send(2,3) in \<open>simp_all add: drop_take\<close>)
  moreover have "nsim N s n (rf\<lparr>rf_appliedIndex := rf_commitIndex rf\<rparr>)"
    using n by (simp add: nsim_def commit_ok_def lead_ok_def cand_ok_def persistent_def)
  moreover have "apply_ok N s (snapshotMsg sn t i)" for sn t i by (simp add: apply_ok_def snapshotMsg_def)
  ultimately show ?thesis using send(1) by auto
qed

section \<open>Timeouts\<close>

text \<open>
  A round of votes a node starts: it is a candidate of a new term with its own vote, and the round
  describes the log it stands with.
\<close>

definition round_ok :: "'c spec \<Rightarrow> NodeID \<Rightarrow> 'c Raft \<Rightarrow> 'c Raft \<Rightarrow> electionRound option \<Rightarrow> bool" where
  "round_ok s n rf rf' r \<longleftrightarrow> (case r of None \<Rightarrow> True | Some x \<Rightarrow>
     rf_term rf < rf_term rf' \<and> rf_customerId rf' = Candidate \<and> rf_voteCount rf' = 1 \<and> er_term x = rf_term rf' \<and>
     (\<exists>L. sp_cand s n (rf_term rf') = Some L \<and> er_lastLogIndex x = int (length L) \<and>
        er_lastLogTerm x = lastTerm L) \<and> (\<exists>V. sp_vote s n (rf_term rf') = Some (n, V)))"

lemma beginElection_nsim:
  assumes inv: "spec_inv N s" and nN: "n \<in> N" "n \<noteq> ''''" and n: "nsim N s n rf"
  shows "\<exists>rf' r s'. beginElectionLocked rf = Some (rf', r, [SaveMeta (rf_term rf + 1) n]) \<and> moves N n s s' \<and>
    nsim N s' n rf' \<and> round_ok s' n rf rf' (Some r)"
proof -
  let ?rf = "resetElectionTimerLocked (rf\<lparr>rf_term := rf_term rf + 1, rf_customerId := Candidate,
        rf_leaderId := '''', rf_voteFor := n, rf_voteCount := 1\<rparr>)"
  let ?r = "\<lparr>er_term = rf_term rf + 1, er_lastLogIndex = int (length (sp_log s n)),
        er_lastLogTerm = lastTerm (sp_log s n)\<rparr>"
  have h: "beginElectionLocked rf = Some (?rf, ?r, [SaveMeta (rf_term rf + 1) n])"
    by (rule beginElection_eq [OF n])
  obtain s' where "moves N n s s'" "nsim N s' n ?rf" "sp_cand s' n (rf_term ?rf) = Some (sp_log s n)"
    "\<exists>V. sp_vote s' n (rf_term ?rf) = Some (n, V)"
    using stand_nsim [OF inv nN n h] by blast
  then show ?thesis using h by (auto simp: round_ok_def)
qed

lemma round_ok_later: "rf_term rf \<le> rf_term rf1 \<Longrightarrow> round_ok s n rf1 rf' r \<Longrightarrow> round_ok s n rf rf' r"
  by (auto simp: round_ok_def split: option.splits)

lemma ticker_nsim:
  assumes inv: "spec_inv N s" and nN: "n \<in> N" "n \<noteq> ''''" and n: "nsim N s n rf"
  shows "\<exists>rf' r ops s'. ticker g rf = Some (rf', r, ops) \<and> moves N n s s' \<and> nsim N s' n rf' \<and>
    round_ok s' n rf rf' r"
proof (cases "rf_dead rf \<or> rf_customerId rf = Leader \<or> rf_electionGeneration rf \<noteq> g")
  case True
  then show ?thesis using n moves_refl [of N n s] by (auto simp: ticker_def round_ok_def)
next
  case False
  then show ?thesis using beginElection_nsim [OF inv nN n] by (fastforce simp: ticker_def)
qed

lemma TimeoutNow_nsim:
  assumes inv: "spec_inv N s" and nN: "n \<in> N" "n \<noteq> ''''" and n: "nsim N s n rf"
  shows "\<exists>rf' reply r ops s'. TimeoutNow args rf = Some (rf', reply, r, ops) \<and> moves N n s s' \<and>
    nsim N s' n rf' \<and> round_ok s' n rf rf' r"
proof (cases "tn_Term args < rf_term rf")
  case True
  then show ?thesis using n moves_refl [of N n s] by (auto simp: TimeoutNow_def round_ok_def)
next
  case False
  obtain rf1 ops1 where o: "observeTerm (tn_Term args) rf = (rf1, ops1)" by fastforce
  obtain s1 where s1: "moves N n s s1" "nsim N s1 n rf1" using observeTerm_nsim [OF inv n o] by blast
  note inv1 = moves_inv [OF s1(1) inv] and r = nsim_repr [OF s1(2)]
  let ?i = "tn_LastLogIndex args"
  let ?reject = "Some (rf1, \<lparr>tnr_Term = rf_term rf1, tnr_Accepted = False\<rparr>, None, ops1)"
  have rej: ?thesis if "TimeoutNow args rf = ?reject" using that s1 by (auto simp: round_ok_def)
  show ?thesis
  proof (cases "tn_LeaderId args \<noteq> rf_leaderId rf1 \<or> ?i < rf_snapshotIndex rf1 \<or> ?i \<noteq> lastLogIndex rf1")
    case True
    then show ?thesis by (intro rej) (use False o in \<open>auto simp: TimeoutNow_def Let_def\<close>)
  next
    case c: False
    then have i: "rf_snapshotIndex rf1 \<le> ?i" "?i \<le> int (length (sp_log s1 n))"
      by (simp_all add: repr_last [OF r])
    obtain e where e: "logAt rf1 ?i = Some e" using repr_logAt [OF r i] by blast
    show ?thesis
    proof (cases "le_Term e = tn_LastLogTerm args")
      case True
      obtain rf2 rd s2 where b: "beginElectionLocked rf1 = Some (rf2, rd, [SaveMeta (rf_term rf1 + 1) n])"
        "moves N n s1 s2" "nsim N s2 n rf2" "round_ok s2 n rf1 rf2 (Some rd)"
        using beginElection_nsim [OF inv1 nN s1(2)] by blast
      have "TimeoutNow args rf = Some (rf2, \<lparr>tnr_Term = er_term rd, tnr_Accepted = True\<rparr>, Some rd,
          ops1 @ [SaveMeta (rf_term rf1 + 1) n])"
        using False o c e True b(1) by (simp add: TimeoutNow_def Let_def)
      moreover have "round_ok s2 n rf rf2 (Some rd)"
        by (rule round_ok_later [OF _ b(4)]) (use vote_once_observeTerm [OF o] in \<open>simp add: vote_once_def\<close>)
      ultimately show ?thesis using b(3) moves_trans [OF b(2) s1(1)] by blast
    next
      case ne: False
      then show ?thesis by (intro rej) (use False o c e in \<open>simp add: TimeoutNow_def Let_def\<close>)
    qed
  qed
qed

lemma TransferLeadership_total:
  assumes "nsim N s n rf"
  shows "\<exists>r. TransferLeadership rf = Some r"
  using repr_lastTerm [OF nsim_repr [OF assms]] by (auto simp: TransferLeadership_def Let_def)

section \<open>Start-up\<close>

lemma MakeWithWAL_fields [simp]:
  "rf_me (MakeWithWAL n ids (st, ok)) = n" "rf_nodeIDs (MakeWithWAL n ids (st, ok)) = ids"
  "rf_customerId (MakeWithWAL n ids (st, ok)) = Follower"
  by (simp_all add: MakeWithWAL_def Let_def)

lemma persistent_MakeWithWAL: "loads st ok \<Longrightarrow> persistent (MakeWithWAL n ids (st, ok)) = st"
  by (cases st) (auto simp: MakeWithWAL_def Let_def persistent_def loads_def PersistState0_def)

lemma MakeWithWAL_nsim:
  assumes "psim N s n st" "loads st ok"
  shows "nsim N s n (MakeWithWAL n ids (st, ok))"
proof -
  let ?rf = "MakeWithWAL n ids (st, ok)"
  have p: "persistent ?rf = st" by (rule persistent_MakeWithWAL [OF assms(2)])
  have "rf_commitIndex ?rf = rf_snapshotIndex ?rf" "rf_appliedIndex ?rf = rf_snapshotIndex ?rf"
    by (simp_all add: MakeWithWAL_def Let_def)
  moreover have "rf_snapshotIndex ?rf = ps_SnapshotIndex st" "rf_term ?rf = ps_Term st"
    using p persistent_simps(4) [of ?rf] persistent_simps(1) [of ?rf] by simp_all
  moreover have "0 \<le> ps_SnapshotIndex st" "ps_SnapshotIndex st \<le> int (length (sp_log s n))"
    using psimD(2) [OF assms(1)] by (auto simp: repr_def)
  ultimately have "commit_ok N s n ?rf" using psimD(4) [OF assms(1)] by (simp add: commit_ok_def)
  then show ?thesis using p assms(1) by (simp add: nsim_def)
qed

section \<open>Crashes\<close>

text \<open>Wherever a crash stops the writes, the disk stands for a state of the abstract protocol.\<close>

definition crash_ok :: "NodeID set \<Rightarrow> 'c spec \<Rightarrow> NodeID \<Rightarrow> 'c WalOp list \<Rightarrow> 'c PersistState \<Rightarrow> bool" where
  "crash_ok N s n ops st \<longleftrightarrow> (\<forall>st'. wal_crash ops st st' \<longrightarrow> (\<exists>s'. moves N n s s' \<and> psim N s' n st'))"

lemma crash_ok_Nil: "psim N s n st \<Longrightarrow> crash_ok N s n [] st"
  unfolding crash_ok_def using moves_refl by blast

lemma crash_ok_seq:
  assumes "crash_ok N s n ops st" "wal_applys ops st = Some st1" "moves N n s s1" "crash_ok N s1 n ops' st1"
  shows "crash_ok N s n (ops @ ops') st"
proof -
  have "wal_crash (ops @ ops') st st' \<Longrightarrow> wal_applys ops st = Some st1 \<Longrightarrow>
      wal_crash ops st st' \<or> wal_crash ops' st1 st'" for st'
  proof (induction ops arbitrary: st)
    case (Cons op ops)
    have "wal_crash (op # (ops @ ops')) st st'" using Cons.prems(1) by simp
    then show ?case
    proof cases
      case crash_here
      then show ?thesis by (auto intro: wal_crash.crash_here)
    next
      case (crash_after st2)
      then show ?thesis using Cons.IH [of st2] Cons.prems(2) by (auto intro: wal_crash.crash_after)
    next
      case (crash_within j es)
      then show ?thesis by (auto intro: wal_crash.crash_within)
    qed
  qed simp
  then show ?thesis
    using assms moves_trans [OF _ assms(3)] unfolding crash_ok_def by blast
qed

text \<open>A call that is on disk as a whole or not at all.\<close>

fun atomic :: "'c WalOp \<Rightarrow> bool" where
  "atomic (AppendLog es) \<longleftrightarrow> length es \<le> 1"
| "atomic _ \<longleftrightarrow> True"

lemma crash_ok_single:
  assumes "psim N s n st" "wal_apply op st = Some st1" "atomic op" "moves N n s s1" "psim N s1 n st1"
  shows "crash_ok N s n [op] st"
  unfolding crash_ok_def
proof (intro allI impI)
  fix st' assume "wal_crash [op] st st'"
  then have "st' = st \<or> st' = st1"
  proof cases
    case (crash_within j es)
    then have "take j es = [] \<or> take j es = es" using assms(3) by (cases es; cases j) auto
    then show ?thesis using crash_within assms(2) by auto
  qed (use assms(2) in auto)
  then show "\<exists>s'. moves N n s s' \<and> psim N s' n st'" using assms moves_refl by blast
qed

lemma crash_ok_step:
  assumes "nsim N s n rf" "persists rf ops rf'" "ops = [] \<or> (\<exists>op. ops = [op] \<and> atomic op)"
    "\<exists>s'. moves N n s s' \<and> nsim N s' n rf'"
  shows "crash_ok N s n ops (persistent rf)"
proof (cases ops)
  case (Cons op ops')
  then have op: "ops = [op]" "atomic op" using assms(3) by auto
  then have "wal_apply op (persistent rf) = Some (persistent rf')"
    using assms(2) by (auto simp: persists_def)
  then show ?thesis
    using crash_ok_single [OF nsimD(2) [OF assms(1)] _ op(2)] assms(4) nsimD(2) unfolding op(1) by blast
qed (use crash_ok_Nil nsimD(2) [OF assms(1)] in simp)

lemma observeTerm_crash_ok:
  assumes "spec_inv N s" "nsim N s n rf" "observeTerm t rf = (rf', ops)"
  shows "crash_ok N s n ops (persistent rf)"
  by (rule crash_ok_step [OF assms(2) persists_observeTerm [OF assms(3)] _ observeTerm_nsim [OF assms]])
    (use assms(3) in \<open>auto simp: observeTerm_def stepDown_def split: if_splits\<close>)

text \<open>A handler that has observed the term runs as if the message had come in that term.\<close>

lemma observeTerm_same: "rf_term rf = t \<Longrightarrow> observeTerm t rf = (rf, [])"
  by (simp add: observeTerm_def)

lemma RequestVote_observed:
  assumes "\<not> rv_Term args < rf_term rf" "observeTerm (rv_Term args) rf = (rf1, ops1)"
    "RequestVote args rf = Some (rf', reply, ops)"
  shows "\<exists>ops2. RequestVote args rf1 = Some (rf', reply, ops2) \<and> ops = ops1 @ ops2 \<and>
    (ops2 = [] \<or> (\<exists>op. ops2 = [op] \<and> atomic op))"
  using assms observeTerm_term [OF assms(2,1)] observeTerm_same [of rf1 "rv_Term args"]
  by (auto simp: RequestVote_def Let_def split: if_splits)

lemma RequestVote_crash_ok:
  assumes inv: "spec_inv N s" and n: "nsim N s n rf" and a: "vote_args_ok s c args" "c \<noteq> ''''"
    and h: "RequestVote args rf = Some (rf', reply, ops)"
  shows "crash_ok N s n ops (persistent rf)"
proof (cases "rv_Term args < rf_term rf")
  case True
  then show ?thesis using h crash_ok_Nil [OF nsimD(2) [OF n]] by (simp add: RequestVote_def)
next
  case False
  obtain rf1 ops1 where o: "observeTerm (rv_Term args) rf = (rf1, ops1)" by fastforce
  obtain s1 where s1: "moves N n s s1" "nsim N s1 n rf1" using observeTerm_nsim [OF inv n o] by blast
  obtain ops2 where h2: "RequestVote args rf1 = Some (rf', reply, ops2)" "ops = ops1 @ ops2"
    "ops2 = [] \<or> (\<exists>op. ops2 = [op] \<and> atomic op)"
    using RequestVote_observed [OF False o h] by blast
  have "\<exists>s'. moves N n s1 s' \<and> nsim N s' n rf'"
    using RequestVote_nsim [OF moves_inv [OF s1(1) inv] s1(2)
      vote_args_ok_extends [OF moves_extends [OF s1(1)] a(1)] a(2)] h2(1) by auto
  then have "crash_ok N s1 n ops2 (persistent rf1)"
    by (rule crash_ok_step [OF s1(2) persists_RequestVote [OF h2(1)] h2(3)])
  then show ?thesis
    using crash_ok_seq [OF observeTerm_crash_ok [OF inv n o] _ s1(1)] persists_observeTerm [OF o] h2(2)
    by (simp add: persists_def)
qed

lemma TimeoutNow_observed:
  assumes "\<not> tn_Term args < rf_term rf" "observeTerm (tn_Term args) rf = (rf1, ops1)"
    "TimeoutNow args rf = Some (rf', reply, r, ops)" "nsim N s n rf1"
  shows "\<exists>ops2. TimeoutNow args rf1 = Some (rf', reply, r, ops2) \<and> ops = ops1 @ ops2 \<and>
    (ops2 = [] \<or> (\<exists>op. ops2 = [op] \<and> atomic op))"
  using assms(1-3) observeTerm_term [OF assms(2,1)] observeTerm_same [of rf1 "tn_Term args"]
    beginElection_eq [OF assms(4)]
  by (auto simp: TimeoutNow_def Let_def split: if_splits)

lemma TimeoutNow_crash_ok:
  assumes inv: "spec_inv N s" and nN: "n \<in> N" "n \<noteq> ''''" and n: "nsim N s n rf"
    and h: "TimeoutNow args rf = Some (rf', reply, r, ops)"
  shows "crash_ok N s n ops (persistent rf)"
proof (cases "tn_Term args < rf_term rf")
  case True
  then show ?thesis using h crash_ok_Nil [OF nsimD(2) [OF n]] by (simp add: TimeoutNow_def)
next
  case False
  obtain rf1 ops1 where o: "observeTerm (tn_Term args) rf = (rf1, ops1)" by fastforce
  obtain s1 where s1: "moves N n s s1" "nsim N s1 n rf1" using observeTerm_nsim [OF inv n o] by blast
  obtain ops2 where h2: "TimeoutNow args rf1 = Some (rf', reply, r, ops2)" "ops = ops1 @ ops2"
    "ops2 = [] \<or> (\<exists>op. ops2 = [op] \<and> atomic op)"
    using TimeoutNow_observed [OF False o h s1(2)] by blast
  have "\<exists>s'. moves N n s1 s' \<and> nsim N s' n rf'"
    using TimeoutNow_nsim [OF moves_inv [OF s1(1) inv] nN s1(2), of args] h2(1) by auto
  then have "crash_ok N s1 n ops2 (persistent rf1)"
    by (rule crash_ok_step [OF s1(2) persists_TimeoutNow [OF h2(1)] h2(3)])
  then show ?thesis
    using crash_ok_seq [OF observeTerm_crash_ok [OF inv n o] _ s1(1)] persists_observeTerm [OF o] h2(2)
    by (simp add: persists_def)
qed

subsection \<open>A crash between the two writes of an append\<close>

lemma cut_psim:
  assumes inv: "spec_inv N s" and N: "finite N" and n: "nsim N s n rf" and l: "sp_lead s (rf_term rf) \<noteq> None"
    and e: "entries_from s n rf args p k" and k: "k < length (ae_Entries args)"
    and q: "q \<le> length (ae_Entries args) - k"
  shows "\<exists>s'. moves N n s s' \<and> psim N s' n (persistent rf\<lparr>ps_Logs :=
      take (nat (relIdx rf (int (p + k) + 1))) (rf_logs rf) @ take q (drop k (ae_Entries args))\<rparr>)"
proof -
  let ?M = "sp_tlog s (rf_term rf)" and ?kk = "nat (rf_snapshotIndex rf)" and ?j = "p + k + q"
  let ?s = "s\<lparr>sp_log := (sp_log s)(n := take ?j ?M)\<rparr>"
  have a: "p + length (ae_Entries args) \<le> length ?M" "rf_snapshotIndex rf \<le> int p"
    "take (p + k) (sp_log s n) = take (p + k) ?M"
    and c: "\<And>P. prefix P ?M \<Longrightarrow> prefix P (sp_log s n) \<Longrightarrow> length P \<le> p + k"
    using e k by (auto simp: entries_from_def)
  have mv: "moves N n s ?s"
    by (rule cut_moves [OF inv nsim_term [OF n] l]) (use c in fastforce)
  have kk: "?kk \<le> p" "0 \<le> rf_snapshotIndex rf" using a(2) repr_snap(1) [OF nsim_repr [OF n]] by simp_all
  have "take ?kk (take ?j ?M) = take ?kk (take (p + k) ?M)" using kk by (simp add: min_absorb1)
  also have "\<dots> = take ?kk (sp_log s n)" unfolding a(3) [symmetric] using kk by (simp add: min_absorb1)
  finally have tk: "take ?kk (take ?j ?M) = take ?kk (sp_log s n)" .
  have ps: "psim N s n (persistent rf)" by (rule nsimD(2) [OF n])
  have "committed N ?s (rf_term rf) (take ?kk (take ?j ?M))"
    unfolding tk using committed_extends [OF inv moves_extends [OF mv] psimD(4) [OF ps]] by simp
  moreover have "?kk \<le> length (take ?j ?M)" using kk a(1) k q by simp
  ultimately have "psim N ?s n (persistent rf\<lparr>ps_Logs := sentinel (termAt (take ?j ?M) ?kk) # drop ?kk (take ?j ?M)\<rparr>)"
    using ps kk(2) by (simp add: psim_def repr_def)
  then show ?thesis unfolding appendNew_log [OF n e k q] using mv by blast
qed

lemma appendNew_crash_ok:
  assumes inv: "spec_inv N s" and N: "finite N" and n: "nsim N s n rf" and l: "sp_lead s (rf_term rf) \<noteq> None"
    and e: "entries_from s n rf args p k" and k: "k < length (ae_Entries args)"
  shows "crash_ok N s n [TruncateSuffix (int (p + k) + 1), AppendLog (drop k (ae_Entries args))] (persistent rf)"
  unfolding crash_ok_def
proof (intro allI impI)
  let ?es = "drop k (ae_Entries args)" and ?keep = "take (nat (relIdx rf (int (p + k) + 1))) (rf_logs rf)"
  let ?st = "persistent rf\<lparr>ps_Logs := ?keep\<rparr>"
  fix st' assume cr: "wal_crash [TruncateSuffix (int (p + k) + 1), AppendLog ?es] (persistent rf) st'"
  have "rf_snapshotIndex rf \<le> int (p + k)" "p + k \<le> length (sp_log s n)"
    "take (p + k) (sp_log s n) = take (p + k) (sp_tlog s (rf_term rf))"
    using e by (auto simp: entries_from_def)
  note u = logs_upto(2,3) [OF nsim_repr [OF n] this]
  then have tr: "wal_apply (TruncateSuffix (int (p + k) + 1)) (persistent rf) = Some ?st"
    by (simp add: relIdx_def)
  have "\<exists>q \<le> length ?es. st' = persistent rf\<lparr>ps_Logs := ?keep @ take q ?es\<rparr>"
    if "wal_crash [AppendLog ?es] ?st st'"
    using that
  proof cases
    case crash_here
    then show ?thesis by (intro exI [of _ 0]) simp
  next
    case (crash_after st2)
    then show ?thesis by (intro exI [of _ "length ?es"]) auto
  next
    case (crash_within j)
    then show ?thesis by (intro exI [of _ "min j (length ?es)"]) (auto simp: min_def)
  qed
  moreover have "st' = persistent rf \<or> wal_crash [AppendLog ?es] ?st st'"
    using cr by cases (use tr in auto)
  moreover have "\<exists>s'. moves N n s s' \<and> psim N s' n (persistent rf)"
    using moves_refl nsimD(2) [OF n] by blast
  ultimately show "\<exists>s'. moves N n s s' \<and> psim N s' n st'"
    using cut_psim [OF inv N n l e k] by auto
qed

lemma appendEntries_ops:
  assumes "appendEntries args rf = Some (rf', reply, ops)"
  shows "ops = [] \<or> (rf_snapshotIndex rf \<le> ae_PrevLogIndex args \<and> ae_PrevLogIndex args \<le> lastLogIndex rf \<and>
    (\<exists>e rf1. logAt rf (ae_PrevLogIndex args) = Some e \<and> le_Term e = ae_PrevLogTerm args \<and>
      appendNew args rf = Some (rf1, ops)))"
  using assms by (auto simp: appendEntries_def Let_def split: if_splits)

lemma appendEntries_crash_ok:
  assumes inv: "spec_inv N s" and N: "finite N" and n: "nsim N s n rf"
    and a: "append_args_ok N s args" "ae_Snapshot args = None" and t: "rf_term rf = ae_Term args"
    and h: "appendEntries args rf = Some (rf', reply, ops)"
  shows "crash_ok N s n ops (persistent rf)"
proof -
  let ?p = "ae_PrevLogIndex args"
  note b = append_args_entriesD [OF a, folded t] and r = nsim_repr [OF n]
  note nil = crash_ok_Nil [OF nsimD(2) [OF n]]
  from appendEntries_ops [OF h] consider "ops = []" | e rf1 where "rf_snapshotIndex rf \<le> ?p"
    "?p \<le> int (length (sp_log s n))" "logAt rf ?p = Some e" "le_Term e = ae_PrevLogTerm args"
    "appendNew args rf = Some (rf1, ops)"
    using repr_last [OF r] by auto
  then show ?thesis
  proof cases
    case 2
    obtain e' where e': "logAt rf ?p = Some e'" "le_Term e' = termAt (sp_log s n) (nat ?p)"
      by (rule repr_logAt [OF r 2(1,2)])
    have "take (nat ?p) (sp_log s n) = take (nat ?p) (sp_tlog s (rf_term rf))"
      by (rule take_eq_termAt [OF inv inv_groundedD(1) [OF inv] inv_groundedD(2) [OF inv]])
        (use 2 e' b in simp_all)
    then have "\<exists>k. entries_from s n rf args (nat ?p) k"
      by (intro entries_from_ex [OF inv n _ b(3,5)]) (use b(2) 2 in simp_all)
    then obtain k where k: "entries_from s n rf args (nat ?p) k" by blast
    show ?thesis
      using appendNew_eq [OF n k] 2(5) nil appendNew_crash_ok [OF inv N n b(1) k]
      by (auto split: if_splits)
  qed (use nil in simp)
qed

lemma AppendEntriesHandler_observed:
  assumes "\<not> ae_Term args < rf_term rf" "observeTerm (ae_Term args) rf = (rf1, ops1)"
    "AppendEntriesHandler args rf = Some (rf', reply, ops)"
  shows "\<exists>ops2. AppendEntriesHandler args rf1 = Some (rf', reply, ops2) \<and> ops = ops1 @ ops2 \<and>
    (if ae_Snapshot args \<noteq> None then installSnapshot args (resetElectionTimerLocked
        (rf1\<lparr>rf_customerId := Follower, rf_leaderId := ae_LeaderId args\<rparr>))
      else appendEntries args (resetElectionTimerLocked
        (rf1\<lparr>rf_customerId := Follower, rf_leaderId := ae_LeaderId args\<rparr>))) = Some (rf', reply, ops2)"
  using assms observeTerm_term [OF assms(2,1)] observeTerm_same [of rf1 "ae_Term args"]
  by (auto simp: AppendEntriesHandler_def Let_def)

lemma installSnapshot_ops:
  "installSnapshot args rf = Some (rf', reply, ops) \<Longrightarrow> ops = [] \<or> (\<exists>op. ops = [op] \<and> atomic op)"
  by (auto simp: installSnapshot_def Let_def split: if_splits)

lemma AppendEntriesHandler_crash_ok:
  assumes inv: "spec_inv N s" and N: "finite N" and n: "nsim N s n rf" and a: "append_args_ok N s args"
    and h: "AppendEntriesHandler args rf = Some (rf', reply, ops)"
  shows "crash_ok N s n ops (persistent rf)"
proof (cases "ae_Term args < rf_term rf")
  case True
  then show ?thesis using h crash_ok_Nil [OF nsimD(2) [OF n]] by (simp add: AppendEntriesHandler_def)
next
  case False
  obtain rf1 ops1 where o: "observeTerm (ae_Term args) rf = (rf1, ops1)" by fastforce
  obtain s1 where s1: "moves N n s s1" "nsim N s1 n rf1" using observeTerm_nsim [OF inv n o] by blast
  let ?rf = "resetElectionTimerLocked
    (rf1\<lparr>rf_customerId := Follower, rf_leaderId := ae_LeaderId args\<rparr>)"
  note inv1 = moves_inv [OF s1(1) inv] and a1 = append_args_ok_extends [OF inv moves_extends [OF s1(1)] a]
  obtain ops2 where h2: "AppendEntriesHandler args rf1 = Some (rf', reply, ops2)" "ops = ops1 @ ops2"
    "(if ae_Snapshot args \<noteq> None then installSnapshot args ?rf else appendEntries args ?rf) =
      Some (rf', reply, ops2)"
    using AppendEntriesHandler_observed [OF False o h] by blast
  have n1: "nsim N s1 n ?rf" using s1(2) by (simp add: nsim_def psim_def commit_ok_def repr_def)
  have "crash_ok N s1 n ops2 (persistent rf1)"
  proof (cases "ae_Snapshot args = None")
    case True
    have "crash_ok N s1 n ops2 (persistent ?rf)"
      by (rule appendEntries_crash_ok [OF inv1 N n1 a1 True]) (use True h2 observeTerm_term [OF o False] in auto)
    then show ?thesis by (simp add: persistent_def)
  next
    case sn: False
    have "\<exists>s'. moves N n s1 s' \<and> nsim N s' n rf'"
      using AppendEntriesHandler_nsim [OF inv1 N s1(2) a1] h2(1) by auto
    moreover have "ops2 = [] \<or> (\<exists>op. ops2 = [op] \<and> atomic op)"
      by (rule installSnapshot_ops [of args ?rf rf' reply]) (use h2(3) sn in simp)
    ultimately show ?thesis
      by (intro crash_ok_step [OF s1(2) persists_AppendEntriesHandler [OF h2(1)]])
  qed
  then show ?thesis
    using crash_ok_seq [OF observeTerm_crash_ok [OF inv n o] _ s1(1)] persists_observeTerm [OF o] h2(2)
    by (simp add: persists_def)
qed

end
