(* ===== verification/RaftVotes.thy ===== *)
theory RaftVotes
  imports RaftLeader
begin

text \<open>
  Counting votes. A candidate only counts replies, so that it wins with votes of different nodes
  rests on the network: each of its calls is answered at most once. \<open>pending\<close> is the number of
  calls and answers in the network of one candidate in one term with one peer, which is never more
  than one; \<open>votes_ok\<close> says whose votes a candidate has counted.
\<close>

fun traffic :: "NodeID \<Rightarrow> int \<Rightarrow> NodeID \<Rightarrow> 'c msg \<Rightarrow> bool" where
  "traffic a t b (VoteCall a' b' args) \<longleftrightarrow> a' = a \<and> b' = b \<and> rv_Term args = t"
| "traffic a t b (VoteRet a' b' args reply) \<longleftrightarrow> a' = a \<and> b' = b \<and> rv_Term args = t"
| "traffic a t b _ \<longleftrightarrow> False"

definition pending :: "'c msg multiset \<Rightarrow> NodeID \<Rightarrow> int \<Rightarrow> NodeID \<Rightarrow> nat" where
  "pending net a t b = size (filter_mset (traffic a t b) net)"

definition votes_ok :: "NodeID set \<Rightarrow> 'c spec \<Rightarrow> 'c msg multiset \<Rightarrow> NodeID \<Rightarrow> 'c Raft \<Rightarrow> bool" where
  "votes_ok N s net n rf \<longleftrightarrow> (rf_customerId rf = Candidate \<longrightarrow> (\<exists>C \<subseteq> N. int (card C) = rf_voteCount rf \<and>
     (\<forall>q \<in> C. (\<exists>V. sp_vote s q (rf_term rf) = Some (n, V)) \<and> pending net n (rf_term rf) q = 0)))"

definition quiet :: "'c Raft \<Rightarrow> 'c Raft \<Rightarrow> bool" where
  "quiet rf rf' \<longleftrightarrow> (rf_customerId rf' = Candidate \<longrightarrow> rf_customerId rf = Candidate \<and>
     rf_term rf' = rf_term rf \<and> rf_voteCount rf' = rf_voteCount rf)"

lemma pending_plus [simp]: "pending (A + B) a t b = pending A a t b + pending B a t b"
  by (simp add: pending_def)

lemma pending_empty [simp]: "pending {#} a t b = 0"
  by (simp add: pending_def)

lemma pending_diff: "pending (A - B) a t b \<le> pending A a t b"
  unfolding pending_def by (intro size_mset_mono multiset_filter_mono) simp

lemma pending_swap:
  assumes "B \<subseteq># A" "pending C a t b \<le> pending B a t b"
  shows "pending (A - B + C) a t b \<le> pending A a t b"
proof -
  have "pending (A - B + B) a t b = pending A a t b" using assms(1) by simp
  then show ?thesis using assms(2) by simp
qed

lemma pending_remove:
  assumes "m \<in># A" "traffic a t b m"
  shows "pending A a t b = Suc (pending (A - {#m#}) a t b)"
  using assms by (metis filter_mset_add_mset insert_DiffM pending_def size_add_mset)

lemma votes_ok_quiet:
  assumes "votes_ok N s net n rf" "extends s s'" "quiet rf rf'"
    "\<And>t b. pending net' n t b \<le> pending net n t b"
  shows "votes_ok N s' net' n rf'"
  unfolding votes_ok_def
proof
  assume "rf_customerId rf' = Candidate"
  then have q: "rf_customerId rf = Candidate" "rf_term rf' = rf_term rf" "rf_voteCount rf' = rf_voteCount rf"
    using assms(3) by (simp_all add: quiet_def)
  then obtain C where C: "C \<subseteq> N" "int (card C) = rf_voteCount rf"
    "\<And>q. q \<in> C \<Longrightarrow> \<exists>V. sp_vote s q (rf_term rf) = Some (n, V)"
    "\<And>q. q \<in> C \<Longrightarrow> pending net n (rf_term rf) q = 0"
    using assms(1) unfolding votes_ok_def by blast
  have "\<exists>V. sp_vote s' q (rf_term rf) = Some (n, V)" if "q \<in> C" for q
    using C(3) [OF that] assms(2) unfolding extends_def by blast
  moreover have "pending net' n (rf_term rf) q = 0" if "q \<in> C" for q
    using C(4) [OF that] assms(4) [of "rf_term rf" q] by simp
  ultimately show "\<exists>C \<subseteq> N. int (card C) = rf_voteCount rf' \<and> (\<forall>q \<in> C.
      (\<exists>V. sp_vote s' q (rf_term rf') = Some (n, V)) \<and> pending net' n (rf_term rf') q = 0)"
    using C(1,2) q by auto
qed

lemma quiet_refl [simp]: "quiet rf rf"
  by (simp add: quiet_def)

lemma quiet_role: "rf_customerId rf' \<noteq> Candidate \<Longrightarrow> quiet rf rf'"
  by (simp add: quiet_def)

lemma quiet_observeTerm: "observeTerm t rf = (rf', ops) \<Longrightarrow> quiet rf rf'"
  by (auto simp: observeTerm_def stepDown_def quiet_def split: if_splits)

lemma quiet_RequestVote:
  assumes "RequestVote args rf = Some (rf', reply, ops)"
  shows "quiet rf rf'"
proof (cases "rv_Term args < rf_term rf")
  case False
  obtain rf1 ops1 where o: "observeTerm (rv_Term args) rf = (rf1, ops1)" by fastforce
  have "quiet rf1 rf'"
    using assms False o by (auto simp: RequestVote_def Let_def quiet_def split: if_splits)
  then show ?thesis using quiet_observeTerm [OF o] by (auto simp: quiet_def)
qed (use assms in \<open>simp add: RequestVote_def\<close>)

lemma quiet_AppendEntriesHandler:
  assumes "AppendEntriesHandler args rf = Some (rf', reply, ops)"
  shows "quiet rf rf'"
proof (cases "ae_Term args < rf_term rf")
  case False
  have "rf_customerId rf' = Follower"
    using assms False installSnapshot_fields(5) [of args] appendEntries_fields(5) [of args]
    by (fastforce simp: AppendEntriesHandler_def Let_def split: if_splits prod.splits)
  then show ?thesis by (simp add: quiet_def)
qed (use assms in \<open>simp add: AppendEntriesHandler_def\<close>)

lemma quiet_sendAppendEntries:
  "sendAppendEntries p args reply rf = Some (rf', ops) \<Longrightarrow> quiet rf rf'"
  by (auto simp: sendAppendEntries_def Let_def stepDown_def quiet_def dest!: advanceCommit_fields
    split: if_splits)

lemma quiet_others:
  "Start c rf = (rf', res, ops) \<Longrightarrow> quiet rf rf'"
  "Snapshot k sn rf = Some (rf', ops) \<Longrightarrow> quiet rf rf'"
  "ticker g rf = Some (rf', None, ops) \<Longrightarrow> quiet rf rf'"
  "sendApplyMsg rf = Some (rf', ms) \<Longrightarrow> quiet rf rf'"
  by (auto simp: Start_def Snapshot_def ticker_def sendApplyMsg_def Let_def quiet_def split: if_splits)

lemma quiet_TimeoutNow:
  assumes "TimeoutNow args rf = Some (rf', reply, None, ops)"
  shows "quiet rf rf'"
proof (cases "tn_Term args < rf_term rf")
  case False
  obtain rf1 ops1 where o: "observeTerm (tn_Term args) rf = (rf1, ops1)" by fastforce
  have "rf' = rf1" using assms False o by (auto simp: TimeoutNow_def Let_def split: if_splits)
  then show ?thesis using quiet_observeTerm [OF o] by simp
qed (use assms in \<open>simp add: TimeoutNow_def\<close>)

lemma sendRequestVote_counts:
  assumes "sendRequestVote args reply rf = (rf', ops)"
  shows "quiet rf rf' \<or> (rf_customerId rf = Candidate \<and> rvr_VoteGranted reply \<and>
    rf_term rf = rv_Term args \<and> rf_term rf' = rf_term rf \<and> rf_voteCount rf' = rf_voteCount rf + 1)"
  using assms
  by (auto simp: sendRequestVote_def Let_def stepDown_def becomeLeader_def quiet_def split: if_splits)

text \<open>The calls of a new round: one to each of the other nodes.\<close>

lemma pending_voteCalls_filter:
  assumes "distinct ids"
  shows "size (filter_mset (traffic a t b) (mset (map (\<lambda>(b, args). VoteCall n b args)
      (map (\<lambda>id. (id, x)) (filter P ids))))) \<le> (if a = n \<and> t = rv_Term x \<and> b \<in> set ids \<and> P b then 1 else 0)"
  using assms by (induction ids) auto

lemma pending_voteCalls:
  assumes "distinct (rf_nodeIDs rf)"
  shows "pending (mset (voteCalls (Some r) rf)) a t b \<le>
    (if a = rf_me rf \<and> t = er_term r \<and> b \<noteq> rf_me rf then 1 else 0)"
  unfolding pending_def voteCalls_def sendRequestVotes_def option.case
  by (rule order_trans [OF pending_voteCalls_filter [OF assms]]) simp

end
