(* ===== verification/RaftSafety.thy ===== *)
theory RaftSafety
  imports RaftVotes
begin

text \<open>
  The group as a whole. \<open>csim\<close> relates a state of the cluster to a state of the abstract
  protocol; every step of the cluster, crashes included, keeps the relation with some later state
  of the protocol. The safety theorems of the protocol are thereby theorems about the nodes.
\<close>

section \<open>Messages\<close>

fun mok :: "NodeID set \<Rightarrow> 'c spec \<Rightarrow> 'c msg \<Rightarrow> bool" where
  "mok N s (VoteCall a b args) \<longleftrightarrow> a \<in> N \<and> b \<in> N \<and> vote_args_ok s a args"
| "mok N s (VoteRet a b args reply) \<longleftrightarrow> a \<in> N \<and> b \<in> N \<and> vote_args_ok s a args \<and>
     (rvr_VoteGranted reply \<longrightarrow> (\<exists>V. sp_vote s b (rv_Term args) = Some (a, V)))"
| "mok N s (AppendCall a b args) \<longleftrightarrow> b \<in> N \<and> append_args_ok N s args"
| "mok N s (AppendRet a b args reply) \<longleftrightarrow> b \<in> N \<and> append_args_ok N s args \<and>
     (aer_Success reply \<longrightarrow> acked args \<le> sp_ack s b (ae_Term args))"
| "mok N s _ \<longleftrightarrow> True"

lemma mok_extends:
  assumes inv: "spec_inv N s" and ex: "extends s s'" and m: "mok N s m"
  shows "mok N s' m"
proof (cases m)
  case (VoteRet a b args reply)
  have "sp_vote s' b (rv_Term args) = Some v" if "sp_vote s b (rv_Term args) = Some v" for v
    using ex that unfolding extends_def by blast
  then show ?thesis using m VoteRet vote_args_ok_extends [OF ex] by auto
next
  case (AppendRet a b args reply)
  have "sp_ack s b (ae_Term args) \<le> sp_ack s' b (ae_Term args)" using ex by (simp add: extends_def)
  then show ?thesis using m AppendRet append_args_ok_extends [OF inv ex] by auto
qed (use m vote_args_ok_extends [OF ex] append_args_ok_extends [OF inv ex] in auto)

section \<open>A critical section\<close>

text \<open>What a critical section does to the votes that are under way.\<close>

definition votes_step :: "'c spec \<Rightarrow> NodeID \<Rightarrow> 'c input \<Rightarrow> 'c Raft \<Rightarrow> 'c Raft \<Rightarrow> 'c msg list \<Rightarrow> bool" where
  "votes_step s n i rf rf' ms \<longleftrightarrow>
     quiet rf rf' \<and> (\<forall>a t b. pending (mset ms) a t b \<le> pending (consumed i) a t b) \<or>
     (\<exists>r. round_ok s n rf rf' (Some r)) \<and>
       (\<forall>a t b. pending (mset ms) a t b \<le> (if a = n \<and> t = rf_term rf' \<and> b \<noteq> n then 1 else 0)) \<or>
     (\<exists>b args reply. i = Deliver (VoteRet n b args reply) \<and> ms = [] \<and> rvr_VoteGranted reply \<and>
       rf_customerId rf = Candidate \<and> rf_term rf = rv_Term args \<and> rf_term rf' = rf_term rf \<and>
       rf_voteCount rf' = rf_voteCount rf + 1)"

definition step_ok :: "NodeID set \<Rightarrow> 'c spec \<Rightarrow> NodeID \<Rightarrow> 'c input \<Rightarrow> 'c Raft \<Rightarrow> bool" where
  "step_ok N s n i rf \<longleftrightarrow> (\<exists>rf' ms as ops s'. node_step i rf = Some (rf', ms, as, ops) \<and>
     moves N n s s' \<and> nsim N s' n rf' \<and> (\<forall>m \<in> set ms. mok N s' m) \<and> (\<forall>a \<in> set as. apply_ok N s' a) \<and>
     crash_ok N s n ops (persistent rf) \<and> votes_step s' n i rf rf' ms)"

lemma step_okI:
  assumes "node_step i rf = Some (rf', ms, as, ops)" "moves N n s s'" "nsim N s' n rf'"
    "\<And>m. m \<in> set ms \<Longrightarrow> mok N s' m" "\<And>a. a \<in> set as \<Longrightarrow> apply_ok N s' a"
    "crash_ok N s n ops (persistent rf)" "votes_step s' n i rf rf' ms"
  shows "step_ok N s n i rf"
  unfolding step_ok_def using assms by blast

lemma votes_step_quiet:
  "quiet rf rf' \<Longrightarrow> (\<And>a t b. pending (mset ms) a t b \<le> pending (consumed i) a t b) \<Longrightarrow> votes_step s n i rf rf' ms"
  by (simp add: votes_step_def)

lemma pending_single: "pending {#m#} a t b = (if traffic a t b m then 1 else 0)"
  by (simp add: pending_def)

lemma pending_no_votes: "(\<And>m. m \<in> set ms \<Longrightarrow> \<not> traffic a t b m) \<Longrightarrow> pending (mset ms) a t b = 0"
  by (induction ms) (simp_all add: pending_def)

lemma step_ok_same:
  assumes "nsim N s n rf" "node_step i rf = Some (rf', [], [], ops)" "persists rf ops rf'"
    "ops = [] \<or> (\<exists>op. ops = [op] \<and> atomic op)" "\<exists>s'. moves N n s s' \<and> nsim N s' n rf'" "quiet rf rf'"
  shows "step_ok N s n i rf"
proof -
  have "crash_ok N s n ops (persistent rf)" by (rule crash_ok_step [OF assms(1,3,4,5)])
  moreover obtain s' where "moves N n s s'" "nsim N s' n rf'" using assms(5) by blast
  ultimately show ?thesis
    by (intro step_okI [OF assms(2)] votes_step_quiet [OF assms(6)]) simp_all
qed

lemma step_ok_VoteCall:
  assumes "spec_inv N s" "nsim N s n rf" "mok N s (VoteCall a n args)" "'''' \<notin> N" "n \<in> N"
  shows "step_ok N s n (Deliver (VoteCall a n args)) rf"
proof -
  have a: "vote_args_ok s a args" "a \<noteq> ''''" "a \<in> N" using assms(3,4) by auto
  obtain rf' reply ops s' where h: "RequestVote args rf = Some (rf', reply, ops)" "moves N n s s'"
    "nsim N s' n rf'" "rvr_VoteGranted reply \<longrightarrow> (\<exists>V. sp_vote s' n (rv_Term args) = Some (a, V))"
    using RequestVote_nsim [OF assms(1,2) a(1,2)] by blast
  show ?thesis
  proof (rule step_okI [OF _ h(2,3)])
    show "node_step (Deliver (VoteCall a n args)) rf = Some (rf', [VoteRet a n args reply], [], ops)"
      by (simp add: h(1))
    show "votes_step s' n (Deliver (VoteCall a n args)) rf rf' [VoteRet a n args reply]"
      by (rule votes_step_quiet [OF quiet_RequestVote [OF h(1)]]) (simp add: pending_single)
    show "crash_ok N s n ops (persistent rf)" by (rule RequestVote_crash_ok [OF assms(1,2) a(1,2) h(1)])
  qed (use a h(4) assms(5) vote_args_ok_extends [OF moves_extends [OF h(2)]] in auto)
qed

lemma step_ok_AppendCall:
  assumes "spec_inv N s" "finite N" "nsim N s n rf" "mok N s (AppendCall a n args)" "n \<in> N"
  shows "step_ok N s n (Deliver (AppendCall a n args)) rf"
proof -
  have a: "append_args_ok N s args" using assms(4) by simp
  obtain rf' reply ops s' where h: "AppendEntriesHandler args rf = Some (rf', reply, ops)" "moves N n s s'"
    "nsim N s' n rf'" "aer_Success reply \<longrightarrow> acked args \<le> sp_ack s' n (ae_Term args)"
    using AppendEntriesHandler_nsim [OF assms(1-3) a] by blast
  show ?thesis
  proof (rule step_okI [OF _ h(2,3)])
    show "node_step (Deliver (AppendCall a n args)) rf = Some (rf', [AppendRet a n args reply], [], ops)"
      by (simp add: h(1))
    show "votes_step s' n (Deliver (AppendCall a n args)) rf rf' [AppendRet a n args reply]"
      by (rule votes_step_quiet [OF quiet_AppendEntriesHandler [OF h(1)]]) (simp add: pending_single)
    show "crash_ok N s n ops (persistent rf)" by (rule AppendEntriesHandler_crash_ok [OF assms(1-3) a h(1)])
  qed (use h(4) assms(5) append_args_ok_extends [OF assms(1) moves_extends [OF h(2)] a] in auto)
qed

lemma voteCalls_mok:
  assumes "round_ok s n rf rf' r" "rf_me rf' = n" "set (rf_nodeIDs rf') = N" "n \<in> N" "m \<in> set (voteCalls r rf')"
  shows "mok N s m"
  using assms by (auto simp: voteCalls_def sendRequestVotes_def round_ok_def vote_args_ok_def
    split: option.splits)

text \<open>A critical section that may start a round of votes.\<close>

lemma votes_step_round:
  assumes "round_ok s n rf rf' r" "r = None \<Longrightarrow> quiet rf rf'" "rf_me rf' = n" "distinct (rf_nodeIDs rf')"
    "\<And>a t b. pending (mset ms) a t b = 0"
  shows "votes_step s n i rf rf' (ms @ voteCalls r rf')"
proof (cases r)
  case None
  then show ?thesis using assms by (intro votes_step_quiet) (simp_all add: voteCalls_def)
next
  case (Some x)
  have "er_term x = rf_term rf'" using assms(1) Some by (simp add: round_ok_def)
  then show ?thesis
    using pending_voteCalls [OF assms(4), of x] assms Some unfolding votes_step_def by auto
qed

lemma step_ok_VoteRet:
  assumes inv: "spec_inv N s" "finite N" and n: "nsim N s n rf"
    and ids: "set (rf_nodeIDs rf) = N" "distinct (rf_nodeIDs rf)"
    and C: "rf_customerId rf = Candidate \<Longrightarrow> rvr_VoteGranted reply \<Longrightarrow> rf_term rf = rv_Term args \<Longrightarrow>
      \<exists>C \<subseteq> N. int (card C) = rf_voteCount rf + 1 \<and> (\<forall>q \<in> C. \<exists>V. sp_vote s q (rf_term rf) = Some (n, V))"
  shows "step_ok N s n (Deliver (VoteRet n b args reply)) rf"
proof -
  obtain rf' ops where h: "sendRequestVote args reply rf = (rf', ops)" by fastforce
  obtain C where C': "rf_customerId rf = Candidate \<Longrightarrow> rvr_VoteGranted reply \<Longrightarrow> rf_term rf = rv_Term args \<Longrightarrow>
      C \<subseteq> N \<and> int (card C) = rf_voteCount rf + 1 \<and> (\<forall>q \<in> C. \<exists>V. sp_vote s q (rf_term rf) = Some (n, V))"
    using C by meson
  have "\<exists>s'. moves N n s s' \<and> nsim N s' n (fst (sendRequestVote args reply rf))"
    by (rule sendRequestVote_nsim [OF inv n ids C'])
  then obtain s' where s': "moves N n s s'" "nsim N s' n rf'" unfolding h by auto
  have ns: "node_step (Deliver (VoteRet n b args reply)) rf = Some (rf', [], [], ops)" by (simp add: h)
  have cr: "crash_ok N s n ops (persistent rf)"
  proof (rule crash_ok_step [OF n persists_sendRequestVote [OF h]])
    show "ops = [] \<or> (\<exists>op. ops = [op] \<and> atomic op)"
      using h by (auto simp: sendRequestVote_def stepDown_def Let_def split: if_splits)
  qed (use s' in blast)
  have "votes_step s' n (Deliver (VoteRet n b args reply)) rf rf' []"
    using sendRequestVote_counts [OF h] by (auto simp: votes_step_def)
  then show ?thesis by (intro step_okI [OF ns s' _ _ cr]) simp_all
qed

lemma step_ok_AppendRet:
  assumes inv: "spec_inv N s" and n: "nsim N s n rf" "n \<in> N"
    and ids: "set (rf_nodeIDs rf) = N" "distinct (rf_nodeIDs rf)" and m: "mok N s (AppendRet n b args reply)"
  shows "step_ok N s n (Deliver (AppendRet n b args reply)) rf"
proof -
  obtain rf' ops s' where h: "sendAppendEntries b args reply rf = Some (rf', ops)" "moves N n s s'" "nsim N s' n rf'"
    using sendAppendEntries_nsim [OF inv n(1) ids n(2), of args reply b] m by auto
  show ?thesis
  proof (rule step_ok_same [OF n(1) _ persists_sendAppendEntries [OF h(1)] _ _ quiet_sendAppendEntries [OF h(1)]])
    show "node_step (Deliver (AppendRet n b args reply)) rf = Some (rf', [], [], ops)" by (simp add: h(1))
    show "ops = [] \<or> (\<exists>op. ops = [op] \<and> atomic op)"
      using h(1) by (auto simp: sendAppendEntries_def stepDown_def Let_def split: if_splits)
  qed (use h in blast)
qed

lemma step_ok_TimeoutCall:
  assumes inv: "spec_inv N s" and n: "nsim N s n rf" "n \<in> N" "n \<noteq> ''''"
    and ids: "set (rf_nodeIDs rf) = N" "distinct (rf_nodeIDs rf)"
  shows "step_ok N s n (Deliver (TimeoutCall a n args)) rf"
proof -
  obtain rf' reply r ops s' where h: "TimeoutNow args rf = Some (rf', reply, r, ops)" "moves N n s s'"
    "nsim N s' n rf'" "round_ok s' n rf rf' r"
    using TimeoutNow_nsim [OF inv n(2,3,1)] by blast
  have i: "set (rf_nodeIDs rf') = N" "distinct (rf_nodeIDs rf')" "rf_me rf' = n"
    using same_node_rpcs(3) [OF h(1)] ids nsimD(1) [OF h(3)] by (simp_all add: same_node_def)
  show ?thesis
  proof (rule step_okI [OF _ h(2,3)])
    show "node_step (Deliver (TimeoutCall a n args)) rf =
        Some (rf', [TimeoutRet a n args reply] @ voteCalls r rf', [], ops)" by (simp add: h(1))
    show "votes_step s' n (Deliver (TimeoutCall a n args)) rf rf' ([TimeoutRet a n args reply] @ voteCalls r rf')"
      by (rule votes_step_round [OF h(4) _ i(3,2)]) (use quiet_TimeoutNow h(1) in \<open>auto simp: pending_single\<close>)
    show "crash_ok N s n ops (persistent rf)" by (rule TimeoutNow_crash_ok [OF inv n(2,3,1) h(1)])
  qed (use voteCalls_mok [OF h(4) i(3,1) n(2)] in auto)
qed

lemma step_ok_Tick:
  assumes inv: "spec_inv N s" and n: "nsim N s n rf" "n \<in> N" "n \<noteq> ''''"
    and ids: "set (rf_nodeIDs rf) = N" "distinct (rf_nodeIDs rf)"
  shows "step_ok N s n (Tick g) rf"
proof -
  obtain rf' r ops s' where h: "ticker g rf = Some (rf', r, ops)" "moves N n s s'"
    "nsim N s' n rf'" "round_ok s' n rf rf' r"
    using ticker_nsim [OF inv n(2,3,1)] by blast
  have i: "set (rf_nodeIDs rf') = N" "distinct (rf_nodeIDs rf')" "rf_me rf' = n"
    using same_node_others(3) [OF h(1)] ids nsimD(1) [OF h(3)] by (simp_all add: same_node_def)
  have "ops = [] \<or> (\<exists>op. ops = [op] \<and> atomic op)"
    using h(1) beginElection_eq [OF n(1)] by (auto simp: ticker_def split: if_splits)
  then have cr: "crash_ok N s n ops (persistent rf)"
    using crash_ok_step [OF n(1) persists_ticker [OF h(1)]] h(2,3) by blast
  show ?thesis
  proof (rule step_okI [OF _ h(2,3) _ _ cr])
    show "node_step (Tick g) rf = Some (rf', [] @ voteCalls r rf', [], ops)" by (simp add: h(1))
    show "votes_step s' n (Tick g) rf rf' ([] @ voteCalls r rf')"
      by (rule votes_step_round [OF h(4) _ i(3,2)]) (use quiet_others(3) h(1) in auto)
  qed (use voteCalls_mok [OF h(4) i(3,1) n(2)] in auto)
qed

lemma step_ok_Heartbeat:
  assumes "nsim N s n rf" "set (rf_nodeIDs rf) = N"
  shows "step_ok N s n Heartbeat rf"
proof -
  obtain hs where h: "startHeartbeat rf = Some hs" "\<And>b a. (b, a) \<in> set hs \<Longrightarrow> append_args_ok N s a \<and> b \<in> N"
    using startHeartbeat_ok [OF assms] assms(2) by blast
  let ?rf = "rf\<lparr>rf_newEntryCh := False\<rparr>" and ?ms = "map (\<lambda>(b, args). AppendCall (rf_me rf) b args) hs"
  have n: "nsim N s n ?rf" by (rule nsim_cong [OF assms(1)]) (simp_all add: persistent_def)
  show ?thesis
  proof (rule step_okI [OF _ moves_refl n])
    show "node_step Heartbeat rf = Some (?rf, ?ms, [], [])" by (simp add: h(1))
    show "crash_ok N s n [] (persistent rf)" by (rule crash_ok_Nil [OF nsimD(2) [OF assms(1)]])
    have "pending (mset ?ms) a t b = 0" for a t b by (rule pending_no_votes) auto
    then show "votes_step s n Heartbeat rf ?rf ?ms"
      by (intro votes_step_quiet) (simp_all add: quiet_def)
  qed (use h(2) in auto)
qed

lemma step_ok_Command:
  assumes "spec_inv N s" "nsim N s n rf"
  shows "step_ok N s n (Command c) rf"
proof -
  obtain rf' res ops where h: "Start c rf = (rf', res, ops)" using prod_cases3 by blast
  show ?thesis
    by (rule step_ok_same [OF assms(2) _ persists_Start [OF h] _ Start_nsim [OF assms h] quiet_others(1) [OF h]])
      (use h in \<open>auto simp: Start_def Let_def split: if_splits\<close>)
qed

lemma step_ok_TakeSnapshot:
  assumes "nsim N s n rf" "k \<le> rf_appliedIndex rf"
  shows "step_ok N s n (TakeSnapshot k sn) rf"
proof -
  obtain rf' ops where h: "Snapshot k (Some sn) rf = Some (rf', ops)" "nsim N s n rf'"
    using Snapshot_nsim [OF assms] by blast
  show ?thesis
    by (rule step_ok_same [OF assms(1) _ persists_Snapshot [OF h(1)] _ _ quiet_others(2) [OF h(1)]])
      (use h moves_refl [of N n s] in \<open>auto simp: Snapshot_def Let_def split: if_splits\<close>)
qed

lemma step_ok_rest:
  assumes inv: "spec_inv N s" and n: "nsim N s n rf"
  shows "step_ok N s n (Deliver (TimeoutRet n b args reply)) rf" "step_ok N s n Transfer rf"
    "step_ok N s n ApplyLoop rf" "step_ok N s n Stop rf"
proof -
  have nil: "crash_ok N s n [] (persistent rf)" by (rule crash_ok_Nil [OF nsimD(2) [OF n]])
  obtain rf' ops where o: "observeTerm (tnr_Term reply) rf = (rf', ops)" by fastforce
  show "step_ok N s n (Deliver (TimeoutRet n b args reply)) rf"
    by (rule step_ok_same [OF n _ persists_observeTerm [OF o] _ observeTerm_nsim [OF inv n o] quiet_observeTerm [OF o]])
      (use o in \<open>auto simp: TransferLeadership_done_def observeTerm_def stepDown_def split: if_splits\<close>)
  obtain r where r: "TransferLeadership rf = Some r" using TransferLeadership_total [OF n] by blast
  let ?ms = "case r of Inl e \<Rightarrow> [] | Inr (b, args) \<Rightarrow> [TimeoutCall (rf_me rf) b args]"
  have "pending (mset ?ms) a t b = 0" for a t b by (rule pending_no_votes) (auto split: sum.splits)
  then have "votes_step s n Transfer rf rf ?ms" by (intro votes_step_quiet) simp_all
  then show "step_ok N s n Transfer rf"
    by (intro step_okI [OF _ moves_refl n _ _ nil]) (use r in \<open>auto split: sum.splits\<close>)
  obtain rf2 ms where a: "sendApplyMsg rf = Some (rf2, ms)" "nsim N s n rf2" "\<forall>m \<in> set ms. apply_ok N s m"
    using sendApplyMsg_nsim [OF n] by blast
  have "votes_step s n ApplyLoop rf rf2 []" by (rule votes_step_quiet [OF quiet_others(4) [OF a(1)]]) simp
  then show "step_ok N s n ApplyLoop rf"
    by (intro step_okI [OF _ moves_refl a(2) _ _ nil]) (use a in auto)
  have k: "nsim N s n (Kill rf)" by (rule nsim_cong [OF n]) (simp_all add: Kill_def persistent_def)
  have "votes_step s n Stop rf (Kill rf) []" by (rule votes_step_quiet) (simp_all add: Kill_def quiet_def)
  then show "step_ok N s n Stop rf" by (intro step_okI [OF _ moves_refl k _ _ nil]) auto
qed

text \<open>
  The whole node: whatever it is asked to do, it does not fail, and the abstract protocol has moves
  that match what it did.
\<close>

lemma node_step_ok:
  assumes inv: "spec_inv N s" "finite N" "'''' \<notin> N" and n: "nsim N s n rf" "n \<in> N"
    and ids: "set (rf_nodeIDs rf) = N" "distinct (rf_nodeIDs rf)"
    and m: "\<And>m. i = Deliver m \<Longrightarrow> mok N s m \<and> handler m = n"
    and sn: "\<And>k b. i = TakeSnapshot k b \<Longrightarrow> k \<le> rf_appliedIndex rf"
    and C: "\<And>b args reply. i = Deliver (VoteRet n b args reply) \<Longrightarrow>
      rf_customerId rf = Candidate \<Longrightarrow> rvr_VoteGranted reply \<Longrightarrow> rf_term rf = rv_Term args \<Longrightarrow>
      \<exists>C \<subseteq> N. int (card C) = rf_voteCount rf + 1 \<and> (\<forall>q \<in> C. \<exists>V. sp_vote s q (rf_term rf) = Some (n, V))"
  shows "step_ok N s n i rf"
proof (cases i)
  case (Deliver x)
  have ne: "n \<noteq> ''''" using inv(3) n(2) by auto
  have x: "mok N s x" "handler x = n" using m [OF Deliver] by auto
  show ?thesis
  proof (cases x)
    case (VoteCall a b args)
    then show ?thesis using step_ok_VoteCall [OF inv(1) n(1) _ inv(3) n(2)] x Deliver by simp
  next
    case (VoteRet a b args reply)
    then have "i = Deliver (VoteRet n b args reply)" using x Deliver by simp
    then show ?thesis using step_ok_VoteRet [OF inv(1,2) n(1) ids] C by simp
  next
    case (AppendCall a b args)
    then show ?thesis using step_ok_AppendCall [OF inv(1,2) n(1) _ n(2)] x Deliver by simp
  next
    case (AppendRet a b args reply)
    then show ?thesis using step_ok_AppendRet [OF inv(1) n ids] x Deliver by simp
  next
    case (TimeoutCall a b args)
    then show ?thesis using step_ok_TimeoutCall [OF inv(1) n ne ids] x Deliver by simp
  next
    case (TimeoutRet a b args reply)
    then show ?thesis using step_ok_rest(1) [OF inv(1) n(1)] x Deliver by simp
  qed
next
  case (Tick g)
  then show ?thesis using step_ok_Tick [OF inv(1) n _ ids] inv(3) n(2) by auto
qed (use step_ok_Heartbeat [OF n(1) ids(1)] step_ok_Command [OF inv(1) n(1)] step_ok_TakeSnapshot [OF n(1)]
  step_ok_rest(2-4) [OF inv(1) n(1)] sn in auto)

section \<open>The group\<close>

definition csim :: "NodeID list \<Rightarrow> 'c spec \<Rightarrow> 'c cluster \<Rightarrow> bool" where
  "csim ids s c \<longleftrightarrow>
     (\<forall>n \<in> set ids. nsim (set ids) s n (cl_nodes c n) \<and> rf_nodeIDs (cl_nodes c n) = ids \<and>
        cl_disks c n = persistent (cl_nodes c n) \<and> votes_ok (set ids) s (cl_net c) n (cl_nodes c n) \<and>
        (\<forall>a \<in> set (cl_out c n). apply_ok (set ids) s a)) \<and>
     (\<forall>m. m \<in># cl_net c \<longrightarrow> mok (set ids) s m) \<and>
     (\<forall>a t b. pending (cl_net c) a t b \<le> 1)"

lemma csimD:
  assumes "csim ids s c"
  shows "n \<in> set ids \<Longrightarrow> nsim (set ids) s n (cl_nodes c n)"
    "n \<in> set ids \<Longrightarrow> rf_nodeIDs (cl_nodes c n) = ids"
    "n \<in> set ids \<Longrightarrow> cl_disks c n = persistent (cl_nodes c n)"
    "n \<in> set ids \<Longrightarrow> votes_ok (set ids) s (cl_net c) n (cl_nodes c n)"
    "n \<in> set ids \<Longrightarrow> a \<in> set (cl_out c n) \<Longrightarrow> apply_ok (set ids) s a"
    "m \<in># cl_net c \<Longrightarrow> mok (set ids) s m"
    "pending (cl_net c) x t y \<le> 1"
  using assms unfolding csim_def by blast+

lemma csimI:
  assumes "\<And>n. n \<in> set ids \<Longrightarrow> nsim (set ids) s n (cl_nodes c n)"
    "\<And>n. n \<in> set ids \<Longrightarrow> rf_nodeIDs (cl_nodes c n) = ids"
    "\<And>n. n \<in> set ids \<Longrightarrow> cl_disks c n = persistent (cl_nodes c n)"
    "\<And>n. n \<in> set ids \<Longrightarrow> votes_ok (set ids) s (cl_net c) n (cl_nodes c n)"
    "\<And>n a. n \<in> set ids \<Longrightarrow> a \<in> set (cl_out c n) \<Longrightarrow> apply_ok (set ids) s a"
    "\<And>m. m \<in># cl_net c \<Longrightarrow> mok (set ids) s m"
    "\<And>a t b. pending (cl_net c) a t b \<le> 1"
  shows "csim ids s c"
  using assms unfolding csim_def by blast

lemma psim_init: "psim N spec_init n (PersistState0 sn)"
  by (simp add: psim_def PersistState0_def spec_init_def repr_def vote_ok_def)

lemma csim_init: "csim ids (spec_init :: 'c spec) (cluster_init ids sn)"
proof (rule csimI)
  fix n
  have l: "loads (PersistState0 sn :: 'c PersistState) False" by (auto simp: loads_def)
  show "nsim (set ids) (spec_init :: 'c spec) n (cl_nodes (cluster_init ids sn) n)"
    using MakeWithWAL_nsim [OF psim_init l] by (simp add: cluster_init_def)
  show "cl_disks (cluster_init ids sn) n = persistent (cl_nodes (cluster_init ids sn) n :: 'c Raft)"
    by (simp add: cluster_init_def persistent_MakeWithWAL [OF l])
qed (simp_all add: cluster_init_def votes_ok_def)

lemma pending_fresh:
  assumes inv: "spec_inv (set ids) s" and c: "csim ids s c" and n: "n \<in> set ids"
    and t: "rf_term (cl_nodes c n) < t"
  shows "pending (cl_net c) n t b = 0"
proof -
  have "\<not> traffic n t b m" if "m \<in># cl_net c" for m
  proof
    assume tr: "traffic n t b m"
    have "mok (set ids) s m" by (rule csimD(6) [OF c that])
    then obtain L where "sp_cand s n t = Some L" using tr by (cases m) (auto simp: vote_args_ok_def)
    then show False using inv_fresh(2) [OF inv, of n t] nsim_term [OF csimD(1) [OF c n]] t by simp
  qed
  then have "filter_mset (traffic n t b) (cl_net c) = {#}" by (simp add: filter_mset_eq_conv)
  then show ?thesis by (simp add: pending_def)
qed

text \<open>A granted vote is from a node whose vote has not been counted.\<close>

lemma counted_vote:
  assumes c: "csim ids s c" and n: "n \<in> set ids" and m: "VoteRet n b args reply \<in># cl_net c"
    and r: "rf_customerId (cl_nodes c n) = Candidate" "rvr_VoteGranted reply"
      "rf_term (cl_nodes c n) = rv_Term args"
  shows "\<exists>C \<subseteq> set ids. int (card C) = rf_voteCount (cl_nodes c n) + 1 \<and>
    (\<forall>q \<in> C. (\<exists>V. sp_vote s q (rv_Term args) = Some (n, V)) \<and>
      pending (cl_net c - {#VoteRet n b args reply#}) n (rv_Term args) q = 0)"
proof -
  let ?T = "rv_Term args" and ?net = "cl_net c - {#VoteRet n b args reply#}"
  obtain C where C: "C \<subseteq> set ids" "int (card C) = rf_voteCount (cl_nodes c n)"
    "\<And>q. q \<in> C \<Longrightarrow> (\<exists>V. sp_vote s q ?T = Some (n, V)) \<and> pending (cl_net c) n ?T q = 0"
    using csimD(4) [OF c n] r unfolding votes_ok_def by auto
  have "pending (cl_net c) n ?T b = Suc (pending ?net n ?T b)" by (rule pending_remove [OF m]) simp
  then have b: "pending ?net n ?T b = 0" "b \<notin> C" using csimD(7) [OF c, of n ?T b] C(3) [of b] by auto
  have v: "b \<in> set ids" "\<exists>V. sp_vote s b ?T = Some (n, V)" using csimD(6) [OF c m] r(2) by auto
  have "pending ?net n ?T q = 0" if "q \<in> C" for q
    using C(3) [OF that] pending_diff [of "cl_net c" "{#VoteRet n b args reply#}" n ?T q] by simp
  moreover have "finite C" using C(1) finite_subset by blast
  ultimately show ?thesis using C b v by (intro exI [of _ "insert b C"]) auto
qed

lemma enabled_step_ok:
  assumes inv: "spec_inv (set ids) s" and c: "csim ids s c" and ids: "distinct ids" "'''' \<notin> set ids"
    and n: "n \<in> set ids" and e: "enabled c n i"
  shows "step_ok (set ids) s n i (cl_nodes c n)"
proof (rule node_step_ok [OF inv _ ids(2) csimD(1) [OF c n] n])
  fix b args reply
  assume i: "i = Deliver (VoteRet n b args reply)" and r: "rf_customerId (cl_nodes c n) = Candidate"
    "rvr_VoteGranted reply" "rf_term (cl_nodes c n) = rv_Term args"
  have m: "VoteRet n b args reply \<in># cl_net c" using e i by simp
  show "\<exists>C \<subseteq> set ids. int (card C) = rf_voteCount (cl_nodes c n) + 1 \<and>
      (\<forall>q \<in> C. \<exists>V. sp_vote s q (rf_term (cl_nodes c n)) = Some (n, V))"
    unfolding r(3) using counted_vote [OF c n m r] by blast
qed (use e csimD(2) [OF c n] csimD(6) [OF c] ids in auto)

lemma consumed_sub: "enabled c n i \<Longrightarrow> consumed i \<subseteq># cl_net c"
  by (cases i) simp_all

section \<open>Steps\<close>

lemma votes_ok_step:
  assumes inv: "spec_inv (set ids) s" and c: "csim ids s c" and n: "n \<in> set ids" and e: "enabled c n i"
    and ex: "extends s s'" and v: "votes_step s' n i (cl_nodes c n) rf' ms"
  shows "votes_ok (set ids) s' (cl_net c - consumed i + mset ms) n rf'"
proof -
  let ?net = "cl_net c - consumed i + mset ms" and ?rf = "cl_nodes c n"
  from v consider (quiet) "quiet ?rf rf'" "\<And>a t b. pending (mset ms) a t b \<le> pending (consumed i) a t b"
    | (round) r where "round_ok s' n ?rf rf' (Some r)"
        "\<And>a t b. pending (mset ms) a t b \<le> (if a = n \<and> t = rf_term rf' \<and> b \<noteq> n then 1 else 0)"
    | (counted) b args reply where "i = Deliver (VoteRet n b args reply)" "ms = []" "rvr_VoteGranted reply"
        "rf_customerId ?rf = Candidate" "rf_term ?rf = rv_Term args" "rf_term rf' = rf_term ?rf"
        "rf_voteCount rf' = rf_voteCount ?rf + 1"
    unfolding votes_step_def by blast
  then show ?thesis
  proof cases
    case quiet
    show ?thesis
      by (rule votes_ok_quiet [OF csimD(4) [OF c n] ex quiet(1) pending_swap [OF consumed_sub [OF e] quiet(2)]])
  next
    case round
    have r: "rf_term ?rf < rf_term rf'" "rf_voteCount rf' = 1" "\<exists>V. sp_vote s' n (rf_term rf') = Some (n, V)"
      using round(1) by (auto simp: round_ok_def)
    have "pending ?net n (rf_term rf') n = 0"
      using pending_fresh [OF inv c n r(1), of n] round(2) [of n "rf_term rf'" n]
        pending_diff [of "cl_net c" "consumed i" n "rf_term rf'" n] by simp
    then show ?thesis unfolding votes_ok_def using r n by (intro impI exI [of _ "{n}"]) simp
  next
    case counted
    have m: "VoteRet n b args reply \<in># cl_net c" using e counted(1) by simp
    obtain C where C: "C \<subseteq> set ids" "int (card C) = rf_voteCount rf'"
      "\<And>q. q \<in> C \<Longrightarrow> \<exists>V. sp_vote s q (rf_term rf') = Some (n, V)"
      "\<And>q. q \<in> C \<Longrightarrow> pending ?net n (rf_term rf') q = 0"
      using counted_vote [OF c n m counted(4,3,5)] counted by auto
    have "\<exists>V. sp_vote s' q (rf_term rf') = Some (n, V)" if "q \<in> C" for q
      using C(3) [OF that] ex unfolding extends_def by blast
    then show ?thesis unfolding votes_ok_def using C by blast
  qed
qed

lemma pending_step:
  assumes inv: "spec_inv (set ids) s" and c: "csim ids s c" and n: "n \<in> set ids" and e: "enabled c n i"
    and v: "votes_step s' n i (cl_nodes c n) rf' ms"
  shows "a \<noteq> n \<Longrightarrow> pending (cl_net c - consumed i + mset ms) a t b \<le> pending (cl_net c) a t b"
    "pending (cl_net c - consumed i + mset ms) a t b \<le> 1"
proof -
  let ?net = "cl_net c - consumed i + mset ms" and ?rf = "cl_nodes c n"
  have old: "pending (cl_net c) a t b \<le> 1" by (rule csimD(7) [OF c])
  have d: "pending (cl_net c - consumed i) a t b \<le> pending (cl_net c) a t b" by (rule pending_diff)
  from v consider (quiet) "pending (mset ms) a t b \<le> pending (consumed i) a t b"
    | (round) r where "round_ok s' n ?rf rf' (Some r)"
        "pending (mset ms) a t b \<le> (if a = n \<and> t = rf_term rf' \<and> b \<noteq> n then 1 else 0)"
    | (counted) "ms = []"
    unfolding votes_step_def by blast
  then have "(a \<noteq> n \<longrightarrow> pending ?net a t b \<le> pending (cl_net c) a t b) \<and> pending ?net a t b \<le> 1"
  proof cases
    case quiet
    then have "pending ?net a t b \<le> pending (cl_net c) a t b" by (rule pending_swap [OF consumed_sub [OF e]])
    then show ?thesis using old by simp
  next
    case round
    have "rf_term ?rf < rf_term rf'" using round(1) by (simp add: round_ok_def)
    then have "pending (cl_net c) n (rf_term rf') b = 0" by (rule pending_fresh [OF inv c n])
    then show ?thesis using round(2) old d by (auto split: if_splits)
  next
    case counted
    then show ?thesis using d old by simp
  qed
  then show "a \<noteq> n \<Longrightarrow> pending ?net a t b \<le> pending (cl_net c) a t b" "pending ?net a t b \<le> 1" by auto
qed

lemma csim_act:
  assumes inv: "spec_inv (set ids) s" and c: "csim ids s c" and ids: "distinct ids" "'''' \<notin> set ids"
    and n: "n \<in> set ids" and e: "enabled c n i" and h: "node_step i (cl_nodes c n) = Some (rf', ms, as, ops)"
    and w: "wal_applys ops (cl_disks c n) = Some st'"
  shows "\<exists>s'. moves (set ids) n s s' \<and>
    csim ids s' (c\<lparr>cl_nodes := (cl_nodes c)(n := rf'), cl_disks := (cl_disks c)(n := st'),
       cl_net := cl_net c - consumed i + mset ms, cl_out := (cl_out c)(n := cl_out c n @ as)\<rparr>)"
    (is "\<exists>s'. _ \<and> csim ids s' ?c")
proof -
  let ?N = "set ids"
  obtain s' where s': "moves ?N n s s'" "nsim ?N s' n rf'" "\<And>m. m \<in> set ms \<Longrightarrow> mok ?N s' m"
    "\<And>a. a \<in> set as \<Longrightarrow> apply_ok ?N s' a" and v: "votes_step s' n i (cl_nodes c n) rf' ms"
    using enabled_step_ok [OF inv c ids n e] h unfolding step_ok_def by auto
  note ex = moves_extends [OF s'(1)] and fr = moves_frame [OF s'(1)]
  have st: "st' = persistent rf'"
    using persists_node_step [OF h] w csimD(3) [OF c n] by (simp add: persists_def)
  have "csim ids s' ?c"
  proof (rule csimI)
    fix m assume m: "m \<in> ?N"
    show "nsim ?N s' m (cl_nodes ?c m)"
      using s'(2) nsim_frame [OF inv fr _ csimD(1) [OF c m]] by simp
    show "rf_nodeIDs (cl_nodes ?c m) = ids"
      using csimD(2) [OF c m] csimD(2) [OF c n] same_node_step [OF h] by (simp add: same_node_def)
    show "cl_disks ?c m = persistent (cl_nodes ?c m)" using st csimD(3) [OF c m] by simp
    show "votes_ok ?N s' (cl_net ?c) m (cl_nodes ?c m)"
      using votes_ok_step [OF inv c n e ex v]
        votes_ok_quiet [OF csimD(4) [OF c m] ex quiet_refl pending_step(1) [OF inv c n e v]] by simp
    show "apply_ok ?N s' a" if "a \<in> set (cl_out ?c m)" for a
      using that s'(4) apply_ok_extends [OF inv ex csimD(5) [OF c m]] by (auto split: if_splits)
  next
    show "mok ?N s' m" if "m \<in># cl_net ?c" for m
      using that s'(3) mok_extends [OF inv ex csimD(6) [OF c]] by (auto dest: in_diffD)
    show "pending (cl_net ?c) a t b \<le> 1" for a t b
      using pending_step(2) [OF inv c n e v] by simp
  qed
  then show ?thesis using s'(1) by blast
qed

lemma csim_shrink:
  assumes inv: "spec_inv (set ids) s" and c: "csim ids s c" and n: "n \<in> set ids"
    and mv: "moves (set ids) n s s'" and p: "psim (set ids) s' n st'" and ok: "loads st' ok"
  shows "csim ids s' (c\<lparr>cl_nodes := (cl_nodes c)(n := MakeWithWAL n ids (st', ok)),
       cl_disks := (cl_disks c)(n := st'), cl_net := cl_net c - M\<rparr>)" (is "csim ids s' ?c")
proof (rule csimI)
  let ?N = "set ids"
  note ex = moves_extends [OF mv] and fr = moves_frame [OF mv]
  fix m assume m: "m \<in> ?N"
  show "nsim ?N s' m (cl_nodes ?c m)"
    using MakeWithWAL_nsim [OF p ok] nsim_frame [OF inv fr _ csimD(1) [OF c m]] by simp
  show "rf_nodeIDs (cl_nodes ?c m) = ids" using csimD(2) [OF c m] by simp
  show "cl_disks ?c m = persistent (cl_nodes ?c m)"
    using csimD(3) [OF c m] persistent_MakeWithWAL [OF ok] by simp
  show "votes_ok ?N s' (cl_net ?c) m (cl_nodes ?c m)"
    using votes_ok_quiet [OF csimD(4) [OF c m] ex quiet_refl pending_diff, of M]
    by (auto simp: votes_ok_def)
  show "apply_ok ?N s' a" if "a \<in> set (cl_out ?c m)" for a
    using that apply_ok_extends [OF inv ex csimD(5) [OF c m]] by simp
next
  note ex = moves_extends [OF mv]
  show "mok (set ids) s' m" if "m \<in># cl_net ?c" for m
    using that mok_extends [OF inv ex csimD(6) [OF c]] by (auto dest: in_diffD)
  show "pending (cl_net ?c) a t b \<le> 1" for a t b
    using pending_diff [of "cl_net c" M a t b] csimD(7) [OF c, of a t b] by simp
qed

lemma csim_lose:
  assumes "csim ids s c"
  shows "csim ids s (c\<lparr>cl_net := cl_net c - M\<rparr>)" (is "csim ids s ?c")
proof (rule csimI)
  fix m assume m: "m \<in> set ids"
  show "votes_ok (set ids) s (cl_net ?c) m (cl_nodes ?c m)"
    using votes_ok_quiet [OF csimD(4) [OF assms m] extends_refl quiet_refl pending_diff] by simp
next
  show "pending (cl_net ?c) a t b \<le> 1" for a t b
    using pending_diff [of "cl_net c" M a t b] csimD(7) [OF assms, of a t b] by simp
qed (use csimD [OF assms] in \<open>auto dest: in_diffD\<close>)

text \<open>Every step of the group is matched by moves of the abstract protocol.\<close>

theorem cluster_refines:
  assumes "distinct ids" "'''' \<notin> set ids" "cluster_reach ids c"
  shows "\<exists>s. spec_reach (set ids) s \<and> csim ids s c"
  using assms(3)
proof (induction rule: cluster_reach.induct)
  case init
  then show ?case using spec_reach.init csim_init by blast
next
  case (step c c')
  then obtain s where s: "spec_reach (set ids) s" "csim ids s c" by blast
  note inv = spec_reach_inv [OF s(1)]
  from step.hyps(2) show ?case
  proof cases
    case (act n i rf' ms as ops st')
    then show ?thesis
      using csim_act [OF inv s(2) assms(1,2) act(2-5)] moves_reach s(1) by blast
  next
    case (crash n i rf' ms as ops st' ok)
    have "crash_ok (set ids) s n ops (persistent (cl_nodes c n))"
      using enabled_step_ok [OF inv s(2) assms(1,2) crash(2,3)] crash(4) unfolding step_ok_def by auto
    then obtain s' where "moves (set ids) n s s'" "psim (set ids) s' n st'"
      using crash(5) csimD(3) [OF s(2) crash(2)] unfolding crash_ok_def by auto
    then show ?thesis
      using csim_shrink [OF inv s(2) crash(2) _ _ crash(6)] moves_reach s(1) crash(1) by blast
  next
    case (lose m)
    then show ?thesis using csim_lose [OF s(2)] s(1) by blast
  qed
qed

end
