(* ===== verification/RaftProperties.thy ===== *)
theory RaftProperties
  imports RaftSafety
begin

text \<open>
  The safety properties of a group of Raft nodes, as consequences of the refinement, and an
  execution of a group of two nodes on which each of them applies: an election, a command that is
  replicated and committed, and its delivery on both nodes.
\<close>

section \<open>An execution\<close>

fun run :: "NodeID list \<Rightarrow> (NodeID \<times> 'c input) list \<Rightarrow> 'c cluster \<Rightarrow> 'c cluster option" where
  "run ids [] c = Some c"
| "run ids ((n, i) # acts) c =
     (if n \<in> set ids \<and> enabled c n i then do {
        (rf', ms, as, ops) \<leftarrow> node_step i (cl_nodes c n);
        st' \<leftarrow> wal_applys ops (cl_disks c n);
        run ids acts (c\<lparr>cl_nodes := (cl_nodes c)(n := rf'), cl_disks := (cl_disks c)(n := st'),
          cl_net := cl_net c - consumed i + mset ms, cl_out := (cl_out c)(n := cl_out c n @ as)\<rparr>) }
      else None)"

lemma run_reach: "cluster_reach ids c \<Longrightarrow> run ids acts c = Some c' \<Longrightarrow> cluster_reach ids c'"
proof (induction ids acts c rule: run.induct)
  case (2 ids n i acts c)
  from "2.prems"(2) obtain rf' ms as ops st' where
    s: "n \<in> set ids" "enabled c n i" "node_step i (cl_nodes c n) = Some (rf', ms, as, ops)"
      "wal_applys ops (cl_disks c n) = Some st'" and
    r: "run ids acts (c\<lparr>cl_nodes := (cl_nodes c)(n := rf'), cl_disks := (cl_disks c)(n := st'),
          cl_net := cl_net c - consumed i + mset ms, cl_out := (cl_out c)(n := cl_out c n @ as)\<rparr>) = Some c'"
    by (auto split: if_splits)
  show ?case
    by (rule "2.IH" [OF _ s(3) _ _ _ s(4) cluster_reach.step [OF "2.prems"(1) cluster_step.act [OF s]] r])
      (use s in auto)
qed simp

definition demo_vote :: RequestVoteArgs where
  "demo_vote = \<lparr>rv_Term = 1, rv_CandidateId = ''a'', rv_LastLogIndex = 0, rv_LastLogTerm = 0\<rparr>"

definition demo_append :: "int \<Rightarrow> int \<Rightarrow> 'c log \<Rightarrow> int \<Rightarrow> 'c AppendEntries" where
  "demo_append prev prevTerm es commit = \<lparr>ae_Term = 1, ae_LeaderId = ''a'', ae_PrevLogIndex = prev,
     ae_PrevLogTerm = prevTerm, ae_Entries = es, ae_LeaderCommit = commit, ae_Snapshot = None,
     ae_SnapshotIndex = 0, ae_SnapshotTerm = 0\<rparr>"

definition demo_election :: "(NodeID \<times> 'c input) list" where
  "demo_election = [(''a'', Tick 0), (''b'', Deliver (VoteCall ''a'' ''b'' demo_vote)),
     (''a'', Deliver (VoteRet ''a'' ''b'' demo_vote \<lparr>rvr_Term = 1, rvr_VoteGranted = True\<rparr>))]"

definition demo_commit :: "(NodeID \<times> nat input) list" where
  "demo_commit =
     (let ok = \<lparr>aer_Term = 1, aer_Success = True, aer_LastMatchIndex = 0\<rparr>;
          e = \<lparr>le_Command = Some 7, le_Term = 1\<rparr>
      in [(''a'', Command (Some 7)), (''a'', Heartbeat),
        (''b'', Deliver (AppendCall ''a'' ''b'' (demo_append 0 0 [e] 0))),
        (''a'', Deliver (AppendRet ''a'' ''b'' (demo_append 0 0 [e] 0) ok)), (''a'', ApplyLoop),
        (''a'', Heartbeat), (''b'', Deliver (AppendCall ''a'' ''b'' (demo_append 1 1 [] 1))),
        (''b'', ApplyLoop)])"

lemmas demo_defs = demo_vote_def demo_append_def demo_election_def demo_commit_def Let_def
  cluster_init_def MakeWithWAL_def PersistState0_def ticker_def beginElectionLocked_def
  lastLogTerm_def lastLogIndex_def resetElectionTimerLocked_def voteCalls_def sendRequestVotes_def
  RequestVote_def observeTerm_def stepDown_def sendRequestVote_def becomeLeader_def Start_def
  startHeartbeat_def heartbeatArgs_def logAt_def relIdx_def sentinel_def AppendEntriesHandler_def
  appendEntries_def appendNew_def sendAppendEntries_def countMatches_def sendApplyMsg_def
  snapshotMsg_def commandMsg_def sl_get_def sl_from_def sl_upto_def sl_range_def

lemma demo_leader:
  "\<exists>c. run [''a'', ''b''] demo_election (cluster_init [''a'', ''b''] None) = Some c \<and>
     rf_customerId (cl_nodes c ''a'') = Leader \<and> rf_term (cl_nodes c ''a'') = 1"
  by (simp add: demo_defs)

lemma demo_committed:
  "\<exists>c. run [''a'', ''b''] (demo_election @ demo_commit) (cluster_init [''a'', ''b''] None) = Some c \<and>
     rf_customerId (cl_nodes c ''a'') = Leader \<and> rf_term (cl_nodes c ''a'') = 1 \<and>
     rf_term (cl_nodes c ''b'') = 1 \<and>
     logAt (cl_nodes c ''a'') 1 = Some \<lparr>le_Command = Some 7, le_Term = 1\<rparr> \<and>
     logAt (cl_nodes c ''b'') 1 = Some \<lparr>le_Command = Some 7, le_Term = 1\<rparr> \<and>
     rf_snapshotIndex (cl_nodes c ''a'') = 0 \<and> rf_snapshotIndex (cl_nodes c ''b'') = 0 \<and>
     rf_commitIndex (cl_nodes c ''b'') = 1 \<and>
     cl_out c ''a'' = [commandMsg (Some 7) 1] \<and> cl_out c ''b'' = [commandMsg (Some 7) 1]"
  by (simp add: demo_defs)

section \<open>Safety\<close>

text \<open>The entry a node has at an index behind its snapshot is the one of the log it stands for.\<close>

lemma csim_logAt:
  assumes "csim ids s c" "n \<in> set ids" "rf_snapshotIndex (cl_nodes c n) < i" "logAt (cl_nodes c n) i = Some e"
  shows "i \<le> int (length (sp_log s n))" "0 < i" "e = sp_log s n ! (nat i - 1)"
proof -
  note r = nsim_repr [OF csimD(1) [OF assms(1,2)]]
  have "relIdx (cl_nodes c n) i < int (length (rf_logs (cl_nodes c n)))"
    using assms(4) by (auto simp: logAt_def sl_get_eq_Some_iff)
  then show i: "i \<le> int (length (sp_log s n))"
    using repr_last [OF r] by (simp add: relIdx_def lastLogIndex_def)
  show "0 < i" using repr_snap(1) [OF r] assms(3) by simp
  show "e = sp_log s n ! (nat i - 1)"
    using repr_logAt [OF r _ i] assms(3,4) by (metis less_imp_le option.inject)
qed

lemma csim_logAt_prefix:
  assumes c: "csim ids s c" "n \<in> set ids" "m \<in> set ids"
    and t: "take k (sp_log s n) = take k (sp_log s m)" "k \<le> length (sp_log s n)" "k \<le> length (sp_log s m)"
    and i: "rf_snapshotIndex (cl_nodes c n) < i" "rf_snapshotIndex (cl_nodes c m) < i" "i \<le> int k"
  shows "logAt (cl_nodes c n) i = logAt (cl_nodes c m) i"
proof -
  note r = nsim_repr [OF csimD(1) [OF c(1,2)]] and r' = nsim_repr [OF csimD(1) [OF c(1,3)]]
  have "i \<le> int (length (sp_log s n))" "i \<le> int (length (sp_log s m))" using t i by simp_all
  moreover have "sp_log s n ! (nat i - 1) = sp_log s m ! (nat i - 1)"
  proof -
    have "nat i - 1 < k" using i repr_snap(1) [OF r] by simp
    then show ?thesis using t(1) by (metis nth_take)
  qed
  ultimately show ?thesis
    using repr_logAt [OF r, of i] repr_logAt [OF r', of i] i by (metis less_imp_le)
qed

lemma committed_log_shared:
  assumes inv: "spec_inv N s" and N: "finite N" and n: "nsim N s n rf" and m: "nsim N s m rf'"
    and l: "rf_customerId rf' = Leader" and t: "rf_term rf \<le> rf_term rf'"
  shows "prefix (take (nat (rf_commitIndex rf)) (sp_log s n)) (sp_log s m)"
proof -
  obtain L Q where lead: "sp_lead s (rf_term rf') = Some (m, L, Q)" "sp_log s m = sp_tlog s (rf_term rf')"
    using nsim_leader [OF m l] by blast
  have "committed N s (rf_term rf') (take (nat (rf_commitIndex rf)) (sp_log s n))"
    by (rule committed_later [OF commit_okD(4) [OF nsimD(3) [OF n]] t])
  then show ?thesis using committed_in_tlog [OF inv N _ , of "rf_term rf'"] lead by simp
qed

lemma election_safety:
  assumes "distinct ids" "'''' \<notin> set ids" "cluster_reach ids c" "n \<in> set ids" "m \<in> set ids"
    "rf_customerId (cl_nodes c n) = Leader" "rf_customerId (cl_nodes c m) = Leader"
    "rf_term (cl_nodes c n) = rf_term (cl_nodes c m)"
  shows "n = m"
proof -
  obtain s where s: "csim ids s c" using cluster_refines [OF assms(1-3)] by blast
  obtain L Q where "sp_lead s (rf_term (cl_nodes c n)) = Some (n, L, Q)"
    by (rule nsim_leader [OF csimD(1) [OF s assms(4)] assms(6)])
  moreover obtain L' Q' where "sp_lead s (rf_term (cl_nodes c m)) = Some (m, L', Q')"
    by (rule nsim_leader [OF csimD(1) [OF s assms(5)] assms(7)])
  ultimately show ?thesis unfolding assms(8) by simp
qed

text \<open>
  C2. Election safety. In every state a group of nodes can reach, with messages lost, delayed and
  reordered and with crashes at any point of a node's writes, two nodes that are leaders in the same
  term are the same node.
\<close>

theorem raft_election_safety:
  assumes "distinct ids" "'''' \<notin> set ids" "cluster_reach ids c" "n \<in> set ids" "m \<in> set ids"
    "rf_customerId (cl_nodes c n) = Leader" "rf_customerId (cl_nodes c m) = Leader"
    "rf_term (cl_nodes c n) = rf_term (cl_nodes c m)"
  shows "n = m"
  by (rule election_safety [OF assms])

theorem raft_election_safety_witness:
  "\<exists>c :: nat cluster. cluster_reach [''a'', ''b''] c \<and> rf_customerId (cl_nodes c ''a'') = Leader \<and>
     (\<forall>m \<in> set [''a'', ''b'']. rf_customerId (cl_nodes c m) = Leader \<and>
       rf_term (cl_nodes c m) = rf_term (cl_nodes c ''a'') \<longrightarrow> m = ''a'')"
proof -
  obtain c :: "nat cluster" where c: "run [''a'', ''b''] demo_election (cluster_init [''a'', ''b''] None) = Some c"
    "rf_customerId (cl_nodes c ''a'') = Leader" using demo_leader by blast
  have r: "cluster_reach [''a'', ''b''] c" by (rule run_reach [OF cluster_reach.init c(1)])
  show ?thesis
    using c(2) r raft_election_safety [OF _ _ r, of _ "''a''"] by (intro exI [of _ c]) simp
qed

lemma state_machine_safety:
  assumes "distinct ids" "'''' \<notin> set ids" "cluster_reach ids c" "n \<in> set ids" "m \<in> set ids"
    "a \<in> set (cl_out c n)" "b \<in> set (cl_out c m)" "am_CommandValid a" "am_CommandValid b"
    "am_CommandIndex a = am_CommandIndex b"
  shows "am_Command a = am_Command b"
proof -
  obtain s where s: "spec_reach (set ids) s" "csim ids s c" using cluster_refines [OF assms(1-3)] by blast
  let ?i = "am_CommandIndex b" and ?N = "set ids"
  obtain T P where P: "committed ?N s T P" "0 < ?i" "?i \<le> int (length P)" "am_Command a = le_Command (P ! (nat ?i - 1))"
    using csimD(5) [OF s(2) assms(4,6)] assms(8,10) by (auto simp: apply_ok_def)
  obtain U R where R: "committed ?N s U R" "?i \<le> int (length R)" "am_Command b = le_Command (R ! (nat ?i - 1))"
    using csimD(5) [OF s(2) assms(5,7)] assms(9) by (auto simp: apply_ok_def)
  have "prefix P R \<or> prefix R P"
    by (rule committed_agree [OF spec_reach_inv [OF s(1)] _ P(1) R(1)]) simp
  then have "P ! (nat ?i - 1) = R ! (nat ?i - 1)"
    using prefix_nthD [of P R "nat ?i - 1"] prefix_nthD [of R P "nat ?i - 1"] P(2,3) R(2) by auto
  then show ?thesis using P(4) R(3) by simp
qed

text \<open>
  C4. State machine safety. If two nodes of the group, or one node before and after a crash, hand a
  command with the same index to their services, it is the same command.
\<close>

theorem raft_state_machine_safety:
  assumes "distinct ids" "'''' \<notin> set ids" "cluster_reach ids c" "n \<in> set ids" "m \<in> set ids"
    "a \<in> set (cl_out c n)" "b \<in> set (cl_out c m)" "am_CommandValid a" "am_CommandValid b"
    "am_CommandIndex a = am_CommandIndex b"
  shows "am_Command a = am_Command b"
  by (rule state_machine_safety [OF assms])

theorem raft_state_machine_safety_witness:
  "\<exists>c. cluster_reach [''a'', ''b''] c \<and> cl_out c ''a'' = [commandMsg (Some (7 :: nat)) 1] \<and>
     (\<exists>b. b \<in> set (cl_out c ''b'') \<and> am_CommandIndex b = 1 \<and> am_Command b = Some 7)"
proof -
  obtain c where c: "run [''a'', ''b''] (demo_election @ demo_commit) (cluster_init [''a'', ''b''] None) = Some c"
    "cl_out c ''a'' = [commandMsg (Some 7) 1]" "cl_out c ''b'' = [commandMsg (Some 7) 1]"
    using demo_committed by blast
  have r: "cluster_reach [''a'', ''b''] c" by (rule run_reach [OF cluster_reach.init c(1)])
  show ?thesis
    using raft_state_machine_safety [OF _ _ r, of "''b''" "''a''" "commandMsg (Some 7) 1" "commandMsg (Some 7) 1"] c r
    by (intro exI [of _ c]) (simp add: commandMsg_def)
qed

text \<open>
  C5. Log matching. If the logs of two nodes have an entry of the same term at the same index, they
  have the same entries at that index and at every earlier index that neither has compacted away.
\<close>

theorem raft_log_matching:
  assumes "distinct ids" "'''' \<notin> set ids" "cluster_reach ids c" "n \<in> set ids" "m \<in> set ids"
    "rf_snapshotIndex (cl_nodes c n) < i" "rf_snapshotIndex (cl_nodes c m) < i"
    "logAt (cl_nodes c n) i = Some e" "logAt (cl_nodes c m) i = Some e'" "le_Term e = le_Term e'"
    "rf_snapshotIndex (cl_nodes c n) < j" "rf_snapshotIndex (cl_nodes c m) < j" "j \<le> i"
  shows "logAt (cl_nodes c n) j = logAt (cl_nodes c m) j"
proof -
  obtain s where s: "spec_reach (set ids) s" "csim ids s c" using cluster_refines [OF assms(1-3)] by blast
  note inv = spec_reach_inv [OF s(1)]
  note a = csim_logAt [OF s(2) assms(4,6,8)] and b = csim_logAt [OF s(2) assms(5,7,9)]
  have k: "nat i \<le> length (sp_log s n)" "nat i \<le> length (sp_log s m)" using a(1) b(1) by simp_all
  have "Suc (nat i - 1) = nat i" using a(2) by simp
  then have "take (nat i) (sp_log s n) = take (nat i) (sp_log s m)"
    using grounded_match [OF inv_groundedD(1) [OF inv] inv_groundedD(1) [OF inv], of "nat i - 1" n m]
      k a(3) b(3) assms(10) by simp
  then show ?thesis
    by (rule csim_logAt_prefix [OF s(2) assms(4,5) _ k assms(11,12)]) (use assms(13) a(2) in simp)
qed

theorem raft_log_matching_witness:
  "\<exists>c. cluster_reach [''a'', ''b''] c \<and> rf_snapshotIndex (cl_nodes c ''a'') < 1 \<and>
     logAt (cl_nodes c ''a'') 1 = Some \<lparr>le_Command = Some (7 :: nat), le_Term = 1\<rparr> \<and>
     logAt (cl_nodes c ''a'') 1 = logAt (cl_nodes c ''b'') 1"
proof -
  obtain c :: "nat cluster" where
    c: "run [''a'', ''b''] (demo_election @ demo_commit) (cluster_init [''a'', ''b''] None) = Some c"
    "logAt (cl_nodes c ''a'') 1 = Some \<lparr>le_Command = Some 7, le_Term = 1\<rparr>"
    "logAt (cl_nodes c ''b'') 1 = Some \<lparr>le_Command = Some 7, le_Term = 1\<rparr>"
    "rf_snapshotIndex (cl_nodes c ''a'') = 0" "rf_snapshotIndex (cl_nodes c ''b'') = 0"
    using demo_committed by blast
  have r: "cluster_reach [''a'', ''b''] c" by (rule run_reach [OF cluster_reach.init c(1)])
  have "logAt (cl_nodes c ''a'') 1 = logAt (cl_nodes c ''b'') 1"
    by (rule raft_log_matching [OF _ _ r _ _ _ _ c(2,3)]) (simp_all add: c)
  then show ?thesis using c r by auto
qed

text \<open>
  C6. Leader completeness. A leader whose term is at least that of another node has every entry the
  other node has committed: its log is at least as long, and the entries are the same wherever
  neither has compacted them away.
\<close>

theorem raft_leader_has_committed:
  assumes "distinct ids" "'''' \<notin> set ids" "cluster_reach ids c" "n \<in> set ids" "m \<in> set ids"
    "rf_customerId (cl_nodes c m) = Leader" "rf_term (cl_nodes c n) \<le> rf_term (cl_nodes c m)"
  shows "rf_commitIndex (cl_nodes c n) \<le> lastLogIndex (cl_nodes c m) \<and>
    (\<forall>i. max (rf_snapshotIndex (cl_nodes c n)) (rf_snapshotIndex (cl_nodes c m)) < i \<longrightarrow>
       i \<le> rf_commitIndex (cl_nodes c n) \<longrightarrow> logAt (cl_nodes c n) i = logAt (cl_nodes c m) i)"
proof -
  obtain s where s: "spec_reach (set ids) s" "csim ids s c" using cluster_refines [OF assms(1-3)] by blast
  note inv = spec_reach_inv [OF s(1)] and n = csimD(1) [OF s(2) assms(4)] and m = csimD(1) [OF s(2) assms(5)]
  let ?k = "nat (rf_commitIndex (cl_nodes c n))"
  have p: "prefix (take ?k (sp_log s n)) (sp_log s m)"
    by (rule committed_log_shared [OF inv _ n m assms(6,7)]) simp
  have k: "?k \<le> length (sp_log s n)" using commit_okD(2) [OF nsimD(3) [OF n]] by simp
  have t: "take ?k (sp_log s n) = take ?k (sp_log s m)" using p k by (simp add: prefix_take_iff min_absorb2)
  have k': "?k \<le> length (sp_log s m)" using prefix_length_le [OF p] k by simp
  then show ?thesis
    using csim_logAt_prefix [OF s(2) assms(4,5) t k k'] repr_last [OF nsim_repr [OF m]] by auto
qed

theorem raft_leader_has_committed_witness:
  "\<exists>c. cluster_reach [''a'', ''b''] c \<and> rf_customerId (cl_nodes c ''a'') = Leader \<and>
     rf_commitIndex (cl_nodes c ''b'') = 1 \<and> (1 :: int) \<le> lastLogIndex (cl_nodes (c :: nat cluster) ''a'')"
proof -
  obtain c :: "nat cluster" where
    c: "run [''a'', ''b''] (demo_election @ demo_commit) (cluster_init [''a'', ''b''] None) = Some c"
    "rf_customerId (cl_nodes c ''a'') = Leader" "rf_term (cl_nodes c ''a'') = 1"
    "rf_term (cl_nodes c ''b'') = 1" "rf_commitIndex (cl_nodes c ''b'') = 1"
    using demo_committed by blast
  have r: "cluster_reach [''a'', ''b''] c" by (rule run_reach [OF cluster_reach.init c(1)])
  show ?thesis using raft_leader_has_committed [OF _ _ r, of "''b''" "''a''"] c r by auto
qed

text \<open>
  C8. No critical section of a reachable node fails: no slice expression of the handlers is out of
  range and \<open>Snapshot\<close> never reaches its \<open>log.Fatalf\<close>, whatever message arrives.
\<close>

theorem raft_no_panic:
  assumes "distinct ids" "'''' \<notin> set ids" "cluster_reach ids c" "n \<in> set ids" "enabled c n i"
  shows "node_step i (cl_nodes c n) \<noteq> None"
proof -
  obtain s where s: "spec_reach (set ids) s" "csim ids s c" using cluster_refines [OF assms(1-3)] by blast
  show ?thesis
    using enabled_step_ok [OF spec_reach_inv [OF s(1)] s(2) assms(1,2,4,5)] unfolding step_ok_def by auto
qed

theorem raft_no_panic_witness:
  "\<exists>c :: nat cluster. cluster_reach [''a'', ''b''] c \<and> cl_out c ''a'' \<noteq> [] \<and>
     node_step Heartbeat (cl_nodes c ''a'') \<noteq> None"
proof -
  obtain c :: "nat cluster" where
    c: "run [''a'', ''b''] (demo_election @ demo_commit) (cluster_init [''a'', ''b''] None) = Some c"
    "cl_out c ''a'' = [commandMsg (Some 7) 1]"
    using demo_committed by blast
  have r: "cluster_reach [''a'', ''b''] c" by (rule run_reach [OF cluster_reach.init c(1)])
  show ?thesis using raft_no_panic [OF _ _ r, of "''a''" Heartbeat] c r by auto
qed

text \<open>
  C9. The indices of a reachable node are in order: the snapshot covers no more than what is
  committed, nothing is applied that is not committed, nothing is committed that is not in the log,
  and a snapshot that covers something is kept.
\<close>

theorem raft_indices:
  assumes "distinct ids" "'''' \<notin> set ids" "cluster_reach ids c" "n \<in> set ids"
  shows "0 \<le> rf_snapshotIndex (cl_nodes c n) \<and> rf_snapshotIndex (cl_nodes c n) \<le> rf_commitIndex (cl_nodes c n) \<and>
    rf_appliedIndex (cl_nodes c n) \<le> rf_commitIndex (cl_nodes c n) \<and>
    rf_commitIndex (cl_nodes c n) \<le> lastLogIndex (cl_nodes c n) \<and>
    (0 < rf_snapshotIndex (cl_nodes c n) \<longrightarrow> rf_snapshot (cl_nodes c n) \<noteq> None)"
proof -
  obtain s where s: "csim ids s c" using cluster_refines [OF assms(1-3)] by blast
  note n = csimD(1) [OF s assms(4)]
  show ?thesis
    using commit_okD [OF nsimD(3) [OF n]] psimD(5) [OF nsimD(2) [OF n]] repr_snap [OF nsim_repr [OF n]]
      repr_last [OF nsim_repr [OF n]] by simp
qed

theorem raft_indices_witness:
  "\<exists>c :: nat cluster. cluster_reach [''a'', ''b''] c \<and> rf_commitIndex (cl_nodes c ''b'') = 1 \<and>
     rf_appliedIndex (cl_nodes c ''b'') \<le> 1 \<and> 1 \<le> lastLogIndex (cl_nodes c ''b'')"
proof -
  obtain c :: "nat cluster" where
    c: "run [''a'', ''b''] (demo_election @ demo_commit) (cluster_init [''a'', ''b''] None) = Some c"
    "rf_commitIndex (cl_nodes c ''b'') = 1"
    using demo_committed by blast
  have r: "cluster_reach [''a'', ''b''] c" by (rule run_reach [OF cluster_reach.init c(1)])
  show ?thesis using raft_indices [OF _ _ r, of "''b''"] c r by auto
qed

text \<open>
  C7. Refinement. Every reachable state of the group is the image of a reachable state of the
  abstract protocol: the terms are the same, and what a node keeps on disk is the suffix of its
  abstract log behind the snapshot.
\<close>

theorem raft_refines_protocol:
  assumes "distinct ids" "'''' \<notin> set ids" "cluster_reach ids c"
  shows "\<exists>s. spec_reach (set ids) s \<and> (\<forall>n \<in> set ids. sp_term s n = rf_term (cl_nodes c n) \<and>
    repr (cl_disks c n) (sp_log s n) \<and> cl_disks c n = persistent (cl_nodes c n))"
proof -
  obtain s where s: "spec_reach (set ids) s" "csim ids s c" using cluster_refines [OF assms] by blast
  then show ?thesis
    using csimD(3) [OF s(2)] nsim_term [OF csimD(1) [OF s(2)]] nsim_repr [OF csimD(1) [OF s(2)]]
    by (intro exI [of _ s]) simp
qed

theorem raft_refines_protocol_witness:
  "\<exists>c :: nat cluster. cluster_reach [''a'', ''b''] c \<and> rf_term (cl_nodes c ''a'') = 1 \<and>
     (\<exists>s. spec_reach {''a'', ''b''} s \<and> sp_term s ''a'' = 1 \<and> repr (cl_disks c ''a'') (sp_log s ''a''))"
proof -
  obtain c :: "nat cluster" where
    c: "run [''a'', ''b''] (demo_election @ demo_commit) (cluster_init [''a'', ''b''] None) = Some c"
    "rf_term (cl_nodes c ''a'') = 1"
    using demo_committed by blast
  have r: "cluster_reach [''a'', ''b''] c" by (rule run_reach [OF cluster_reach.init c(1)])
  show ?thesis using raft_refines_protocol [OF _ _ r] c r by (intro exI [of _ c]) auto
qed

end
