(* ===== verification/WalContract.thy ===== *)
theory WalContract
  imports RaftSafety
begin

text \<open>
  What Raft relies on when it is given an implementation of the interface \<open>WAL\<close>
  (\<open>raft1/wal.go\<close>), and what follows for a group of nodes that run on one. A provider is the
  record of its operations on its own state: a call, a call that the process dies in, and the restart
  of the process, which opens the log and calls \<open>Load\<close>. The contract is a refinement of \<open>WalSpec\<close>: calls act as
  \<open>wal_apply\<close>, a death during a call acts as \<open>wal_crash\<close>.
\<close>

record ('c, 'w) provider =
  wp_ok :: "'c WalOp \<Rightarrow> bool"
  wp_call :: "'c WalOp \<Rightarrow> 'w \<Rightarrow> 'w option"
  wp_crash :: "'c WalOp \<Rightarrow> 'w \<Rightarrow> 'w \<Rightarrow> bool"
  wp_restart :: "'w \<Rightarrow> ('w \<times> 'c PersistState \<times> bool) option"

fun wal_calls :: "('c, 'w) provider \<Rightarrow> 'c WalOp list \<Rightarrow> 'w \<Rightarrow> 'w option" where
  "wal_calls P [] w = Some w"
| "wal_calls P (op # ops) w = do { w' \<leftarrow> wp_call P op w; wal_calls P ops w' }"

text \<open>The process dies between two calls or during one of them and is restarted.\<close>

inductive wal_fails :: "('c, 'w) provider \<Rightarrow> 'c WalOp list \<Rightarrow> 'w \<Rightarrow> 'w \<Rightarrow> 'c PersistState \<times> bool \<Rightarrow> bool"
  for P where
  between: "wp_restart P w = Some (w', loaded) \<Longrightarrow> wal_fails P ops w w' loaded"
| during: "wp_crash P op w w1 \<Longrightarrow> wp_restart P w1 = Some (w', loaded) \<Longrightarrow> wal_fails P (op # ops) w w' loaded"
| later: "wp_call P op w = Some w1 \<Longrightarrow> wal_fails P ops w1 w' loaded \<Longrightarrow> wal_fails P (op # ops) w w' loaded"

section \<open>A group of nodes on a provider\<close>

record ('c, 'w) wgroup =
  wg_nodes :: "NodeID \<Rightarrow> 'c Raft"
  wg_wals :: "NodeID \<Rightarrow> 'w"
  wg_net :: "'c msg multiset"
  wg_out :: "NodeID \<Rightarrow> 'c ApplyMsg list"

definition view :: "('w \<Rightarrow> 'c PersistState) \<Rightarrow> ('c, 'w) wgroup \<Rightarrow> 'c cluster" where
  "view \<alpha> g = \<lparr>cl_nodes = wg_nodes g, cl_disks = \<alpha> \<circ> wg_wals g, cl_net = wg_net g, cl_out = wg_out g\<rparr>"

text \<open>The part of \<open>enabled\<close> that reads the group does not look at the disks.\<close>

definition can :: "('c, 'w) wgroup \<Rightarrow> NodeID \<Rightarrow> 'c input \<Rightarrow> bool" where
  "can g n i \<longleftrightarrow> enabled (view (\<lambda>_. PersistState0 None) g) n i"

lemma can_view: "can g n i \<longleftrightarrow> enabled (view \<alpha> g) n i"
  by (cases i) (simp_all add: can_def view_def)

inductive wgroup_step :: "('c, 'w) provider \<Rightarrow> NodeID list \<Rightarrow> ('c, 'w) wgroup \<Rightarrow> ('c, 'w) wgroup \<Rightarrow> bool"
  for P ids where
  w_act: "n \<in> set ids \<Longrightarrow> can g n i \<Longrightarrow> node_step i (wg_nodes g n) = Some (rf', ms, as, ops) \<Longrightarrow>
     \<forall>op \<in> set ops. wp_ok P op \<Longrightarrow> wal_calls P ops (wg_wals g n) = Some w' \<Longrightarrow>
     wgroup_step P ids g (g\<lparr>wg_nodes := (wg_nodes g)(n := rf'), wg_wals := (wg_wals g)(n := w'),
       wg_net := wg_net g - consumed i + mset ms, wg_out := (wg_out g)(n := wg_out g n @ as)\<rparr>)"
| w_crash: "n \<in> set ids \<Longrightarrow> can g n i \<Longrightarrow> node_step i (wg_nodes g n) = Some (rf', ms, as, ops) \<Longrightarrow>
     \<forall>op \<in> set ops. wp_ok P op \<Longrightarrow> wal_fails P ops (wg_wals g n) w' loaded \<Longrightarrow>
     wgroup_step P ids g (g\<lparr>wg_nodes := (wg_nodes g)(n := MakeWithWAL n ids loaded),
       wg_wals := (wg_wals g)(n := w'), wg_net := wg_net g - consumed i\<rparr>)"
| w_lose: "m \<in># wg_net g \<Longrightarrow> wgroup_step P ids g (g\<lparr>wg_net := wg_net g - {#m#}\<rparr>)"

text \<open>The group starts on empty disks.\<close>

inductive wgroup_reach :: "('c, 'w) provider \<Rightarrow> 'w \<Rightarrow> NodeID list \<Rightarrow> ('c, 'w) wgroup \<Rightarrow> bool" for P d0 ids where
  w_init: "wp_restart P d0 = Some (w0, loaded) \<Longrightarrow> wgroup_reach P d0 ids
     \<lparr>wg_nodes = (\<lambda>n. MakeWithWAL n ids loaded), wg_wals = (\<lambda>_. w0), wg_net = {#}, wg_out = (\<lambda>_. [])\<rparr>"
| w_step: "wgroup_reach P d0 ids g \<Longrightarrow> wgroup_step P ids g g' \<Longrightarrow> wgroup_reach P d0 ids g'"

section \<open>The contract\<close>

definition load_agrees :: "('c PersistState \<times> bool) \<Rightarrow> 'c PersistState \<Rightarrow> bool" where
  "load_agrees loaded st \<longleftrightarrow>
     (if snd loaded then fst loaded = st else st = PersistState0 (ps_Snapshot (fst loaded)))"

lemma MakeWithWAL_agrees:
  "load_agrees loaded st \<Longrightarrow> MakeWithWAL n ids loaded = MakeWithWAL n ids (st, snd loaded)"
  by (cases loaded) (auto simp: load_agrees_def MakeWithWAL_def PersistState0_def split: if_splits)

lemma MakeWithWAL_fresh:
  "MakeWithWAL n ids (PersistState0 sn, ok) = MakeWithWAL n ids (PersistState0 sn, False)"
  by (cases ok) (simp_all add: MakeWithWAL_def PersistState0_def)

lemma loads_agrees: "load_agrees loaded st \<Longrightarrow> loads st (snd loaded)"
  by (auto simp: load_agrees_def loads_def split: if_splits)

text \<open>A disk on which a node starts for the first time.\<close>

definition fresh :: "('c, 'w) provider \<Rightarrow> ('w \<Rightarrow> bool) \<Rightarrow> ('w \<Rightarrow> 'c PersistState) \<Rightarrow> 'w \<Rightarrow> bool" where
  "fresh P I \<alpha> d0 \<longleftrightarrow> (\<exists>w0 loaded sn. wp_restart P d0 = Some (w0, loaded) \<and> I w0 \<and>
     \<alpha> w0 = PersistState0 sn \<and> load_agrees loaded (\<alpha> w0))"

locale wal_contract =
  fixes P :: "('c, 'w) provider" and inv :: "'w \<Rightarrow> bool" and \<alpha> :: "'w \<Rightarrow> 'c PersistState"
  assumes call: "inv w \<Longrightarrow> wp_ok P op \<Longrightarrow> wal_apply op (\<alpha> w) = Some st \<Longrightarrow>
      \<exists>w'. wp_call P op w = Some w' \<and> inv w' \<and> \<alpha> w' = st"
    and crash: "inv w \<Longrightarrow> wp_ok P op \<Longrightarrow> wal_apply op (\<alpha> w) \<noteq> None \<Longrightarrow> wp_crash P op w w1 \<Longrightarrow>
      \<exists>w' loaded. wp_restart P w1 = Some (w', loaded) \<and> inv w' \<and> load_agrees loaded (\<alpha> w') \<and>
        wal_crash [op] (\<alpha> w) (\<alpha> w')"
    and restart: "inv w \<Longrightarrow>
      \<exists>w' loaded. wp_restart P w = Some (w', loaded) \<and> inv w' \<and> load_agrees loaded (\<alpha> w') \<and> \<alpha> w' = \<alpha> w"
begin

lemma calls:
  "inv w \<Longrightarrow> \<forall>op \<in> set ops. wp_ok P op \<Longrightarrow> wal_applys ops (\<alpha> w) = Some st \<Longrightarrow>
     \<exists>w'. wal_calls P ops w = Some w' \<and> inv w' \<and> \<alpha> w' = st"
proof (induction ops arbitrary: w)
  case (Cons op ops)
  from Cons.prems(3) obtain s1 where s1: "wal_apply op (\<alpha> w) = Some s1" "wal_applys ops s1 = Some st"
    by auto
  obtain w1 where w1: "wp_call P op w = Some w1" "inv w1" "\<alpha> w1 = s1"
    using call [OF Cons.prems(1) _ s1(1)] Cons.prems(2) by auto
  then show ?case using Cons.IH [of w1] Cons.prems(2) s1(2) by simp
qed simp

lemma wal_crash_one: "wal_crash [op] s s' \<Longrightarrow> wal_crash (op # ops) s s'"
  by (erule wal_crash_ConsE) (auto intro: wal_crash.intros)

lemma fails:
  "wal_fails P ops w w' loaded \<Longrightarrow> inv w \<Longrightarrow> \<forall>op \<in> set ops. wp_ok P op \<Longrightarrow> wal_applys ops (\<alpha> w) \<noteq> None \<Longrightarrow>
     inv w' \<and> load_agrees loaded (\<alpha> w') \<and> wal_crash ops (\<alpha> w) (\<alpha> w')"
proof (induction rule: wal_fails.induct)
  case (between w w' loaded ops)
  then show ?case using restart [of w] by (auto intro: wal_crash.intros)
next
  case (during op w w1 w' loaded ops)
  then show ?case using crash [of w op w1] by (auto intro: wal_crash_one)
next
  case (later op w w1 ops w' loaded)
  then obtain s1 where s1: "wal_apply op (\<alpha> w) = Some s1" "wal_applys ops s1 \<noteq> None" by auto
  have "inv w1 \<and> \<alpha> w1 = s1" using call [of w op s1] later s1(1) by auto
  then show ?case using later.IH later.prems(2) s1 by (auto intro: wal_crash.intros)
qed

lemma step_view:
  assumes ids: "distinct ids" "'''' \<notin> set ids" and r: "cluster_reach ids (view \<alpha> g)"
    and inv: "\<And>n. inv (wg_wals g n)" and s: "wgroup_step P ids g g'"
  shows "cluster_step ids (view \<alpha> g) (view \<alpha> g') \<and> (\<forall>n. inv (wg_wals g' n))"
proof -
  obtain s where "csim ids s (view \<alpha> g)" using cluster_refines [OF ids r] by blast
  then have disk: "\<alpha> (wg_wals g n) = persistent (wg_nodes g n)" if "n \<in> set ids" for n
    using csimD(3) [of ids s "view \<alpha> g" n] that by (simp add: view_def)
  have app: "wal_applys ops (\<alpha> (wg_wals g n)) = Some (persistent rf')"
    if "n \<in> set ids" "node_step i (wg_nodes g n) = Some (rf', ms, as, ops)" for n i rf' ms as ops
    using persists_node_step [OF that(2)] disk [OF that(1)] by (simp add: persists_def)
  from s show ?thesis
  proof cases
    case (w_act n i rf' ms as ops w')
    have "inv w' \<and> \<alpha> w' = persistent rf'"
      using calls [OF inv w_act(5) app [OF w_act(2,4)]] w_act(6) by auto
    then show ?thesis
      using inv w_act cluster_step.act [of n ids "view \<alpha> g" i rf' ms as ops] app [OF w_act(2,4)]
      by (auto simp: view_def can_view [of _ _ _ \<alpha>] fun_upd_comp)
  next
    case (w_crash n i rf' ms as ops w' loaded)
    have w': "inv w' \<and> wal_crash ops (\<alpha> (wg_wals g n)) (\<alpha> w')" and ld: "load_agrees loaded (\<alpha> w')"
      using fails [OF w_crash(6) inv w_crash(5)] app [OF w_crash(2,4)] by simp_all
    then show ?thesis
      using inv w_crash w' loads_agrees [OF ld] MakeWithWAL_agrees [OF ld, of n ids]
        cluster_step.crash [of n ids "view \<alpha> g" i rf' ms as ops "\<alpha> w'" "snd loaded"]
      by (auto simp: view_def can_view [of _ _ _ \<alpha>] fun_upd_comp)
  next
    case (w_lose m)
    then show ?thesis using inv cluster_step.lose [of m "view \<alpha> g" ids] by (simp add: view_def)
  qed
qed

text \<open>A group of nodes on the provider is a group of nodes on the specification.\<close>

lemma reach_view:
  assumes "distinct ids" "'''' \<notin> set ids" "fresh P inv \<alpha> d0" "wgroup_reach P d0 ids g"
  shows "cluster_reach ids (view \<alpha> g) \<and> (\<forall>n. inv (wg_wals g n))"
  using assms(4)
proof induction
  case (w_init w0 loaded)
  then obtain sn where w0: "load_agrees loaded (PersistState0 sn)" "inv w0" "\<alpha> w0 = PersistState0 sn"
    using assms(3) unfolding fresh_def by auto
  from this(1) have "MakeWithWAL n ids loaded = MakeWithWAL n ids (PersistState0 sn, False)" for n
    using MakeWithWAL_agrees MakeWithWAL_fresh by metis
  then have "view \<alpha> \<lparr>wg_nodes = (\<lambda>n. MakeWithWAL n ids loaded), wg_wals = (\<lambda>_. w0), wg_net = {#},
      wg_out = (\<lambda>_. [])\<rparr> = cluster_init ids sn"
    by (simp add: view_def cluster_init_def w0(3) comp_def)
  then show ?case using w0(2) by (auto intro: cluster_reach.init)
next
  case (w_step g g')
  then show ?case using step_view [OF assms(1,2), of g g'] cluster_reach.step by blast
qed

text \<open>A call that Raft makes does not fail, so the process goes on.\<close>

lemma reach_calls:
  assumes "distinct ids" "'''' \<notin> set ids" "fresh P inv \<alpha> d0" "wgroup_reach P d0 ids g"
    "n \<in> set ids" "can g n i"
  shows "\<exists>rf' ms as ops. node_step i (wg_nodes g n) = Some (rf', ms, as, ops) \<and>
    ((\<forall>op \<in> set ops. wp_ok P op) \<longrightarrow> (\<exists>w'. wal_calls P ops (wg_wals g n) = Some w' \<and>
      (\<exists>w'' loaded. wp_restart P w' = Some (w'', loaded) \<and> load_agrees loaded (persistent rf'))))"
proof -
  have r: "cluster_reach ids (view \<alpha> g)" and inv: "inv (wg_wals g n)" using reach_view [OF assms(1-4)] by auto
  obtain s where s: "spec_reach (set ids) s" "csim ids s (view \<alpha> g)" using cluster_refines [OF assms(1,2) r] by blast
  have disk: "\<alpha> (wg_wals g n) = persistent (wg_nodes g n)"
    using csimD(3) [OF s(2) assms(5)] by (simp add: view_def)
  have "enabled (view \<alpha> g) n i" using assms(6) can_view by blast
  then have "step_ok (set ids) s n i (wg_nodes g n)"
    using enabled_step_ok [OF spec_reach_inv [OF s(1)] s(2) assms(1,2,5)] by (simp add: view_def)
  then obtain rf' ms as ops where h: "node_step i (wg_nodes g n) = Some (rf', ms, as, ops)"
    unfolding step_ok_def by blast
  have app: "wal_applys ops (\<alpha> (wg_wals g n)) = Some (persistent rf')"
    using persists_node_step [OF h] by (simp add: persists_def disk)
  show ?thesis using h calls [OF inv _ app] restart by metis
qed

end

end
