(* ===== verification/RecordLog.thy ===== *)
theory RecordLog
  imports Prelude
begin

text \<open>
  The framed record log of \<open>wal/record.go\<close>: a record is a length and a checksum, each four
  bytes in big-endian order, and the payload. \<open>replayRecords\<close> reads records until the first
  that is cut off or damaged. The checksum is the CRC-32 of \<open>hash/crc32\<close>, bit by bit.
\<close>

unbundle bit_operations_syntax

section \<open>Words as bytes\<close>

text \<open>\<open>binary.BigEndian.PutUint32\<close> and \<open>Uint32\<close>\<close>

definition putUint32 :: "32 word \<Rightarrow> bytes" where
  "putUint32 w = [ucast (drop_bit 24 w), ucast (drop_bit 16 w), ucast (drop_bit 8 w), ucast w]"

definition getUint32 :: "bytes \<Rightarrow> 32 word" where
  "getUint32 bs = push_bit 24 (ucast (bs ! 0)) OR push_bit 16 (ucast (bs ! 1)) OR
     push_bit 8 (ucast (bs ! 2)) OR ucast (bs ! 3)"

lemma length_putUint32 [simp]: "length (putUint32 w) = 4"
  by (simp add: putUint32_def)

lemma getUint32_put: "getUint32 (putUint32 w @ bs) = w"
proof (rule bit_word_eqI)
  fix n assume n: "n < LENGTH(32)"
  then consider "n < 8" | "8 \<le> n" "n < 16" | "16 \<le> n" "n < 24" | "24 \<le> n" "n < 32" by fastforce
  then show "bit (getUint32 (putUint32 w @ bs)) n = bit w n"
    by cases (auto simp: getUint32_def putUint32_def bit_simps)
qed

lemma getUint32_take: "4 \<le> n \<Longrightarrow> n \<le> length bs \<Longrightarrow> getUint32 (take n bs) = getUint32 bs"
  by (simp add: getUint32_def)

section \<open>The checksum\<close>

definition crc_bit :: "32 word \<Rightarrow> 32 word" where
  "crc_bit c = (if bit c 0 then drop_bit 1 c XOR 0xEDB88320 else drop_bit 1 c)"

definition crc_byte :: "32 word \<Rightarrow> byte \<Rightarrow> 32 word" where
  "crc_byte c b = (crc_bit ^^ 8) (c XOR ucast b)"

definition ChecksumIEEE :: "bytes \<Rightarrow> 32 word" where
  "ChecksumIEEE bs = NOT (foldl crc_byte (NOT 0) bs)"

text \<open>The top bit of the polynomial is set, so a step of the checksum loses nothing.\<close>

lemma xor_cancel_right: "a XOR c = b XOR c \<longleftrightarrow> a = b" for a b c :: "'w::len word"
  by (auto simp: bit_eq_iff bit_simps)

lemma xor_cancel_left: "c XOR a = c XOR b \<longleftrightarrow> a = b" for a b c :: "'w::len word"
  by (auto simp: bit_eq_iff bit_simps)

lemma crc_bit_inj: "crc_bit c = crc_bit d \<Longrightarrow> c = d"
proof (rule bit_word_eqI)
  fix n assume eq: "crc_bit c = crc_bit d" and n: "n < LENGTH(32)"
  have top: "bit (crc_bit x) 31 = bit x 0" for x
    by (auto simp: crc_bit_def bit_simps dest: bit_imp_le_length)
  have z: "bit c 0 = bit d 0" using top [of c] top [of d] eq by simp
  then have "drop_bit 1 c = drop_bit 1 d"
    using eq by (auto simp: crc_bit_def xor_cancel_right split: if_splits)
  then have "bit (drop_bit 1 c) m = bit (drop_bit 1 d) m" for m by simp
  then have "bit c (Suc m) = bit d (Suc m)" for m by (simp add: bit_simps)
  then show "bit c n = bit d n" using z by (cases n) simp_all
qed

lemma crc_steps_inj: "(crc_bit ^^ k) c = (crc_bit ^^ k) d \<Longrightarrow> c = d"
  by (induction k) (auto dest: crc_bit_inj)

lemma crc_byte_inj_state: "crc_byte c b = crc_byte d b \<Longrightarrow> c = d"
  by (auto simp: crc_byte_def xor_cancel_right dest!: crc_steps_inj)

lemma crc_byte_inj_byte:
  assumes "crc_byte c b = crc_byte c b'"
  shows "b = b'"
proof -
  have "c XOR ucast b = c XOR (ucast b' :: 32 word)"
    using assms by (auto simp: crc_byte_def dest: crc_steps_inj)
  then have e: "(ucast b :: 32 word) = ucast b'" by (simp add: xor_cancel_left)
  show ?thesis
  proof (rule bit_word_eqI)
    fix n assume n: "n < LENGTH(8)"
    have "bit (ucast x :: 32 word) n = bit x n" for x :: byte using n by (simp add: bit_simps)
    then show "bit b n = bit b' n" using e by metis
  qed
qed

lemma crc_fold_inj: "foldl crc_byte c bs = foldl crc_byte d bs \<Longrightarrow> c = d"
  by (induction bs arbitrary: c d) (auto dest: crc_byte_inj_state)

text \<open>A change of a single byte changes the checksum.\<close>

lemma ChecksumIEEE_detects_byte:
  assumes "b \<noteq> b'"
  shows "ChecksumIEEE (xs @ b # ys) \<noteq> ChecksumIEEE (xs @ b' # ys)"
  using assms by (auto simp: ChecksumIEEE_def dest: crc_fold_inj crc_byte_inj_byte)

section \<open>Records\<close>

definition appendRecord :: "bytes \<Rightarrow> bytes \<Rightarrow> bytes" where
  "appendRecord dst payload =
     dst @ putUint32 (of_nat (length payload)) @ putUint32 (ChecksumIEEE payload) @ payload"

definition AppendRecord :: "bytes \<Rightarrow> bytes \<Rightarrow> bytes" where
  "AppendRecord dst payload = appendRecord dst payload"

text \<open>The loop of \<open>replayRecords\<close> from offset \<open>off\<close>.\<close>

function replayLoop :: "bytes \<Rightarrow> nat \<Rightarrow> bytes list \<Rightarrow> nat \<Rightarrow> bytes list \<times> nat" where
  "replayLoop data off records validLen =
     (if off + 8 \<le> length data then
        let n = unat (getUint32 (take 4 (drop off data)));
            crc = getUint32 (take 4 (drop (off + 4) data));
            payload = take n (drop (off + 8) data)
        in if n > length data - off - 8 then (records, validLen)
           else if ChecksumIEEE payload \<noteq> crc then (records, validLen)
           else replayLoop data (off + 8 + n) (records @ [payload]) (off + 8 + n)
      else (records, validLen))"
  by pat_completeness auto
termination
  by (relation "measure (\<lambda>(data, off, _). length data - off)") auto

declare replayLoop.simps [simp del]

definition replayRecords :: "bytes \<Rightarrow> bytes list \<times> nat" where
  "replayRecords data = replayLoop data 0 [] 0"

section \<open>A reference for the replay\<close>

text \<open>The records at the front of a sequence of bytes, without offsets.\<close>

function parse :: "bytes \<Rightarrow> bytes list" where
  "parse data =
     (if length data < 8 then []
      else let n = unat (getUint32 data); payload = take n (drop 8 data)
        in if n > length data - 8 \<or> ChecksumIEEE payload \<noteq> getUint32 (drop 4 data) then []
           else payload # parse (drop (8 + n) data))"
  by pat_completeness auto
termination
  by (relation "measure length") auto

declare parse.simps [simp del]

definition frames :: "bytes list \<Rightarrow> bytes" where
  "frames ps = concat (map (appendRecord []) ps)"

lemma frames_simps [simp]:
  "frames [] = []" "frames (p # ps) = appendRecord [] p @ frames ps" "frames (ps @ qs) = frames ps @ frames qs"
  by (simp_all add: frames_def)

lemma appendRecord_eq: "appendRecord dst p = dst @ appendRecord [] p"
  by (simp add: appendRecord_def)

lemma length_appendRecord [simp]: "length (appendRecord dst p) = length dst + 8 + length p"
  by (simp add: appendRecord_def)

lemma replayLoop_parse:
  assumes "off \<le> length data"
  shows "replayLoop data off rs off =
    (rs @ parse (drop off data), off + length (frames (parse (drop off data))))"
  using assms
proof (induction "length data - off" arbitrary: off rs rule: less_induct)
  case less
  let ?d = "drop off data" and ?n = "unat (getUint32 (drop off data))"
  let ?p = "take ?n (drop 8 ?d)"
  show ?case
  proof (cases "off + 8 \<le> length data")
    case False
    then show ?thesis by (simp add: replayLoop.simps parse.simps)
  next
    case True
    have n: "getUint32 (take 4 ?d) = getUint32 ?d"
      "getUint32 (take 4 (drop (off + 4) data)) = getUint32 (drop 4 ?d)"
      using True by (simp_all add: getUint32_take add.commute)
    have pl: "take ?n (drop (off + 8) data) = ?p" by (simp add: add.commute)
    show ?thesis
    proof (cases "?n > length ?d - 8 \<or> ChecksumIEEE ?p \<noteq> getUint32 (drop 4 ?d)")
      case stop: True
      then have "parse ?d = []" using True by (subst parse.simps) (auto simp: Let_def)
      moreover have "replayLoop data off rs off = (rs, off)"
        using True stop by (subst replayLoop.simps) (auto simp: Let_def n pl)
      ultimately show ?thesis by simp
    next
      case False
      let ?off = "off + 8 + ?n"
      have p: "parse ?d = ?p # parse (drop ?off data)"
        using True False by (subst parse.simps) (auto simp: Let_def add.commute add.left_commute)
      have le: "?off \<le> length data" "length ?p = ?n" using True False by auto
      have "replayLoop data off rs off = replayLoop data ?off (rs @ [?p]) ?off"
        using True False by (subst replayLoop.simps) (simp add: Let_def n pl)
      also have "\<dots> = ((rs @ [?p]) @ parse (drop ?off data), ?off + length (frames (parse (drop ?off data))))"
        by (rule less.hyps) (use le True in simp_all)
      finally show ?thesis unfolding p using le(2) by simp
    qed
  qed
qed

text \<open>What the loop computes is the reference, and the bytes the records take up.\<close>

lemma replayRecords_parse: "replayRecords data = (parse data, length (frames (parse data)))"
  using replayLoop_parse [of 0 data "[]"] by (simp add: replayRecords_def)

section \<open>Replay of written records\<close>

text \<open>The length field has 32 bits.\<close>

definition fits :: "bytes \<Rightarrow> bool" where
  "fits p \<longleftrightarrow> length p < 2 ^ 32"

lemma unat_length: "fits p \<Longrightarrow> unat (of_nat (length p) :: 32 word) = length p"
  by (simp add: fits_def unsigned_of_nat take_bit_nat_eq_self)

lemma header_fields:
  "getUint32 (appendRecord [] p @ rest) = of_nat (length p)"
  "getUint32 (drop 4 (appendRecord [] p @ rest)) = ChecksumIEEE p"
  "drop 8 (appendRecord [] p @ rest) = p @ rest"
  by (simp_all add: appendRecord_def getUint32_put)

lemma parse_record:
  assumes "fits p"
  shows "parse (appendRecord [] p @ rest) = p # parse rest"
proof -
  have "drop (8 + length p) (appendRecord [] p @ rest) = rest" by simp
  then show ?thesis
    by (subst parse.simps) (simp add: Let_def header_fields [simplified] header_fields unat_length [OF assms])
qed

lemma parse_frames: "\<forall>p \<in> set ps. fits p \<Longrightarrow> parse (frames ps @ rest) = ps @ parse rest"
  by (induction ps) (simp_all add: parse_record)

text \<open>A record that is cut off anywhere is not read.\<close>

lemma parse_torn:
  assumes "fits p" "strict_prefix t (appendRecord [] p)"
  shows "parse t = []"
proof (cases "length t < 8")
  case True
  then show ?thesis by (simp add: parse.simps)
next
  case False
  obtain r where r: "appendRecord [] p = t @ r" using assms(2) by (auto simp: strict_prefix_def prefix_def)
  have lt: "length t < 8 + length p" using prefix_length_less [OF assms(2)] by simp
  have "getUint32 t = getUint32 (t @ r)" using False by (auto simp: getUint32_def nth_append)
  then have "unat (getUint32 t) = length p"
    using header_fields(1) [of p "[]"] r unat_length [OF assms(1)] by simp
  moreover have "length t - 8 < length p" using False lt by simp
  ultimately show ?thesis using False by (subst parse.simps) (simp add: Let_def)
qed

text \<open>A record with a changed byte in its payload is not read, nor anything behind it.\<close>

definition damagedRecord :: "bytes \<Rightarrow> bytes \<Rightarrow> bytes" where
  "damagedRecord p q = putUint32 (of_nat (length p)) @ putUint32 (ChecksumIEEE p) @ q"

lemma parse_damaged:
  assumes "fits p" "p = xs @ b # ys" "q = xs @ b' # ys" "b \<noteq> b'"
  shows "parse (damagedRecord p q @ rest) = []"
proof -
  let ?d = "damagedRecord p q @ rest"
  have "unat (getUint32 ?d) = length p"
    by (simp add: damagedRecord_def getUint32_put unat_length [OF assms(1)])
  moreover have "getUint32 (drop 4 ?d) = ChecksumIEEE p" "take (length p) (drop 8 ?d) = q"
    using assms(2,3) by (simp_all add: damagedRecord_def getUint32_put)
  moreover have "ChecksumIEEE q \<noteq> ChecksumIEEE p"
    using ChecksumIEEE_detects_byte [OF assms(4)] assms(2,3) by metis
  ultimately show ?thesis by (subst parse.simps) (simp only: Let_def, simp)
qed

section \<open>Properties of the record log\<close>

text \<open>
  Replay stops exactly where the reference does: the loop over offsets returns the records at
  the front of the file, and \<open>validLen\<close> is the number of bytes those records take up.
\<close>

theorem replay_is_parse: "replayRecords data = (parse data, length (frames (parse data)))"
  by (rule replayRecords_parse)

text \<open>
  C28. A torn tail is healed: a file of complete records followed by any proper part of one more
  record replays to exactly the complete records, with the cut at their end.
\<close>

theorem replay_heals_torn_tail:
  assumes "\<forall>p \<in> set ps. fits p" "fits p" "strict_prefix t (appendRecord [] p)"
  shows "replayRecords (frames ps @ t) = (ps, length (frames ps))"
  by (simp add: replayRecords_parse parse_frames [OF assms(1)] parse_torn [OF assms(2,3)])

theorem replay_heals_torn_tail_witness:
  "replayRecords (frames [[1, 2], []] @ take 9 (appendRecord [] [7, 8, 9])) =
     ([[1, 2], []], length (frames [[1, 2], []]))"
  by (rule replay_heals_torn_tail [of _ "[7, 8, 9]"])
    (simp_all add: fits_def strict_prefix_def appendRecord_def putUint32_def take_is_prefix)

text \<open>
  C29. Damage is found: if one byte of the payload of a record has changed on disk, replay returns
  the records before it and nothing from it on.
\<close>

theorem replay_rejects_damage:
  assumes "\<forall>p \<in> set ps. fits p" "fits (xs @ b # ys)" "b \<noteq> b'"
  shows "replayRecords (frames ps @ damagedRecord (xs @ b # ys) (xs @ b' # ys) @ rest) =
    (ps, length (frames ps))"
  using parse_damaged [OF assms(2) refl refl assms(3), of rest]
  by (simp add: replayRecords_parse parse_frames [OF assms(1)])

theorem replay_rejects_damage_witness:
  "replayRecords (frames [[5]] @ damagedRecord ([1] @ 2 # [3]) ([1] @ 6 # [3]) @ frames [[4]]) =
     ([[5]], length (frames [[5]]))"
  by (rule replay_rejects_damage) (simp_all add: fits_def)

text \<open>
  Eight zero bytes are a record: length 0, and 0 is the checksum of nothing. A tail of zeros, which
  some file systems leave behind after a crash, is replayed as empty records.
\<close>

lemma zero_record: "appendRecord [] [] = replicate 8 0"
  by (simp add: appendRecord_def putUint32_def ChecksumIEEE_def eval_nat_numeral)

lemma replay_accepts_zeros:
  assumes "\<forall>p \<in> set ps. fits p"
  shows "replayRecords (frames ps @ replicate 8 0) = (ps @ [[]], length (frames ps) + 8)"
proof -
  have "parse (replicate 8 0) = [[]]"
    using parse_record [of "[]" "[]"] unfolding zero_record by (simp add: fits_def parse.simps [of "[]"])
  then show ?thesis by (simp add: replayRecords_parse parse_frames [OF assms])
qed

end
