(* ===== verification/MemFS.thy ===== *)
theory MemFS
  imports RecordLog
begin

text \<open>
  The file system behind the write-ahead log: the interface \<open>FS\<close> of \<open>wal/fs.go\<close> as
  \<open>wal/memfs.go\<close> implements it, with the crash points it injects, \<open>AtomicWrite\<close> of
  \<open>wal/atomic.go\<close> and the file side of the record log. An operation returns an error or a
  value, and the next state of the file system. A write reaches the disk at once; a crash cuts a
  write short or strikes before or after a rename.
\<close>

datatype fsErr = ErrCrash | ErrNotExist | ErrTruncatePastEnd

record MemFS =
  m_files :: "string \<rightharpoonup> bytes"
  m_FaultWriteLimit :: int
  m_FaultRename :: string
  m_crashed :: bool

record memFile =
  f_name :: string
  f_off :: nat

type_synonym 'a fsop = "MemFS \<Rightarrow> (fsErr + 'a) \<times> MemFS"

definition fs_bind :: "'a fsop \<Rightarrow> ('a \<Rightarrow> 'b fsop) \<Rightarrow> 'b fsop" where
  "fs_bind m k fs = (case m fs of (Inl e, fs') \<Rightarrow> (Inl e, fs') | (Inr x, fs') \<Rightarrow> k x fs')"

definition fs_return :: "'a \<Rightarrow> 'a fsop" where
  "fs_return x fs = (Inr x, fs)"

definition NewMemFS :: MemFS where
  "NewMemFS = \<lparr>m_files = Map.empty, m_FaultWriteLimit = -1, m_FaultRename = '''', m_crashed = False\<rparr>"

text \<open>Appending the bytes of a file to nil gives nil when the file is empty.\<close>

definition nilCopy :: "bytes \<Rightarrow> slice" where
  "nilCopy b = (if b = [] then None else Some b)"

definition Content :: "MemFS \<Rightarrow> string \<Rightarrow> slice \<times> bool" where
  "Content m name = (case m_files m name of None \<Rightarrow> (None, False) | Some b \<Rightarrow> (nilCopy b, True))"

definition Crashed :: "MemFS \<Rightarrow> bool" where
  "Crashed m = m_crashed m"

definition Reboot :: "MemFS \<Rightarrow> MemFS" where
  "Reboot m = m\<lparr>m_crashed := False, m_FaultWriteLimit := -1, m_FaultRename := ''''\<rparr>"

definition Create :: "string \<Rightarrow> memFile fsop" where
  "Create name m =
     (if m_crashed m then (Inl ErrCrash, m)
      else (Inr \<lparr>f_name = name, f_off = 0\<rparr>, m\<lparr>m_files := (m_files m)(name \<mapsto> [])\<rparr>))"

definition Open :: "string \<Rightarrow> memFile fsop" where
  "Open name m =
     (if m_crashed m then (Inl ErrCrash, m)
      else if m_files m name = None then (Inl ErrNotExist, m)
      else (Inr \<lparr>f_name = name, f_off = 0\<rparr>, m))"

definition OpenAppend :: "string \<Rightarrow> memFile fsop" where
  "OpenAppend name m =
     (if m_crashed m then (Inl ErrCrash, m)
      else let m' = (if m_files m name = None then m\<lparr>m_files := (m_files m)(name \<mapsto> [])\<rparr> else m)
        in (Inr \<lparr>f_name = name, f_off = length (the (m_files m' name))\<rparr>, m'))"

definition ReadFile :: "string \<Rightarrow> slice fsop" where
  "ReadFile name m =
     (if m_crashed m then (Inl ErrCrash, m)
      else case m_files m name of None \<Rightarrow> (Inr None, m) | Some b \<Rightarrow> (Inr (nilCopy b), m))"

definition Truncate :: "string \<Rightarrow> nat \<Rightarrow> unit fsop" where
  "Truncate name sz m =
     (if m_crashed m then (Inl ErrCrash, m)
      else case m_files m name of
          None \<Rightarrow> (Inl ErrTruncatePastEnd, m)
        | Some b \<Rightarrow> if length b < sz then (Inl ErrTruncatePastEnd, m)
            else (Inr (), m\<lparr>m_files := (m_files m)(name \<mapsto> take sz b)\<rparr>))"

text \<open>The map entry of a missing file is nil: renaming it leaves an empty file behind.\<close>

definition Rename :: "string \<Rightarrow> string \<Rightarrow> unit fsop" where
  "Rename oldpath newpath m =
     (if m_crashed m then (Inl ErrCrash, m)
      else if m_FaultRename m = ''before'' then (Inl ErrCrash, m\<lparr>m_crashed := True\<rparr>)
      else
        let content = (case m_files m oldpath of None \<Rightarrow> [] | Some b \<Rightarrow> b);
            m' = m\<lparr>m_files := ((m_files m)(newpath \<mapsto> content))(oldpath := None)\<rparr>
        in if m_FaultRename m = ''after'' then (Inl ErrCrash, m'\<lparr>m_crashed := True\<rparr>)
           else (Inr (), m'))"

definition Remove :: "string \<Rightarrow> unit fsop" where
  "Remove name m =
     (if m_crashed m then (Inl ErrCrash, m)
      else (Inr (), m\<lparr>m_files := (m_files m)(name := None)\<rparr>))"

definition SyncDir :: "string \<Rightarrow> unit fsop" where
  "SyncDir dir m = (if m_crashed m then (Inl ErrCrash, m) else (Inr (), m))"

text \<open>A write at an offset past the end fills the gap with zeros, as \<open>make\<close> does.\<close>

definition writeAt :: "memFile \<Rightarrow> bytes \<Rightarrow> MemFS \<Rightarrow> memFile \<times> MemFS" where
  "writeAt f p m =
     (let cur0 = (case m_files m (f_name f) of None \<Rightarrow> [] | Some b \<Rightarrow> b);
          need = f_off f + length p;
          cur = (if need > length cur0 then cur0 @ replicate (need - length cur0) 0 else cur0);
          cur' = take (f_off f) cur @ p @ drop need cur
      in (f\<lparr>f_off := need\<rparr>, m\<lparr>m_files := (m_files m)(f_name f \<mapsto> cur')\<rparr>))"

definition Write :: "memFile \<Rightarrow> bytes \<Rightarrow> memFile fsop" where
  "Write f p m =
     (if m_crashed m then (Inl ErrCrash, m)
      else
        let lim = m_FaultWriteLimit m;
            m1 = (if 0 \<le> lim then m\<lparr>m_FaultWriteLimit := -1\<rparr> else m)
        in if 0 \<le> lim \<and> lim < int (length p)
           then (Inl ErrCrash, (snd (writeAt f (take (nat lim) p) m1))\<lparr>m_crashed := True\<rparr>)
           else let (f', m2) = writeAt f p m1 in (Inr f', m2))"

definition Sync :: "memFile \<Rightarrow> unit fsop" where
  "Sync f m = (if m_crashed m then (Inl ErrCrash, m) else (Inr (), m))"

definition Close :: "memFile \<Rightarrow> unit fsop" where
  "Close f m = (if m_crashed m then (Inl ErrCrash, m) else (Inr (), m))"

section \<open>Writing a whole file\<close>

definition tmpName :: "string \<Rightarrow> string" where
  "tmpName path = path @ ''.tmp''"

definition AtomicWrite :: "string \<Rightarrow> string \<Rightarrow> bytes \<Rightarrow> unit fsop" where
  "AtomicWrite dir path data =
     fs_bind (Create (tmpName path)) (\<lambda>f.
     fs_bind (Write f data) (\<lambda>f'.
     fs_bind (Sync f') (\<lambda>_.
     fs_bind (Close f') (\<lambda>_.
     fs_bind (Rename (tmpName path) path) (\<lambda>_.
     SyncDir dir)))))"

section \<open>The record log on a file\<close>

text \<open>A \<open>RecordLog\<close> is its append handle.\<close>

definition OpenRecordLog :: "string \<Rightarrow> (memFile \<times> bytes list) fsop" where
  "OpenRecordLog name =
     fs_bind (ReadFile name) (\<lambda>content.
       let data = (case content of None \<Rightarrow> [] | Some b \<Rightarrow> b);
           (records, validLen) = replayRecords data
       in fs_bind (if validLen \<noteq> length data then Truncate name validLen else fs_return ()) (\<lambda>_.
          fs_bind (OpenAppend name) (\<lambda>f. fs_return (f, records))))"

definition Append :: "memFile \<Rightarrow> bytes \<Rightarrow> memFile fsop" where
  "Append l payload =
     fs_bind (Write l (appendRecord [] payload)) (\<lambda>l'. fs_bind (Sync l') (\<lambda>_. fs_return l'))"

section \<open>Crash safety of the primitives\<close>

text \<open>A disk that works: not crashed and with no fault armed; \<open>armed\<close> sets the next faults.\<close>

definition sound :: "MemFS \<Rightarrow> bool" where
  "sound m \<longleftrightarrow> \<not> m_crashed m \<and> m_FaultWriteLimit m = -1 \<and> m_FaultRename m = ''''"

definition armed :: "int \<Rightarrow> string \<Rightarrow> MemFS \<Rightarrow> MemFS" where
  "armed l r m = m\<lparr>m_FaultWriteLimit := l, m_FaultRename := r\<rparr>"

lemma tmpName_neq [simp]: "tmpName path \<noteq> path" "path \<noteq> tmpName path"
  by (simp_all add: tmpName_def)

lemma sound_Reboot [simp]: "sound (Reboot m)"
  by (simp add: sound_def Reboot_def)

lemma Reboot_simps [simp]: "m_files (Reboot m) = m_files m" "\<not> m_crashed (Reboot m)"
  by (simp_all add: Reboot_def)

lemma writeAt_end:
  assumes "m_files m (f_name f) = Some b" "f_off f = length b"
  shows "writeAt f p m = (f\<lparr>f_off := length b + length p\<rparr>, m\<lparr>m_files := (m_files m)(f_name f \<mapsto> b @ p)\<rparr>)"
  using assms by (simp add: writeAt_def Let_def)

lemma AtomicWrite_outcome:
  assumes "\<not> m_crashed m" "AtomicWrite dir path data m = (r, m')"
  shows "(r = Inr () \<and> \<not> m_crashed m' \<and> m_files m' = (m_files m)(path \<mapsto> data, tmpName path := None)) \<or>
    (r = Inl ErrCrash \<and> m_crashed m' \<and> (m_files m' path = m_files m path \<or> m_files m' path = Some data) \<and>
      (\<forall>name. name \<noteq> path \<longrightarrow> name \<noteq> tmpName path \<longrightarrow> m_files m' name = m_files m name))"
  using assms
  by (auto simp: AtomicWrite_def fs_bind_def Create_def Write_def writeAt_def Sync_def Close_def
    Rename_def SyncDir_def Let_def split: if_splits)

lemma AtomicWrite_sound:
  assumes "sound m"
  shows "AtomicWrite dir path data m =
    (Inr (), m\<lparr>m_files := (m_files m)(path \<mapsto> data, tmpName path := None)\<rparr>)"
  using assms
  by (auto simp: sound_def AtomicWrite_def fs_bind_def Create_def Write_def writeAt_def Sync_def
    Close_def Rename_def SyncDir_def Let_def)

lemma Append_outcome:
  assumes "\<not> m_crashed m" "m_files m (f_name l) = Some b" "f_off l = length b" "Append l p m = (r, m')"
  shows "(r = Inr (l\<lparr>f_off := length b + length (appendRecord [] p)\<rparr>) \<and> \<not> m_crashed m' \<and>
      m_files m' = (m_files m)(f_name l \<mapsto> b @ appendRecord [] p)) \<or>
    (r = Inl ErrCrash \<and> m_crashed m' \<and> (\<exists>t. strict_prefix t (appendRecord [] p) \<and>
      m_files m' = (m_files m)(f_name l \<mapsto> b @ t)))"
proof -
  let ?p = "appendRecord [] p" and ?lim = "m_FaultWriteLimit m"
  have torn: "0 \<le> ?lim \<Longrightarrow> ?lim < int (length ?p) \<Longrightarrow> strict_prefix (take (nat ?lim) ?p) ?p"
    unfolding strict_prefix_def by (metis length_take linorder_not_less min_less_iff_conj nat_less_iff
      order_less_irrefl take_is_prefix)
  show ?thesis
    using assms torn
    by (auto simp: Append_def fs_bind_def fs_return_def Write_def writeAt_end Sync_def Let_def split: if_splits)
qed

lemma Append_sound:
  assumes "sound m" "m_files m (f_name l) = Some b" "f_off l = length b"
  shows "Append l p m = (Inr (l\<lparr>f_off := length b + length (appendRecord [] p)\<rparr>),
    m\<lparr>m_files := (m_files m)(f_name l \<mapsto> b @ appendRecord [] p)\<rparr>)"
  using assms by (simp add: sound_def Append_def fs_bind_def fs_return_def Write_def writeAt_end Sync_def Let_def)

text \<open>Opening a log cuts off what does not replay, and the handle stands at the end.\<close>

definition fileBytes :: "MemFS \<Rightarrow> string \<Rightarrow> bytes" where
  "fileBytes m name = (case m_files m name of None \<Rightarrow> [] | Some b \<Rightarrow> b)"

lemma OpenRecordLog_outcome:
  assumes "\<not> m_crashed m" and ps: "parse (fileBytes m name) = ps"
    and pre: "prefix (frames ps) (fileBytes m name)"
  shows "OpenRecordLog name m = (Inr (\<lparr>f_name = name, f_off = length (frames ps)\<rparr>, ps),
    m\<lparr>m_files := (m_files m)(name \<mapsto> frames ps)\<rparr>)"
proof (cases "m_files m name")
  case None
  then have "ps = []" using ps by (simp add: fileBytes_def parse.simps)
  then show ?thesis using None assms
    by (simp add: OpenRecordLog_def fs_bind_def fs_return_def ReadFile_def OpenAppend_def replayRecords_parse
      fileBytes_def parse.simps [of "[]"] Let_def)
next
  case (Some b)
  then have pb: "parse b = ps" and pf: "prefix (frames ps) b" using ps pre by (simp_all add: fileBytes_def)
  from pf obtain zs where "b = frames ps @ zs" by (rule prefixE)
  then have b: "parse b = ps" "take (length (frames ps)) b = frames ps"
    "length (frames ps) = length b \<Longrightarrow> frames ps = b"
    using pb by simp_all
  have read: "(case nilCopy b of None \<Rightarrow> [] | Some c \<Rightarrow> c) = b" by (simp add: nilCopy_def)
  have le: "\<not> length b < length (frames ps)" using prefix_length_le [OF pf] by simp
  show ?thesis using Some assms(1) b(3) le
    by (auto simp: OpenRecordLog_def fs_bind_def fs_return_def ReadFile_def OpenAppend_def Truncate_def
      replayRecords_parse read b(1,2) Let_def fun_upd_idem)
qed

section \<open>Properties of the file primitives\<close>

text \<open>
  C27. Replacing a file is atomic under every injected fault: afterwards the path holds either the
  complete old content or the complete new one, and every file other than the path and its
  temporary is as before. If the call returns without an error the content is the new one; the only
  error is the crash.
\<close>

theorem atomic_write_all_or_nothing:
  assumes "\<not> m_crashed m" "AtomicWrite dir path data (armed l r m) = (res, m')"
  shows "(m_files m' path = m_files m path \<or> m_files m' path = Some data) \<and>
    (\<forall>name. name \<noteq> path \<and> name \<noteq> tmpName path \<longrightarrow> m_files m' name = m_files m name) \<and>
    (res = Inr () \<longrightarrow> m_files m' path = Some data) \<and> (res = Inr () \<or> res = Inl ErrCrash)"
  using AtomicWrite_outcome [of "armed l r m", OF _ assms(2)] assms(1) by (auto simp: armed_def)

theorem atomic_write_all_or_nothing_witness:
  "let m = NewMemFS\<lparr>m_files := [''d/meta'' \<mapsto> [1, 2]]\<rparr>;
       m' = snd (AtomicWrite ''d'' ''d/meta'' [7, 8, 9] (armed 2 '''' m))
   in \<not> m_crashed m \<and> m_crashed m' \<and> m_files m' ''d/meta'' = Some [1, 2] \<and>
      m_files m' (tmpName ''d/meta'') = Some [7, 8] \<and>
      (m_files m' ''d/meta'' = m_files m ''d/meta'' \<or> m_files m' ''d/meta'' = Some [7, 8, 9])"
  using atomic_write_all_or_nothing [of "NewMemFS\<lparr>m_files := [''d/meta'' \<mapsto> [1, 2]]\<rparr>" "''d''" "''d/meta''"
    "[7, 8, 9]" 2 "''''"]
  by (simp add: Let_def NewMemFS_def armed_def AtomicWrite_def fs_bind_def Create_def Write_def writeAt_def)

text \<open>
  C26. An acknowledged record survives, a torn one disappears: whatever fault strikes while a record
  is appended to a log of complete records, reopening the log after the restart returns the old
  records, or the old records and the new one; if the append had returned, it is the latter. The
  reopened log stands at the end of exactly these records, ready for the next append.
\<close>

theorem record_log_recovers:
  assumes "\<not> m_crashed m" "m_files m name = Some (frames ps)" "\<forall>q \<in> set ps. fits q" "fits p"
    and app: "Append \<lparr>f_name = name, f_off = length (frames ps)\<rparr> p (armed l r m) = (res, m')"
  shows "\<exists>qs. (qs = ps \<or> qs = ps @ [p]) \<and> (isl res \<or> qs = ps @ [p]) \<and>
    OpenRecordLog name (Reboot m') = (Inr (\<lparr>f_name = name, f_off = length (frames qs)\<rparr>, qs),
      (Reboot m')\<lparr>m_files := (m_files m)(name \<mapsto> frames qs)\<rparr>)"
proof -
  have reopen: "OpenRecordLog name (Reboot m') = (Inr (\<lparr>f_name = name, f_off = length (frames qs)\<rparr>, qs),
      (Reboot m')\<lparr>m_files := (m_files m)(name \<mapsto> frames qs)\<rparr>)"
    if "m_files m' = (m_files m)(name \<mapsto> frames qs @ t)" "\<forall>q \<in> set qs. fits q" "parse t = []" for qs t
    using that OpenRecordLog_outcome [of "Reboot m'" name qs]
    by (simp add: fileBytes_def parse_frames)
  have emp: "parse [] = []" by (simp add: parse.simps)
  have snoc: "frames (ps @ [p]) = frames ps @ appendRecord [] p" by (induction ps) simp_all
  from Append_outcome [of "armed l r m", OF _ _ _ app, of "frames ps"] assms(1,2)
  consider (ok) "\<not> isl res" "m_files m' = (m_files m)(name \<mapsto> frames (ps @ [p]) @ [])"
    | (torn) t where "isl res" "strict_prefix t (appendRecord [] p)" "m_files m' = (m_files m)(name \<mapsto> frames ps @ t)"
    by (auto simp: armed_def snoc)
  then show ?thesis
  proof cases
    case ok
    then show ?thesis using reopen [OF ok(2) _ emp] assms(3,4) by auto
  next
    case torn
    then show ?thesis using reopen [OF torn(3) assms(3) parse_torn [OF assms(4) torn(2)]] by auto
  qed
qed

theorem record_log_recovers_witness:
  "let m = NewMemFS\<lparr>m_files := [''wal'' \<mapsto> frames [[1]]]\<rparr>;
       m' = snd (Append \<lparr>f_name = ''wal'', f_off = length (frames [[1]])\<rparr> [2, 3] (armed 9 '''' m))
   in m_crashed m' \<and> (\<exists>qs. (qs = [[1]] \<or> qs = [[1]] @ [[2, 3]]) \<and>
      OpenRecordLog ''wal'' (Reboot m') = (Inr (\<lparr>f_name = ''wal'', f_off = length (frames qs)\<rparr>, qs),
        (Reboot m')\<lparr>m_files := (m_files m)(''wal'' \<mapsto> frames qs)\<rparr>))"
  using record_log_recovers [of "NewMemFS\<lparr>m_files := [''wal'' \<mapsto> frames [[1]]]\<rparr>" "''wal''" "[[1]]"
    "[2, 3]" 9 "''''"]
  by (force simp: Let_def NewMemFS_def armed_def fits_def Append_def fs_bind_def Write_def)

end
