(* ===== verification/FileWAL.thy ===== *)
theory FileWAL
  imports WalContract MemFS
begin

text \<open>
  \<open>filewal/filewal.go\<close>: the write-ahead log on two files, \<open>meta\<close> (replaced
  atomically) and \<open>wal\<close> (a record log, rewritten when a snapshot is taken). The gob encoding
  that \<open>labgob\<close> provides is a parameter; \<open>gob_ok\<close> is what is used of it. A call returns
  \<open>None\<close> where \<open>must\<close> panics, beside the file system it leaves behind.
\<close>

record walHeader =
  wh_SnapshotIndex :: int
  wh_SentinelTerm :: int
  wh_Snapshot :: slice

record metaState =
  ms_Term :: int
  ms_Vote :: NodeID

record 'c gob =
  g_encEntry :: "'c LogEntry \<Rightarrow> bytes option"
  g_decEntry :: "bytes \<Rightarrow> 'c LogEntry option"
  g_encInt :: "int \<Rightarrow> bytes option"
  g_decInt :: "bytes \<Rightarrow> int option"
  g_encHeader :: "walHeader \<Rightarrow> bytes option"
  g_decHeader :: "bytes \<Rightarrow> walHeader option"
  g_encMeta :: "metaState \<Rightarrow> bytes option"
  g_decMeta :: "bytes \<Rightarrow> metaState option"

text \<open>
  What gob documents: a value that was encoded decodes to itself, except that an empty slice is
  not transmitted and comes back as nil; an encoded value is never zero bytes long.
\<close>

definition nilEmpty :: "slice \<Rightarrow> slice" where
  "nilEmpty s = (if s = Some [] then None else s)"

definition gob_ok :: "'c gob \<Rightarrow> bool" where
  "gob_ok g \<longleftrightarrow>
     (\<forall>e. \<exists>b. g_encEntry g e = Some b \<and> g_decEntry g b = Some e) \<and>
     (\<forall>k. \<exists>b. g_encInt g k = Some b \<and> g_decInt g b = Some k) \<and>
     (\<forall>h. \<exists>b. g_encHeader g h = Some b \<and> g_decHeader g b = Some (h\<lparr>wh_Snapshot := nilEmpty (wh_Snapshot h)\<rparr>)) \<and>
     (\<forall>m. \<exists>b. g_encMeta g m = Some b \<and> b \<noteq> [] \<and> g_decMeta g b = Some m)"

definition recHeader :: byte where "recHeader = 1"
definition recEntry :: byte where "recEntry = 2"
definition recTruncate :: byte where "recTruncate = 3"

definition encodeEntry :: "'c gob \<Rightarrow> 'c LogEntry \<Rightarrow> bytes option" where
  "encodeEntry g e = do { b \<leftarrow> g_encEntry g e; Some (recEntry # b) }"

definition encodeTruncate :: "'c gob \<Rightarrow> int \<Rightarrow> bytes option" where
  "encodeTruncate g k = do { b \<leftarrow> g_encInt g k; Some (recTruncate # b) }"

definition encodeHeader :: "'c gob \<Rightarrow> walHeader \<Rightarrow> bytes option" where
  "encodeHeader g h = do { b \<leftarrow> g_encHeader g h; Some (recHeader # b) }"

definition encodeMeta :: "'c gob \<Rightarrow> metaState \<Rightarrow> bytes option" where
  "encodeMeta g m = g_encMeta g m"

record FileWAL =
  fw_dir :: string
  fw_metaPath :: string
  fw_walPath :: string
  fw_rl :: memFile
  fw_records :: "bytes list"
  fw_logBytes :: int

definition join :: "string \<Rightarrow> string \<Rightarrow> string" where
  "join dir name = dir @ ''/'' @ name"

definition FileWAL_Open :: "string \<Rightarrow> FileWAL fsop" where
  "FileWAL_Open dir =
     (let metaPath = join dir ''meta''; walPath = join dir ''wal'' in
      fs_bind (OpenRecordLog walPath) (\<lambda>(rl, records).
        fs_return \<lparr>fw_dir = dir, fw_metaPath = metaPath, fw_walPath = walPath, fw_rl = rl,
          fw_records = records,
          fw_logBytes = sum_list (map (\<lambda>p. if p \<noteq> [] \<and> hd p \<noteq> recHeader then int (length p) else 0) records)\<rparr>))"

text \<open>
  \<open>Load\<close>: the metadata, the header record if the log starts with one, and the entries and
  truncations behind it.
\<close>

definition loadMeta :: "'c gob \<Rightarrow> slice \<Rightarrow> metaState option" where
  "loadMeta g metaBytes = (case metaBytes of
       None \<Rightarrow> Some \<lparr>ms_Term = 0, ms_Vote = ''''\<rparr>
     | Some b \<Rightarrow> if b = [] then Some \<lparr>ms_Term = 0, ms_Vote = ''''\<rparr> else g_decMeta g b)"

definition loadHeader :: "'c gob \<Rightarrow> bytes list \<Rightarrow> (walHeader \<times> bytes list) option" where
  "loadHeader g recs =
     (let none = \<lparr>wh_SnapshotIndex = 0, wh_SentinelTerm = 0, wh_Snapshot = None\<rparr> in
      case recs of
        [] \<Rightarrow> Some (none, [])
      | p # ps \<Rightarrow> do { tag \<leftarrow> sl_get p 0;
          if tag = recHeader then do { h \<leftarrow> g_decHeader g (drop 1 p); Some (h, ps) } else Some (none, p # ps) })"

fun loadLoop :: "'c gob \<Rightarrow> int \<Rightarrow> 'c log \<Rightarrow> bytes list \<Rightarrow> 'c log option" where
  "loadLoop g base logs [] = Some logs"
| "loadLoop g base logs (p # ps) =
     do { tag \<leftarrow> sl_get p 0;
          if tag = recEntry then do { e \<leftarrow> g_decEntry g (drop 1 p); loadLoop g base (logs @ [e]) ps }
          else if tag = recTruncate then do { k \<leftarrow> g_decInt g (drop 1 p);
            logs' \<leftarrow> sl_upto logs (k - base); loadLoop g base logs' ps }
          else None }"

definition loadState :: "'c gob \<Rightarrow> slice \<Rightarrow> bytes list \<Rightarrow> ('c PersistState \<times> bool) option" where
  "loadState g metaBytes records =
     do { m \<leftarrow> loadMeta g metaBytes;
          (h, recs) \<leftarrow> loadHeader g records;
          logs \<leftarrow> loadLoop g (wh_SnapshotIndex h) [sentinel (wh_SentinelTerm h)] recs;
          Some (\<lparr>ps_Term = ms_Term m, ps_Vote = ms_Vote m, ps_Logs = logs,
            ps_SnapshotIndex = wh_SnapshotIndex h, ps_Snapshot = wh_Snapshot h\<rparr>,
            (metaBytes \<noteq> None \<and> metaBytes \<noteq> Some []) \<or> records \<noteq> []) }"

definition FileWAL_Load :: "'c gob \<Rightarrow> FileWAL \<Rightarrow> MemFS \<Rightarrow> ('c PersistState \<times> bool) option" where
  "FileWAL_Load g fw fs = (case ReadFile (fw_metaPath fw) fs of
       (Inl e, fs') \<Rightarrow> None
     | (Inr metaBytes, fs') \<Rightarrow> loadState g metaBytes (fw_records fw))"

section \<open>The mutating calls\<close>

type_synonym walCall = "MemFS \<Rightarrow> FileWAL option \<times> MemFS"

text \<open>\<open>must\<close> ends the process on an error; so does an encoder that fails.\<close>

definition must :: "'a fsop \<Rightarrow> ('a \<Rightarrow> walCall) \<Rightarrow> walCall" where
  "must m k fs = (case m fs of (Inl e, fs') \<Rightarrow> (None, fs') | (Inr x, fs') \<Rightarrow> k x fs')"

definition encoded :: "'a option \<Rightarrow> ('a \<Rightarrow> walCall) \<Rightarrow> walCall" where
  "encoded e k fs = (case e of None \<Rightarrow> (None, fs) | Some p \<Rightarrow> k p fs)"

definition finish :: "FileWAL \<Rightarrow> walCall" where
  "finish fw fs = (Some fw, fs)"

definition FileWAL_SaveMeta :: "'c gob \<Rightarrow> int \<Rightarrow> NodeID \<Rightarrow> FileWAL \<Rightarrow> walCall" where
  "FileWAL_SaveMeta g t v fw =
     encoded (encodeMeta g \<lparr>ms_Term = t, ms_Vote = v\<rparr>) (\<lambda>b.
       must (AtomicWrite (fw_dir fw) (fw_metaPath fw) b) (\<lambda>_. finish fw))"

definition logRecord :: "bytes \<Rightarrow> (FileWAL \<Rightarrow> walCall) \<Rightarrow> FileWAL \<Rightarrow> walCall" where
  "logRecord p k fw =
     must (Append (fw_rl fw) p) (\<lambda>rl. k (fw\<lparr>fw_rl := rl, fw_logBytes := fw_logBytes fw + int (length p)\<rparr>))"

fun FileWAL_AppendLog :: "'c gob \<Rightarrow> 'c log \<Rightarrow> FileWAL \<Rightarrow> walCall" where
  "FileWAL_AppendLog g [] fw = finish fw"
| "FileWAL_AppendLog g (e # es) fw = encoded (encodeEntry g e) (\<lambda>p. logRecord p (FileWAL_AppendLog g es) fw)"

definition FileWAL_TruncateSuffix :: "'c gob \<Rightarrow> int \<Rightarrow> FileWAL \<Rightarrow> walCall" where
  "FileWAL_TruncateSuffix g k fw = encoded (encodeTruncate g k) (\<lambda>p. logRecord p finish fw)"

definition FileWAL_Size :: "FileWAL \<Rightarrow> int" where
  "FileWAL_Size fw = fw_logBytes fw"

text \<open>The loop that encodes the suffix: the content of the new file and the bytes of its payloads.\<close>

fun suffixLoop :: "'c gob \<Rightarrow> 'c log \<Rightarrow> bytes \<Rightarrow> int \<Rightarrow> (bytes \<times> int) option" where
  "suffixLoop g [] content n = Some (content, n)"
| "suffixLoop g (e # es) content n =
     do { p \<leftarrow> encodeEntry g e; suffixLoop g es (AppendRecord content p) (n + int (length p)) }"

definition FileWAL_SaveSnapshot ::
  "'c gob \<Rightarrow> int \<Rightarrow> int \<Rightarrow> slice \<Rightarrow> 'c log \<Rightarrow> FileWAL \<Rightarrow> walCall" where
  "FileWAL_SaveSnapshot g i t sn es fw =
     encoded (do { h \<leftarrow> encodeHeader g \<lparr>wh_SnapshotIndex = i, wh_SentinelTerm = t, wh_Snapshot = sn\<rparr>;
                   suffixLoop g es (AppendRecord [] h) 0 }) (\<lambda>(content, suffixBytes).
       must (AtomicWrite (fw_dir fw) (fw_walPath fw) content) (\<lambda>_ fs.
         let (_, fs1) = Close (fw_rl fw) fs in
         must (OpenAppend (fw_walPath fw)) (\<lambda>f. finish (fw\<lparr>fw_logBytes := suffixBytes, fw_rl := f\<rparr>)) fs1))"

definition FileWAL_Close :: "FileWAL \<Rightarrow> unit fsop" where
  "FileWAL_Close fw = Close (fw_rl fw)"

fun FileWAL_call :: "'c gob \<Rightarrow> 'c WalOp \<Rightarrow> FileWAL \<Rightarrow> walCall" where
  "FileWAL_call g (SaveMeta t v) fw = FileWAL_SaveMeta g t v fw"
| "FileWAL_call g (AppendLog es) fw = FileWAL_AppendLog g es fw"
| "FileWAL_call g (TruncateSuffix k) fw = FileWAL_TruncateSuffix g k fw"
| "FileWAL_call g (SaveSnapshot i t sn es) fw = FileWAL_SaveSnapshot g i t sn es fw"


section \<open>The effect of a call on the content of the files\<close>

text \<open>The content of \<open>meta\<close> and the records of \<open>wal\<close> after a call.\<close>

fun wal_effect :: "'c gob \<Rightarrow> 'c WalOp \<Rightarrow> bytes \<times> bytes list \<Rightarrow> (bytes \<times> bytes list) option" where
  "wal_effect g (SaveMeta t v) (meta, recs) = do { b \<leftarrow> encodeMeta g \<lparr>ms_Term = t, ms_Vote = v\<rparr>; Some (b, recs) }"
| "wal_effect g (AppendLog es) (meta, recs) = do { ps \<leftarrow> those (map (encodeEntry g) es); Some (meta, recs @ ps) }"
| "wal_effect g (TruncateSuffix k) (meta, recs) = do { p \<leftarrow> encodeTruncate g k; Some (meta, recs @ [p]) }"
| "wal_effect g (SaveSnapshot i t sn es) (meta, recs) =
     do { h \<leftarrow> encodeHeader g \<lparr>wh_SnapshotIndex = i, wh_SentinelTerm = t, wh_Snapshot = sn\<rparr>;
          ps \<leftarrow> those (map (encodeEntry g) es); Some (meta, h # ps) }"

text \<open>
  The calls the format can represent: every record is shorter than 4 GiB, and a snapshot is not an
  empty slice, which gob would turn into nil.
\<close>

definition fitting :: "bytes option \<Rightarrow> bool" where
  "fitting e \<longleftrightarrow> (case e of None \<Rightarrow> True | Some p \<Rightarrow> fits p)"

fun FileWAL_ok :: "'c gob \<Rightarrow> 'c WalOp \<Rightarrow> bool" where
  "FileWAL_ok g (SaveMeta t v) \<longleftrightarrow> True"
| "FileWAL_ok g (AppendLog es) \<longleftrightarrow> (\<forall>e \<in> set es. fitting (encodeEntry g e))"
| "FileWAL_ok g (TruncateSuffix k) \<longleftrightarrow> fitting (encodeTruncate g k)"
| "FileWAL_ok g (SaveSnapshot i t sn es) \<longleftrightarrow> sn \<noteq> Some [] \<and>
     fitting (encodeHeader g \<lparr>wh_SnapshotIndex = i, wh_SentinelTerm = t, wh_Snapshot = sn\<rparr>) \<and>
     (\<forall>e \<in> set es. fitting (encodeEntry g e))"

definition live :: "string \<Rightarrow> FileWAL \<Rightarrow> MemFS \<Rightarrow> bytes \<Rightarrow> bytes list \<Rightarrow> bool" where
  "live dir fw fs meta recs \<longleftrightarrow> \<not> m_crashed fs \<and> fw_dir fw = dir \<and> fw_metaPath fw = join dir ''meta'' \<and>
     fw_walPath fw = join dir ''wal'' \<and> m_files fs (join dir ''wal'') = Some (frames recs) \<and>
     fw_rl fw = \<lparr>f_name = join dir ''wal'', f_off = length (frames recs)\<rparr> \<and> (\<forall>p \<in> set recs. fits p) \<and>
     fileBytes fs (join dir ''meta'') = meta"

definition durable :: "string \<Rightarrow> MemFS \<Rightarrow> bytes \<Rightarrow> bytes list \<Rightarrow> bool" where
  "durable dir fs meta recs \<longleftrightarrow> (\<forall>p \<in> set recs. fits p) \<and> fileBytes fs (join dir ''meta'') = meta \<and>
     (\<exists>t. fileBytes fs (join dir ''wal'') = frames recs @ t \<and> parse t = [])"

lemma path_neq [simp]:
  "join dir ''meta'' \<noteq> join dir ''wal''" "join dir ''wal'' \<noteq> join dir ''meta''"
  "join dir ''meta'' \<noteq> tmpName (join dir ''wal'')" "join dir ''wal'' \<noteq> tmpName (join dir ''meta'')"
  by (simp_all add: join_def tmpName_def)

lemma frames_append: "frames (ps @ qs) = frames ps @ frames qs"
  by (induction ps) simp_all

lemma parse_Nil [simp]: "parse [] = []"
  by (simp add: parse.simps)

lemma live_durable: "live dir fw fs meta recs \<Longrightarrow> durable dir fs meta recs"
  unfolding live_def durable_def by (auto simp: fileBytes_def intro!: exI [of _ "[]"])

lemma live_armed [simp]: "live dir fw (armed l r fs) meta recs \<longleftrightarrow> live dir fw fs meta recs"
  by (simp add: live_def armed_def fileBytes_def)

lemma Append_run:
  assumes "live dir fw fs meta recs" "fits p" "Append (fw_rl fw) p fs = (r, fs')"
  shows "(\<exists>rl. r = Inr rl \<and> (\<forall>n. live dir (fw\<lparr>fw_rl := rl, fw_logBytes := n\<rparr>) fs' meta (recs @ [p]))) \<or>
    (r = Inl ErrCrash \<and> m_crashed fs' \<and> durable dir fs' meta recs)"
proof -
  from Append_outcome [OF _ _ _ assms(3), of "frames recs"] assms(1)
  consider (ok) "r = Inr ((fw_rl fw)\<lparr>f_off := length (frames recs) + length (appendRecord [] p)\<rparr>)" "\<not> m_crashed fs'"
      "m_files fs' = (m_files fs)(join dir ''wal'' \<mapsto> frames recs @ appendRecord [] p)"
    | (torn) t where "r = Inl ErrCrash" "m_crashed fs'" "strict_prefix t (appendRecord [] p)"
      "m_files fs' = (m_files fs)(join dir ''wal'' \<mapsto> frames recs @ t)"
    by (auto simp: live_def)
  then show ?thesis
  proof cases
    case ok
    then show ?thesis using assms(1,2) by (auto simp: live_def frames_append fileBytes_def)
  next
    case torn
    then show ?thesis using assms(1) parse_torn [OF assms(2) torn(3)] by (auto simp: live_def durable_def fileBytes_def)
  qed
qed

lemma those_Cons_Some:
  "those (map f (x # xs)) = Some ys \<longleftrightarrow> (\<exists>y ys'. f x = Some y \<and> those (map f xs) = Some ys' \<and> ys = y # ys')"
  by (auto split: option.splits)

lemma AppendLog_run:
  assumes "live dir fw fs meta recs" "those (map (encodeEntry g) es) = Some ps"
    "\<forall>e \<in> set es. fitting (encodeEntry g e)" "FileWAL_AppendLog g es fw fs = (r, fs')"
  shows "(\<exists>fw'. r = Some fw' \<and> live dir fw' fs' meta (recs @ ps)) \<or>
    (r = None \<and> m_crashed fs' \<and> (\<exists>j. durable dir fs' meta (recs @ take j ps)))"
  using assms
proof (induction es arbitrary: fw fs recs ps)
  case Nil
  then show ?case by (auto simp: finish_def)
next
  case (Cons e es)
  from Cons.prems(2) obtain p ps' where p: "encodeEntry g e = Some p" "those (map (encodeEntry g) es) = Some ps'"
    "ps = p # ps'" unfolding those_Cons_Some by blast
  have fit: "fits p" using Cons.prems(3) p(1) by (simp add: fitting_def)
  obtain r1 fs1 where a: "Append (fw_rl fw) p fs = (r1, fs1)" by fastforce
  from Append_run [OF Cons.prems(1) fit a] show ?case
  proof (elim disjE exE conjE)
    fix rl assume rl: "r1 = Inr rl" "\<forall>n. live dir (fw\<lparr>fw_rl := rl, fw_logBytes := n\<rparr>) fs1 meta (recs @ [p])"
    have go: "FileWAL_AppendLog g es (fw\<lparr>fw_rl := rl, fw_logBytes := fw_logBytes fw + int (length p)\<rparr>) fs1 = (r, fs')"
      using Cons.prems(4) a rl(1) by (simp add: p(1) encoded_def logRecord_def must_def)
    have "\<exists>j. durable dir fs' meta (recs @ take j (p # ps'))" if "durable dir fs' meta ((recs @ [p]) @ take j ps')" for j
      using that by (intro exI [of _ "Suc j"]) simp
    then show ?thesis using Cons.IH [OF spec [OF rl(2)] p(2) _ go] Cons.prems(3) p(3) by auto
  next
    assume "r1 = Inl ErrCrash" "m_crashed fs1" "durable dir fs1 meta recs"
    then show ?thesis using Cons.prems(4) a p
      by (auto simp: encoded_def logRecord_def must_def intro!: exI [of _ 0])
  qed
qed


lemma SaveMeta_run:
  assumes "live dir fw fs meta recs" "encodeMeta g \<lparr>ms_Term = t, ms_Vote = v\<rparr> = Some b"
    "FileWAL_SaveMeta g t v fw fs = (r, fs')"
  shows "(r = Some fw \<and> live dir fw fs' b recs) \<or>
    (r = None \<and> m_crashed fs' \<and> (durable dir fs' meta recs \<or> durable dir fs' b recs))"
proof -
  obtain r1 fs1 where a: "AtomicWrite dir (join dir ''meta'') b fs = (r1, fs1)" by fastforce
  then have r: "r = (case r1 of Inl e \<Rightarrow> None | Inr _ \<Rightarrow> Some fw)" "fs' = fs1"
    using assms by (auto simp: live_def FileWAL_SaveMeta_def encoded_def must_def finish_def split: sum.splits)
  show ?thesis using AtomicWrite_outcome [OF _ a] assms(1) unfolding r
    by (auto simp: live_def durable_def fileBytes_def intro!: exI [of _ "[]"])
qed

lemma suffixLoop_frames:
  "those (map (encodeEntry g) es) = Some ps \<Longrightarrow>
     suffixLoop g es content n = Some (content @ frames ps, n + sum_list (map (int \<circ> length) ps))"
proof (induction es arbitrary: ps content n)
  case (Cons e es)
  then obtain p ps' where p: "encodeEntry g e = Some p" "those (map (encodeEntry g) es) = Some ps'" "ps = p # ps'"
    unfolding those_Cons_Some by blast
  have "AppendRecord content p = content @ appendRecord [] p"
    unfolding AppendRecord_def by (subst appendRecord_eq) simp
  then show ?case using Cons.IH [OF p(2)] p by simp
qed simp

lemma those_fits:
  "those (map (encodeEntry g) es) = Some ps \<Longrightarrow> \<forall>e \<in> set es. fitting (encodeEntry g e) \<Longrightarrow> \<forall>p \<in> set ps. fits p"
proof (induction es arbitrary: ps)
  case (Cons e es)
  then show ?case unfolding those_Cons_Some by (auto simp: fitting_def)
qed simp

lemma SaveSnapshot_run:
  assumes "live dir fw fs meta recs" "wal_effect g (SaveSnapshot i t sn es) (meta, recs) = Some (meta, ps)"
    "\<forall>p \<in> set ps. fits p" "FileWAL_SaveSnapshot g i t sn es fw fs = (r, fs')"
  shows "(\<exists>fw'. r = Some fw' \<and> live dir fw' fs' meta ps) \<or>
    (r = None \<and> m_crashed fs' \<and> (durable dir fs' meta recs \<or> durable dir fs' meta ps))"
proof -
  obtain h qs where h: "encodeHeader g \<lparr>wh_SnapshotIndex = i, wh_SentinelTerm = t, wh_Snapshot = sn\<rparr> = Some h"
    "those (map (encodeEntry g) es) = Some qs" "ps = h # qs" using assms(2) by auto
  have content: "(do { h \<leftarrow> encodeHeader g \<lparr>wh_SnapshotIndex = i, wh_SentinelTerm = t, wh_Snapshot = sn\<rparr>;
      suffixLoop g es (AppendRecord [] h) 0 }) = Some (frames ps, sum_list (map (int \<circ> length) qs))"
    by (simp add: h(1) suffixLoop_frames [OF h(2)] h(3) AppendRecord_def)
  obtain r1 fs1 where a: "AtomicWrite dir (join dir ''wal'') (frames ps) fs = (r1, fs1)" by fastforce
  from AtomicWrite_outcome [OF _ a] assms(1)
  consider (ok) "r1 = Inr ()" "\<not> m_crashed fs1"
      "m_files fs1 = (m_files fs)(join dir ''wal'' \<mapsto> frames ps, tmpName (join dir ''wal'') := None)"
    | (crash) "r1 = Inl ErrCrash" "m_crashed fs1" "durable dir fs1 meta recs \<or> durable dir fs1 meta ps"
    using assms(3) by (auto simp: live_def durable_def fileBytes_def)
  then show ?thesis
  proof cases
    case ok
    then have "r = Some (fw\<lparr>fw_logBytes := sum_list (map (int \<circ> length) qs),
        fw_rl := \<lparr>f_name = join dir ''wal'', f_off = length (frames ps)\<rparr>\<rparr>)" "fs' = fs1"
      using assms(1,4) a unfolding FileWAL_SaveSnapshot_def content
      by (auto simp: live_def encoded_def must_def finish_def Close_def OpenAppend_def)
    then show ?thesis using ok assms(1,3) by (auto simp: live_def fileBytes_def)
  next
    case crash
    then show ?thesis using assms(1,4) a unfolding FileWAL_SaveSnapshot_def content
      by (auto simp: live_def encoded_def must_def)
  qed
qed

text \<open>Every call, whatever faults are armed: it ends with its effect, or dies.\<close>

definition may_leave :: "'c gob \<Rightarrow> 'c WalOp \<Rightarrow> bytes \<times> bytes list \<Rightarrow> bytes \<times> bytes list \<Rightarrow> bool" where
  "may_leave g op c c' \<longleftrightarrow> c' = c \<or> wal_effect g op c = Some c' \<or>
     (\<exists>es j. op = AppendLog es \<and> wal_effect g (AppendLog (take j es)) c = Some c')"

lemma those_take: "those (map f xs) = Some ys \<Longrightarrow> those (map f (take j xs)) = Some (take j ys)"
proof (induction xs arbitrary: ys j)
  case (Cons x xs)
  then obtain y ys' where "f x = Some y" "those (map f xs) = Some ys'" "ys = y # ys'"
    unfolding those_Cons_Some by blast
  then show ?case using Cons.IH by (cases j) auto
qed simp

lemma call_run:
  assumes l: "live dir fw fs meta recs" and ok: "FileWAL_ok g op"
    and eff: "wal_effect g op (meta, recs) = Some (meta', recs')" and c: "FileWAL_call g op fw fs = (r, fs')"
  shows "(\<exists>fw'. r = Some fw' \<and> live dir fw' fs' meta' recs') \<or>
    (r = None \<and> m_crashed fs' \<and> (\<exists>m1 r1. may_leave g op (meta, recs) (m1, r1) \<and> durable dir fs' m1 r1))"
proof (cases op)
  case (SaveMeta t v)
  then obtain b where b: "encodeMeta g \<lparr>ms_Term = t, ms_Vote = v\<rparr> = Some b" "meta' = b" "recs' = recs"
    using eff by auto
  have "FileWAL_SaveMeta g t v fw fs = (r, fs')" using c SaveMeta by simp
  from SaveMeta_run [OF l b(1) this] show ?thesis using eff b(2,3) unfolding may_leave_def by blast
next
  case (AppendLog es)
  then obtain ps where ps: "those (map (encodeEntry g) es) = Some ps" "meta' = meta" "recs' = recs @ ps"
    using eff by auto
  have a: "\<forall>e \<in> set es. fitting (encodeEntry g e)" "FileWAL_AppendLog g es fw fs = (r, fs')"
    using ok c AppendLog by simp_all
  have "may_leave g op (meta, recs) (meta, recs @ take j ps)" for j
    unfolding may_leave_def AppendLog by (simp add: those_take [OF ps(1)]) blast
  with AppendLog_run [OF l ps(1) a] ps(2,3) show ?thesis by blast
next
  case (TruncateSuffix k)
  then obtain p where p: "encodeTruncate g k = Some p" "meta' = meta" "recs' = recs @ [p]" using eff by auto
  have fit: "fits p" using ok p(1) TruncateSuffix by (simp add: fitting_def)
  obtain r1 fs1 where a: "Append (fw_rl fw) p fs = (r1, fs1)" by fastforce
  show ?thesis using Append_run [OF l fit a] c a p TruncateSuffix
    by (auto simp: FileWAL_TruncateSuffix_def encoded_def logRecord_def must_def finish_def may_leave_def) blast
next
  case (SaveSnapshot i t sn es)
  then have m: "meta' = meta" and fit: "\<forall>p \<in> set recs'. fits p"
    using eff ok those_fits [of g es] by (auto simp: fitting_def)
  have "FileWAL_SaveSnapshot g i t sn es fw fs = (r, fs')" using c SaveSnapshot by simp
  from SaveSnapshot_run [OF l _ fit this] show ?thesis
    using eff unfolding may_leave_def m SaveSnapshot by blast
qed


section \<open>The effect on the state that is loaded\<close>

definition stored :: "'c gob \<Rightarrow> bytes \<times> bytes list \<Rightarrow> 'c PersistState option" where
  "stored g c = map_option fst (loadState g (nilCopy (fst c)) (snd c))"

lemma loadMeta_nilCopy: "loadMeta g (nilCopy b) = (if b = [] then Some \<lparr>ms_Term = 0, ms_Vote = ''''\<rparr> else g_decMeta g b)"
  by (simp add: loadMeta_def nilCopy_def)

lemma stored_Some_iff:
  "stored g (meta, recs) = Some st \<longleftrightarrow> (\<exists>m h rest logs. loadMeta g (nilCopy meta) = Some m \<and>
     loadHeader g recs = Some (h, rest) \<and>
     loadLoop g (wh_SnapshotIndex h) [sentinel (wh_SentinelTerm h)] rest = Some logs \<and>
     st = \<lparr>ps_Term = ms_Term m, ps_Vote = ms_Vote m, ps_Logs = logs,
       ps_SnapshotIndex = wh_SnapshotIndex h, ps_Snapshot = wh_Snapshot h\<rparr>)"
  by (auto simp: stored_def loadState_def split: Option.bind_splits)

lemma loadLoop_append: "loadLoop g b ls (ps @ qs) = do { ls' \<leftarrow> loadLoop g b ls ps; loadLoop g b ls' qs }"
  by (induction g b ls ps rule: loadLoop.induct) (auto split: Option.bind_splits)

lemma loadHeader_append:
  assumes "loadHeader g recs = Some (h, rest)" "\<forall>p \<in> set ps. \<exists>t q. p = t # q \<and> t \<noteq> recHeader"
  shows "loadHeader g (recs @ ps) = Some (h, rest @ ps)"
  using assms
  by (cases recs; cases ps) (auto simp: loadHeader_def Let_def sl_get_def split: Option.bind_splits if_splits)

lemma gob_okD:
  assumes "gob_ok g"
  shows "\<exists>b. g_encEntry g e = Some b \<and> g_decEntry g b = Some e" "\<exists>b. g_encInt g k = Some b \<and> g_decInt g b = Some k"
    "\<exists>b. g_encHeader g h = Some b \<and> g_decHeader g b = Some (h\<lparr>wh_Snapshot := nilEmpty (wh_Snapshot h)\<rparr>)"
    "\<exists>b. g_encMeta g m = Some b \<and> b \<noteq> [] \<and> g_decMeta g b = Some m"
  using assms unfolding gob_ok_def by blast+

lemma tags_neq [simp]: "recEntry \<noteq> recHeader" "recTruncate \<noteq> recHeader" "recTruncate \<noteq> recEntry" "recHeader \<noteq> recEntry"
  by (simp_all add: recEntry_def recHeader_def recTruncate_def)

text \<open>The records of some entries append these entries.\<close>

lemma entry_records:
  assumes "gob_ok g"
  shows "\<exists>ps. those (map (encodeEntry g) es) = Some ps \<and> (\<forall>p \<in> set ps. \<exists>t q. p = t # q \<and> t \<noteq> recHeader) \<and>
    (\<forall>b ls. loadLoop g b ls ps = Some (ls @ es))"
proof (induction es)
  case (Cons e es)
  then obtain ps where ps: "those (map (encodeEntry g) es) = Some ps"
    "\<forall>p \<in> set ps. \<exists>t q. p = t # q \<and> t \<noteq> recHeader" "\<forall>b ls. loadLoop g b ls ps = Some (ls @ es)" by blast
  obtain q where q: "g_encEntry g e = Some q" "g_decEntry g q = Some e" using gob_okD(1) [OF assms] by blast
  have "those (map (encodeEntry g) (e # es)) = Some ((recEntry # q) # ps)" by (simp add: encodeEntry_def q(1) ps(1))
  moreover have "loadLoop g b ls ((recEntry # q) # ps) = Some (ls @ e # es)" for b ls
    by (simp add: sl_get_def q(2) ps(3))
  ultimately show ?case using ps(2) by (intro exI [of _ "(recEntry # q) # ps"]) auto
qed simp

lemma stored_append:
  assumes "stored g (meta, recs) = Some st" "\<forall>p \<in> set ps. \<exists>t q. p = t # q \<and> t \<noteq> recHeader"
    "loadLoop g (ps_SnapshotIndex st) (ps_Logs st) ps = Some ls"
  shows "stored g (meta, recs @ ps) = Some (st\<lparr>ps_Logs := ls\<rparr>)"
proof -
  obtain m h rest logs where s: "loadMeta g (nilCopy meta) = Some m" "loadHeader g recs = Some (h, rest)"
    "loadLoop g (wh_SnapshotIndex h) [sentinel (wh_SentinelTerm h)] rest = Some logs"
    "st = \<lparr>ps_Term = ms_Term m, ps_Vote = ms_Vote m, ps_Logs = logs, ps_SnapshotIndex = wh_SnapshotIndex h,
      ps_Snapshot = wh_Snapshot h\<rparr>"
    using assms(1) unfolding stored_Some_iff by blast
  show ?thesis
    unfolding stored_Some_iff using s(1) loadHeader_append [OF s(2) assms(2)] assms(3) s(3,4)
    by (auto simp: loadLoop_append)
qed

lemma effect_stored:
  assumes "gob_ok g" "stored g (meta, recs) = Some st" "wal_apply op st = Some st'" "FileWAL_ok g op"
  shows "\<exists>c'. wal_effect g op (meta, recs) = Some c' \<and> stored g c' = Some st'"
proof (cases op)
  case (SaveMeta t v)
  obtain b where "g_encMeta g \<lparr>ms_Term = t, ms_Vote = v\<rparr> = Some b" "b \<noteq> []"
    "g_decMeta g b = Some \<lparr>ms_Term = t, ms_Vote = v\<rparr>" using gob_okD(4) [OF assms(1)] by blast
  then show ?thesis using assms(2,3) SaveMeta
    by (auto simp: encodeMeta_def stored_Some_iff loadMeta_nilCopy)
next
  case (AppendLog es)
  obtain ps where "those (map (encodeEntry g) es) = Some ps" "\<forall>p \<in> set ps. \<exists>t q. p = t # q \<and> t \<noteq> recHeader"
    "\<forall>b ls. loadLoop g b ls ps = Some (ls @ es)" using entry_records [OF assms(1)] by blast
  then show ?thesis using stored_append [OF assms(2)] assms(3) AppendLog by simp
next
  case (TruncateSuffix k)
  obtain q where q: "g_encInt g k = Some q" "g_decInt g q = Some k" using gob_okD(2) [OF assms(1)] by blast
  obtain ls where ls: "sl_upto (ps_Logs st) (k - ps_SnapshotIndex st) = Some ls" "st' = st\<lparr>ps_Logs := ls\<rparr>"
    using assms(3) TruncateSuffix by auto
  have "loadLoop g (ps_SnapshotIndex st) (ps_Logs st) [recTruncate # q] = Some ls"
    by (simp add: sl_get_def q(2) ls(1))
  then show ?thesis using stored_append [OF assms(2), of "[recTruncate # q]" ls] q(1) ls(2) TruncateSuffix
    by (simp add: encodeTruncate_def)
next
  case (SaveSnapshot i t sn es)
  let ?h = "\<lparr>wh_SnapshotIndex = i, wh_SentinelTerm = t, wh_Snapshot = sn\<rparr>"
  have "nilEmpty sn = sn" using assms(4) SaveSnapshot by (simp add: nilEmpty_def)
  then obtain b where b: "g_encHeader g ?h = Some b" "g_decHeader g b = Some ?h"
    using gob_okD(3) [OF assms(1), of ?h] by auto
  obtain ps where ps: "those (map (encodeEntry g) es) = Some ps" "\<forall>b ls. loadLoop g b ls ps = Some (ls @ es)"
    using entry_records [OF assms(1)] by blast
  have hd: "loadHeader g ((recHeader # b) # ps) = Some (?h, ps)" by (simp add: loadHeader_def sl_get_def b(2))
  have "stored g (meta, (recHeader # b) # ps) = Some st'"
    using assms(2,3) SaveSnapshot hd ps(2) unfolding stored_Some_iff by auto
  then show ?thesis using b(1) ps(1) SaveSnapshot by (simp add: encodeHeader_def)
qed


section \<open>The contract\<close>

text \<open>The process starts: the disk is back, the log is opened and loaded.\<close>

definition FileWAL_start :: "'c gob \<Rightarrow> string \<Rightarrow> MemFS \<Rightarrow> ((FileWAL \<times> MemFS) \<times> 'c PersistState \<times> bool) option" where
  "FileWAL_start g dir fs = (case FileWAL_Open dir (Reboot fs) of
       (Inl e, fs') \<Rightarrow> None
     | (Inr fw, fs') \<Rightarrow> do { loaded \<leftarrow> FileWAL_Load g fw fs'; Some ((fw, fs'), loaded) })"

text \<open>
  The process dies in a call: the faults are armed at its start or, in \<open>AppendLog\<close>, before any
  of its records.
\<close>

fun done_part :: "'c WalOp \<Rightarrow> nat \<Rightarrow> 'c WalOp" where
  "done_part (AppendLog es) k = AppendLog (take k es)"
| "done_part op k = AppendLog []"

fun left_part :: "'c WalOp \<Rightarrow> nat \<Rightarrow> 'c WalOp" where
  "left_part (AppendLog es) k = AppendLog (drop k es)"
| "left_part op k = op"

inductive FileWAL_crash :: "'c gob \<Rightarrow> 'c WalOp \<Rightarrow> FileWAL \<times> MemFS \<Rightarrow> FileWAL \<times> MemFS \<Rightarrow> bool" for g where
  "FileWAL_call g (done_part op k) fw fs = (Some fw1, fs1) \<Longrightarrow>
   FileWAL_call g (left_part op k) fw1 (armed l r fs1) = (res, fs2) \<Longrightarrow> FileWAL_crash g op (fw, fs) (fw', fs2)"

definition fileProvider :: "'c gob \<Rightarrow> string \<Rightarrow> ('c, FileWAL \<times> MemFS) provider" where
  "fileProvider g dir = \<lparr>wp_ok = FileWAL_ok g,
     wp_call = (\<lambda>op (fw, fs). case FileWAL_call g op fw fs of
         (None, fs') \<Rightarrow> None | (Some fw', fs') \<Rightarrow> Some (fw', fs')),
     wp_crash = FileWAL_crash g, wp_restart = (\<lambda>(fw, fs). FileWAL_start g dir fs)\<rparr>"

definition FileWAL_inv :: "'c gob \<Rightarrow> string \<Rightarrow> FileWAL \<times> MemFS \<Rightarrow> bool" where
  "FileWAL_inv g dir w \<longleftrightarrow> gob_ok g \<and> sound (snd w) \<and>
     (\<exists>meta recs. live dir (fst w) (snd w) meta recs \<and> stored g (meta, recs) \<noteq> None)"

definition FileWAL_abs :: "'c gob \<Rightarrow> string \<Rightarrow> FileWAL \<times> MemFS \<Rightarrow> 'c PersistState" where
  "FileWAL_abs g dir w = the (stored g (fileBytes (snd w) (join dir ''meta''),
     parse (fileBytes (snd w) (join dir ''wal''))))"

lemma FileWAL_abs_live:
  "live dir fw fs meta recs \<Longrightarrow> FileWAL_abs g dir (fw, fs) = the (stored g (meta, recs))"
  using parse_frames [of recs "[]"] by (auto simp: FileWAL_abs_def live_def fileBytes_def)

lemma FileWAL_invD:
  assumes "FileWAL_inv g dir (fw, fs)"
  obtains meta recs where "gob_ok g" "sound fs" "live dir fw fs meta recs"
    "stored g (meta, recs) = Some (FileWAL_abs g dir (fw, fs))"
proof -
  from assms obtain meta recs where l: "gob_ok g" "sound fs" "live dir fw fs meta recs" "stored g (meta, recs) \<noteq> None"
    unfolding FileWAL_inv_def by auto
  then have "stored g (meta, recs) = Some (FileWAL_abs g dir (fw, fs))"
    using FileWAL_abs_live [OF l(3), of g] by auto
  then show ?thesis using l(1-3) that by blast
qed

lemma sound_Append: "sound fs \<Longrightarrow> Append rl p fs = (r, fs') \<Longrightarrow> sound fs'"
  by (auto simp: sound_def Append_def fs_bind_def fs_return_def Write_def writeAt_def Sync_def Let_def split: if_splits)

lemma sound_AppendLog: "sound fs \<Longrightarrow> FileWAL_AppendLog g es fw fs = (r, fs') \<Longrightarrow> sound fs'"
proof (induction es arbitrary: fw fs)
  case (Cons e es)
  show ?case
  proof (cases "encodeEntry g e")
    case (Some p)
    obtain r1 fs1 where a: "Append (fw_rl fw) p fs = (r1, fs1)" by fastforce
    then show ?thesis using Cons sound_Append [OF Cons.prems(1) a] Some
      by (auto simp: encoded_def logRecord_def must_def split: sum.splits)
  qed (use Cons.prems in \<open>simp add: encoded_def\<close>)
qed (simp add: finish_def)

lemma sound_call:
  assumes "sound fs" "FileWAL_call g op fw fs = (r, fs')"
  shows "sound fs'"
proof (cases op)
  case (SaveMeta t v)
  then show ?thesis using assms by (auto simp: FileWAL_SaveMeta_def encoded_def must_def finish_def AtomicWrite_sound
    split: option.splits) (simp add: sound_def)
next
  case (TruncateSuffix k)
  obtain r1 fs1 where a: "\<And>p. encodeTruncate g k = Some p \<Longrightarrow> Append (fw_rl fw) p fs = (r1, fs1)" by (metis option.inject surj_pair)
  then show ?thesis using assms sound_Append [OF assms(1)] TruncateSuffix
    by (auto simp: FileWAL_TruncateSuffix_def encoded_def logRecord_def must_def finish_def split: option.splits sum.splits)
next
  case (SaveSnapshot i t sn es)
  then show ?thesis using assms
    by (auto simp: FileWAL_SaveSnapshot_def encoded_def must_def finish_def AtomicWrite_sound Close_def OpenAppend_def
      sound_def Let_def split: option.splits if_splits)
qed (use assms sound_AppendLog in auto)

text \<open>A restart finds what is durable.\<close>

lemma start_durable:
  assumes "durable dir fs meta recs" "stored g (meta, recs) = Some st" "gob_ok g"
  shows "\<exists>fw fs' ok. FileWAL_start g dir fs = Some ((fw, fs'), st, ok) \<and> FileWAL_inv g dir (fw, fs') \<and>
    FileWAL_abs g dir (fw, fs') = st \<and> load_agrees (st, ok) st"
proof -
  obtain t where t: "fileBytes fs (join dir ''wal'') = frames recs @ t" "parse t = []" "\<forall>p \<in> set recs. fits p"
    "fileBytes fs (join dir ''meta'') = meta" using assms(1) by (auto simp: durable_def)
  let ?fs = "(Reboot fs)\<lparr>m_files := (m_files fs)(join dir ''wal'' \<mapsto> frames recs)\<rparr>"
  have fb: "fileBytes (Reboot fs) x = fileBytes fs x" for x by (simp add: fileBytes_def)
  have "OpenRecordLog (join dir ''wal'') (Reboot fs) = (Inr (\<lparr>f_name = join dir ''wal'', f_off = length (frames recs)\<rparr>, recs), ?fs)"
    using OpenRecordLog_outcome [of "Reboot fs" "join dir ''wal''" recs] t(1,2) parse_frames [OF t(3)]
    by (simp add: fb)
  then have "FileWAL_Open dir (Reboot fs) = (Inr \<lparr>fw_dir = dir, fw_metaPath = join dir ''meta'',
      fw_walPath = join dir ''wal'', fw_rl = \<lparr>f_name = join dir ''wal'', f_off = length (frames recs)\<rparr>, fw_records = recs,
      fw_logBytes = sum_list (map (\<lambda>p. if p \<noteq> [] \<and> hd p \<noteq> recHeader then int (length p) else 0) recs)\<rparr>, ?fs)"
    (is "_ = (Inr ?fw, _)")
    by (simp add: FileWAL_Open_def fs_bind_def fs_return_def Let_def)
  moreover have "live dir ?fw ?fs meta recs" "fw_records ?fw = recs"
    using t(3,4) by (simp_all add: live_def fileBytes_def)
  ultimately obtain fw where fw: "FileWAL_Open dir (Reboot fs) = (Inr fw, ?fs)" "live dir fw ?fs meta recs" "fw_records fw = recs"
    by blast
  have "ReadFile (fw_metaPath fw) ?fs = (Inr (nilCopy meta), ?fs)"
    using fw(2) t(4) by (auto simp: live_def ReadFile_def fileBytes_def nilCopy_def split: option.splits)
  then have "FileWAL_Load g fw ?fs = loadState g (nilCopy meta) recs" by (simp add: FileWAL_Load_def fw(3))
  moreover obtain ok where ok: "loadState g (nilCopy meta) recs = Some (st, ok)"
    using assms(2) by (auto simp: stored_def)
  ultimately have "FileWAL_start g dir fs = Some ((fw, ?fs), st, ok)" by (simp add: FileWAL_start_def fw(1))
  moreover have "FileWAL_inv g dir (fw, ?fs)"
    using assms(2,3) fw(2) by (auto simp: FileWAL_inv_def sound_def Reboot_def)
  moreover have "load_agrees (st, ok) st"
    using ok by (cases ok) (auto simp: load_agrees_def loadState_def nilCopy_def loadMeta_def loadHeader_def
      PersistState0_def split: if_splits)
  ultimately show ?thesis using FileWAL_abs_live [OF fw(2), of g] assms(2) by auto
qed


lemma may_leave_stored:
  assumes "gob_ok g" "stored g c = Some st" "FileWAL_ok g op" "wal_apply op st \<noteq> None" "may_leave g op c c'"
  shows "\<exists>st'. stored g c' = Some st' \<and> wal_crash [op] st st'"
proof -
  obtain meta recs where c: "c = (meta, recs)" by fastforce
  consider "c' = c" | "wal_effect g op c = Some c'"
    | es j where "op = AppendLog es" "wal_effect g (AppendLog (take j es)) c = Some c'"
    using assms(5) unfolding may_leave_def by blast
  then show ?thesis
  proof cases
    case 1
    then show ?thesis using assms(2) crash_here by blast
  next
    case 2
    obtain st' where st': "wal_apply op st = Some st'" using assms(4) by blast
    have "stored g c' = Some st'" using effect_stored [of g meta recs, OF assms(1) _ st' assms(3)] assms(2) 2 c by auto
    then show ?thesis using crash_after [OF st' crash_here] by blast
  next
    case 3
    let ?st = "st\<lparr>ps_Logs := ps_Logs st @ take j es\<rparr>"
    have app: "wal_apply (AppendLog (take j es)) st = Some ?st" by simp
    have "FileWAL_ok g (AppendLog (take j es))" using assms(3) 3(1) by (auto dest: in_set_takeD)
    then have "stored g c' = Some ?st"
      using effect_stored [of g meta recs, OF assms(1) _ app] assms(2) 3(2) c by auto
    then show ?thesis using crash_within [OF app] 3(1) by blast
  qed
qed

lemma those_append:
  "those (map f xs) = Some as \<Longrightarrow> those (map f ys) = Some bs \<Longrightarrow> those (map f (xs @ ys)) = Some (as @ bs)"
  by (induction xs arbitrary: as) (auto split: option.splits)

lemma wal_effect_append:
  assumes "wal_effect g (AppendLog (take k es)) c = Some c1" "wal_effect g (AppendLog (take j (drop k es))) c1 = Some c2"
  shows "wal_effect g (AppendLog (take (k + j) es)) c = Some c2"
  using assms those_append [of "encodeEntry g" "take k es" _ "take j (drop k es)"]
  by (cases c) (auto simp: take_add)

lemma may_leave_parts:
  assumes "wal_effect g (done_part op k) c = Some c1" "may_leave g (left_part op k) c1 c2"
  shows "may_leave g op c c2"
proof (cases "\<exists>es. op = AppendLog es")
  case True
  then obtain es where es: "op = AppendLog es" by blast
  then have e1: "wal_effect g (AppendLog (take k es)) c = Some c1" using assms(1) by simp
  have "may_leave g (AppendLog (drop k es)) c1 c2" using assms(2) es by simp
  then consider "c2 = c1" | j where "wal_effect g (AppendLog (take j (drop k es))) c1 = Some c2"
    unfolding may_leave_def by (metis WalOp.inject(2) take_all_iff order_refl)
  then show ?thesis using e1 wal_effect_append [OF e1] unfolding may_leave_def es by cases blast+
next
  case False
  then show ?thesis using assms by (cases op; cases c) auto
qed

lemma FileWAL_ok_parts: "FileWAL_ok g op \<Longrightarrow> FileWAL_ok g (done_part op k) \<and> FileWAL_ok g (left_part op k)"
  by (cases op) (auto dest: in_set_takeD in_set_dropD)

lemma crash_durable:
  assumes inv: "FileWAL_inv g dir (fw, fs)" and ok: "FileWAL_ok g op"
    and ap: "wal_apply op (FileWAL_abs g dir (fw, fs)) \<noteq> None" and cr: "FileWAL_crash g op (fw, fs) (fw', fs')"
  shows "\<exists>meta recs st. durable dir fs' meta recs \<and> stored g (meta, recs) = Some st \<and>
    wal_crash [op] (FileWAL_abs g dir (fw, fs)) st"
proof -
  let ?st = "FileWAL_abs g dir (fw, fs)"
  obtain meta recs where g: "gob_ok g" and l: "live dir fw fs meta recs" and s: "stored g (meta, recs) = Some ?st"
    by (rule FileWAL_invD [OF inv])
  from cr obtain k fw1 fs1 l1 r1 res where
    c1: "FileWAL_call g (done_part op k) fw fs = (Some fw1, fs1)" and
    c2: "FileWAL_call g (left_part op k) fw1 (armed l1 r1 fs1) = (res, fs')"
    by (auto elim: FileWAL_crash.cases)
  note parts = FileWAL_ok_parts [OF ok, of k]
  obtain s1 where s1: "wal_apply (done_part op k) ?st = Some s1" by (cases op) auto
  obtain m1 q1 where e1: "wal_effect g (done_part op k) (meta, recs) = Some (m1, q1)" "stored g (m1, q1) = Some s1"
    using effect_stored [OF g s s1] parts by fastforce
  have l1: "live dir fw1 fs1 m1 q1" using call_run [OF l _ e1(1) c1] parts by auto
  obtain s2 where s2: "wal_apply (left_part op k) s1 = Some s2"
    using ap s1 by (cases op) auto
  obtain m2 q2 where e2: "wal_effect g (left_part op k) (m1, q1) = Some (m2, q2)"
    using effect_stored [OF g e1(2) s2] parts by fastforce
  have full: "may_leave g (left_part op k) (m1, q1) (m2, q2)" using e2 by (simp add: may_leave_def)
  have "\<exists>m3 q3. may_leave g (left_part op k) (m1, q1) (m3, q3) \<and> durable dir fs' m3 q3"
    using call_run [of dir fw1 "armed l1 r1 fs1" m1 q1, OF _ _ e2 c2] l1 parts full live_durable by simp blast
  then obtain m3 q3 where "may_leave g op (meta, recs) (m3, q3)" "durable dir fs' m3 q3"
    using may_leave_parts [OF e1(1)] by blast
  then show ?thesis using may_leave_stored [OF g s ok ap] by blast
qed

text \<open>The log on files keeps the contract of the write-ahead log.\<close>

interpretation fw: wal_contract "fileProvider g dir" "FileWAL_inv g dir" "FileWAL_abs g dir" for g dir
proof unfold_locales
  fix w op st
  assume inv: "FileWAL_inv g dir w" and ok: "wp_ok (fileProvider g dir) op"
    and ap: "wal_apply op (FileWAL_abs g dir w) = Some st"
  obtain fw fs where w: "w = (fw, fs)" by fastforce
  obtain meta recs where g: "gob_ok g" and so: "sound fs" and l: "live dir fw fs meta recs"
    and s: "stored g (meta, recs) = Some (FileWAL_abs g dir w)"
    unfolding w by (rule FileWAL_invD [OF inv [unfolded w]])
  have ok': "FileWAL_ok g op" using ok by (simp add: fileProvider_def)
  obtain m1 q1 where e: "wal_effect g op (meta, recs) = Some (m1, q1)" "stored g (m1, q1) = Some st"
    using effect_stored [OF g s ap ok'] by fastforce
  obtain r fs' where c: "FileWAL_call g op fw fs = (r, fs')" by fastforce
  have so': "sound fs'" by (rule sound_call [OF so c])
  then obtain fw' where "r = Some fw'" "live dir fw' fs' m1 q1"
    using call_run [OF l ok' e(1) c] by (auto simp: sound_def)
  then show "\<exists>w'. wp_call (fileProvider g dir) op w = Some w' \<and> FileWAL_inv g dir w' \<and> FileWAL_abs g dir w' = st"
    using c e(2) g so' FileWAL_abs_live [of dir fw' fs' m1 q1 g]
    by (auto simp: fileProvider_def w FileWAL_inv_def)
next
  fix w op w1
  assume inv: "FileWAL_inv g dir w" and ok: "wp_ok (fileProvider g dir) op"
    and ap: "wal_apply op (FileWAL_abs g dir w) \<noteq> None" and cr: "wp_crash (fileProvider g dir) op w w1"
  obtain fw fs fw1 fs1 where w: "w = (fw, fs)" "w1 = (fw1, fs1)" by fastforce
  have "FileWAL_ok g op" "FileWAL_crash g op (fw, fs) (fw1, fs1)" using ok cr by (simp_all add: fileProvider_def w)
  from crash_durable [OF inv [unfolded w] this(1) ap [unfolded w] this(2)] obtain meta recs st where
    d: "durable dir fs1 meta recs" "stored g (meta, recs) = Some st" "wal_crash [op] (FileWAL_abs g dir w) st"
    unfolding w by blast
  have "gob_ok g" using inv by (simp add: FileWAL_inv_def)
  from start_durable [OF d(1,2) this] d(3)
  show "\<exists>w' loaded. wp_restart (fileProvider g dir) w1 = Some (w', loaded) \<and> FileWAL_inv g dir w' \<and>
      load_agrees loaded (FileWAL_abs g dir w') \<and> wal_crash [op] (FileWAL_abs g dir w) (FileWAL_abs g dir w')"
    by (auto simp: fileProvider_def w)
next
  fix w
  assume inv: "FileWAL_inv g dir w"
  obtain fw fs where w: "w = (fw, fs)" by fastforce
  obtain meta recs where "live dir fw fs meta recs" "stored g (meta, recs) = Some (FileWAL_abs g dir w)" "gob_ok g"
    unfolding w by (rule FileWAL_invD [OF inv [unfolded w]])
  from start_durable [OF live_durable [OF this(1)] this(2,3)]
  show "\<exists>w' loaded. wp_restart (fileProvider g dir) w = Some (w', loaded) \<and> FileWAL_inv g dir w' \<and>
      load_agrees loaded (FileWAL_abs g dir w') \<and> FileWAL_abs g dir w' = FileWAL_abs g dir w"
    by (auto simp: fileProvider_def w)
qed


section \<open>A tail of zeros\<close>

lemma loadLoop_empty_record: "loadLoop g b ls (ps @ [[]]) = None"
  by (induction g b ls ps rule: loadLoop.induct) (auto simp: sl_get_def split: Option.bind_splits)

text \<open>
  C31. A log file of complete records that are followed by exactly eight zero bytes, which is how a
  file system may leave a file whose last write was lost in a crash, is not healed: the zeros replay
  as an empty record, \<open>Load\<close> panics on its missing tag, and the process does not start on this
  disk.
\<close>

theorem filewal_zero_tail_panics:
  assumes "\<forall>p \<in> set recs. fits p" "m_files fs (join dir ''wal'') = Some (frames recs @ replicate 8 0)"
  shows "FileWAL_start g dir fs = None"
proof -
  let ?recs = "recs @ [[]]"
  have f: "frames ?recs = frames recs @ replicate 8 0" by (simp add: frames_append zero_record [symmetric])
  have "parse (frames recs @ replicate 8 0) = ?recs"
    using parse_frames [of ?recs "[]"] assms(1) unfolding f by (simp add: fits_def)
  then have o: "OpenRecordLog (join dir ''wal'') (Reboot fs) = (Inr (\<lparr>f_name = join dir ''wal'', f_off = length (frames ?recs)\<rparr>, ?recs),
      (Reboot fs)\<lparr>m_files := (m_files fs)(join dir ''wal'' \<mapsto> frames ?recs)\<rparr>)"
    using OpenRecordLog_outcome [of "Reboot fs" "join dir ''wal''" ?recs] assms(2) f by (simp add: fileBytes_def)
  have cons: "loadLoop g b ls (a # as @ [[]]) = None" for b ls a as
    using loadLoop_empty_record [of g b ls "a # as"] by simp
  have "loadState g mb ?recs = None" for mb
    by (cases recs) (auto simp: loadState_def loadHeader_def Let_def sl_get_def loadLoop_empty_record
      cons split: Option.bind_splits simp del: loadLoop.simps)
  then show ?thesis using o
    by (auto simp: FileWAL_start_def FileWAL_Open_def fs_bind_def fs_return_def FileWAL_Load_def Let_def split: prod.splits sum.splits)
qed

theorem filewal_zero_tail_panics_witness:
  "\<forall>g :: nat gob. FileWAL_start g ''d'' (NewMemFS\<lparr>m_files := [''d/wal'' \<mapsto> replicate 8 0]\<rparr>) = None"
proof
  fix g :: "nat gob"
  show "FileWAL_start g ''d'' (NewMemFS\<lparr>m_files := [''d/wal'' \<mapsto> replicate 8 0]\<rparr>) = None"
    by (rule filewal_zero_tail_panics [of "[]"]) (simp_all add: join_def)
qed

end
