(* ===== verification/Persist.thy ===== *)
theory Persist
  imports WalContract MemFS
begin

text \<open>
  The whole-state persisters: the interface of \<open>persist/persist.go\<close>, its in-memory
  implementation of \<open>tester1/persister.go\<close>, the file of \<open>persist/file.go\<close> with its
  bundle format, and the adapter \<open>persisterWAL\<close> of \<open>raft1/wal.go\<close> that makes a
  write-ahead log of them by rewriting everything on every call. The gob encoding of the Raft state
  is a parameter.
\<close>

definition bytesOf :: "slice \<Rightarrow> bytes" where
  "bytesOf s = (case s of None \<Rightarrow> [] | Some b \<Rightarrow> b)"

lemma bytesOf_simps [simp]: "bytesOf None = []" "bytesOf (Some b) = b"
  by (simp_all add: bytesOf_def)

record 'p persisterOps =
  po_Save :: "slice \<Rightarrow> slice \<Rightarrow> 'p \<Rightarrow> 'p option"
  po_ReadRaftState :: "'p \<Rightarrow> slice"
  po_ReadSnapshot :: "'p \<Rightarrow> slice"

text \<open>
  What a persister promises: \<open>content\<close> is the pair of byte strings that was saved last. A
  missing snapshot and an empty one are the same bytes; \<open>blank\<close> is how it reads them.
\<close>

locale persister =
  fixes S :: "'p persisterOps" and inv :: "'p \<Rightarrow> bool" and content :: "'p \<Rightarrow> bytes \<times> bytes"
    and fit :: "bytes \<Rightarrow> bytes \<Rightarrow> bool" and blank :: slice
  assumes save: "inv p \<Longrightarrow> fit (bytesOf rs) (bytesOf sn) \<Longrightarrow>
      \<exists>p'. po_Save S rs sn p = Some p' \<and> inv p' \<and> content p' = (bytesOf rs, bytesOf sn)"
    and raft: "inv p \<Longrightarrow> bytesOf (po_ReadRaftState S p) = fst (content p)"
    and snap: "inv p \<Longrightarrow> po_ReadSnapshot S p = (if snd (content p) = [] then blank else Some (snd (content p)))"
begin

lemma save_read:
  assumes "inv p" "fit (bytesOf rs) b" "b \<noteq> []" "po_Save S rs (Some b) p = Some p'"
  shows "bytesOf (po_ReadRaftState S p') = bytesOf rs" "po_ReadSnapshot S p' = Some b"
  using save [OF assms(1), of rs "Some b"] raft [of p'] snap [of p'] assms by auto

end

section \<open>The persister of the tests\<close>

record Persister =
  tp_raftstate :: slice
  tp_snapshot :: slice

definition MakePersister :: Persister where
  "MakePersister = \<lparr>tp_raftstate = None, tp_snapshot = None\<rparr>"

text \<open>\<open>clone\<close> makes a new slice, which is never nil.\<close>

definition tester_clone :: "slice \<Rightarrow> slice" where
  "tester_clone orig = Some (bytesOf orig)"

definition Checkpoint :: "Persister \<Rightarrow> Persister" where
  "Checkpoint ps = \<lparr>tp_raftstate = tester_clone (tp_raftstate ps), tp_snapshot = tester_clone (tp_snapshot ps)\<rparr>"

definition Persister_ReadRaftState :: "Persister \<Rightarrow> slice" where
  "Persister_ReadRaftState ps = tester_clone (tp_raftstate ps)"

definition Persister_RaftStateSize :: "Persister \<Rightarrow> nat" where
  "Persister_RaftStateSize ps = length (bytesOf (tp_raftstate ps))"

definition Persister_Save :: "slice \<Rightarrow> slice \<Rightarrow> Persister \<Rightarrow> Persister" where
  "Persister_Save raftstate snapshot ps =
     ps\<lparr>tp_raftstate := tester_clone raftstate, tp_snapshot := tester_clone snapshot\<rparr>"

definition Persister_ReadSnapshot :: "Persister \<Rightarrow> slice" where
  "Persister_ReadSnapshot ps = tester_clone (tp_snapshot ps)"

definition Persister_SnapshotSize :: "Persister \<Rightarrow> nat" where
  "Persister_SnapshotSize ps = length (bytesOf (tp_snapshot ps))"

definition testerOps :: "Persister persisterOps" where
  "testerOps = \<lparr>po_Save = (\<lambda>rs sn p. Some (Persister_Save rs sn p)), po_ReadRaftState = Persister_ReadRaftState,
     po_ReadSnapshot = Persister_ReadSnapshot\<rparr>"

interpretation tp: persister testerOps "\<lambda>_. True" "\<lambda>p. (bytesOf (tp_raftstate p), bytesOf (tp_snapshot p))"
  "\<lambda>_ _. True" "Some []"
  by unfold_locales (auto simp: testerOps_def Persister_Save_def Persister_ReadRaftState_def
    Persister_ReadSnapshot_def tester_clone_def)

section \<open>The persister on a file\<close>

datatype bundleErr = TruncatedBundle | TruncatedRaftstate | TruncatedSnapshotHeader | TruncatedSnapshot

text \<open>\<open>clone\<close> of this package returns nil for nothing.\<close>

definition file_clone :: "slice \<Rightarrow> slice" where
  "file_clone b = (if bytesOf b = [] then None else b)"

definition encodeBundle :: "slice \<Rightarrow> slice \<Rightarrow> bytes" where
  "encodeBundle raftstate snapshot =
     putUint32 (of_nat (length (bytesOf raftstate))) @ bytesOf raftstate @
     putUint32 (of_nat (length (bytesOf snapshot))) @ bytesOf snapshot"

text \<open>The lengths are compared at 32 bits; the slice expression behind the comparison can panic.\<close>

definition decodeBundle :: "bytes \<Rightarrow> (bundleErr + slice \<times> slice) option" where
  "decodeBundle data =
     (if length data < 4 then Some (Inl TruncatedBundle)
      else
        let n = getUint32 data; data1 = drop 4 data in
        if (of_nat (length data1) :: 32 word) < n then Some (Inl TruncatedRaftstate)
        else do {
          rs \<leftarrow> sl_upto data1 (int (unat n));
          let raftstate = (if 0 < n then file_clone (Some rs) else None);
              data2 = drop (unat n) data1
          in if length data2 < 4 then Some (Inl TruncatedSnapshotHeader)
             else
               let m = getUint32 data2; data3 = drop 4 data2 in
               if (of_nat (length data3) :: 32 word) < m then Some (Inl TruncatedSnapshot)
               else do {
                 sn \<leftarrow> sl_upto data3 (int (unat m));
                 Some (Inr (raftstate, if 0 < m then file_clone (Some sn) else None)) } })"

record FilePersister =
  fp_dir :: string
  fp_path :: string
  fp_raftstate :: slice
  fp_snapshot :: slice

definition statePath :: "string \<Rightarrow> string" where
  "statePath dir = dir @ ''/state.bin''"

text \<open>
  The file operations are those of the operating system, with the crash points of the in-memory file
  system. \<open>tmp\<close> is the name \<open>os.CreateTemp\<close> picks. The deferred removal finds nothing after
  the rename; the synchronisation of the directory ignores errors.
\<close>

definition atomicWrite :: "string \<Rightarrow> string \<Rightarrow> string \<Rightarrow> bytes \<Rightarrow> unit fsop" where
  "atomicWrite tmp dir path data fs =
     (let (r, fs1) =
        fs_bind (Create tmp) (\<lambda>f.
        fs_bind (Write f data) (\<lambda>f'.
        fs_bind (Sync f') (\<lambda>_.
        fs_bind (Close f') (\<lambda>_.
        Rename tmp path)))) fs
      in (r, snd (Remove tmp fs1)))"

definition FilePersister_load :: "FilePersister \<Rightarrow> MemFS \<Rightarrow> (bundleErr + FilePersister) option" where
  "FilePersister_load p fs = (case m_files fs (fp_path p) of
       None \<Rightarrow> Some (Inr p)
     | Some data \<Rightarrow> do { r \<leftarrow> decodeBundle data;
         Some (case r of Inl e \<Rightarrow> Inl e | Inr (rs, snap) \<Rightarrow> Inr (p\<lparr>fp_raftstate := rs, fp_snapshot := snap\<rparr>)) })"

definition OpenFilePersister :: "string \<Rightarrow> MemFS \<Rightarrow> (bundleErr + FilePersister) option" where
  "OpenFilePersister dir fs =
     FilePersister_load \<lparr>fp_dir = dir, fp_path = statePath dir, fp_raftstate = None, fp_snapshot = None\<rparr> fs"

definition FilePersister_Save ::
  "string \<Rightarrow> slice \<Rightarrow> slice \<Rightarrow> FilePersister \<times> MemFS \<Rightarrow> FilePersister option \<times> MemFS" where
  "FilePersister_Save tmp raftstate snapshot w =
     (let (p, fs) = w;
          p' = p\<lparr>fp_raftstate := file_clone raftstate, fp_snapshot := file_clone snapshot\<rparr>;
          bundle = encodeBundle (fp_raftstate p') (fp_snapshot p')
      in case atomicWrite tmp (fp_dir p') (fp_path p') bundle fs of
           (Inl e, fs') \<Rightarrow> (None, fs') | (Inr u, fs') \<Rightarrow> (Some p', fs'))"

definition FilePersister_ReadRaftState :: "FilePersister \<Rightarrow> slice" where
  "FilePersister_ReadRaftState p = file_clone (fp_raftstate p)"

definition FilePersister_ReadSnapshot :: "FilePersister \<Rightarrow> slice" where
  "FilePersister_ReadSnapshot p = file_clone (fp_snapshot p)"

definition FilePersister_RaftStateSize :: "FilePersister \<Rightarrow> nat" where
  "FilePersister_RaftStateSize p = length (bytesOf (fp_raftstate p))"


definition bundle_fits :: "bytes \<Rightarrow> bytes \<Rightarrow> bool" where
  "bundle_fits rs sn \<longleftrightarrow> length rs + 4 + length sn < 2 ^ 32"

lemma unat_length32: "n < 2 ^ 32 \<Longrightarrow> unat (of_nat n :: 32 word) = n"
  by (simp add: unsigned_of_nat take_bit_nat_eq_self)

lemma word_length_less: "a < 2 ^ 32 \<Longrightarrow> b < 2 ^ 32 \<Longrightarrow> (of_nat a :: 32 word) < of_nat b \<longleftrightarrow> a < b"
  by (simp add: word_less_nat_alt unat_length32)

lemma decode_encode:
  assumes "bundle_fits (bytesOf rs) (bytesOf sn)"
  shows "decodeBundle (encodeBundle rs sn) = Some (Inr (file_clone (Some (bytesOf rs)), file_clone (Some (bytesOf sn))))"
proof -
  let ?r = "bytesOf rs" and ?s = "bytesOf sn"
  have l: "length ?r < 2 ^ 32" "length ?s < 2 ^ 32" "length ?r + (4 + length ?s) < 2 ^ 32"
    using assms by (simp_all add: bundle_fits_def)
  have pos: "(0 < (of_nat n :: 32 word)) = (0 < n)" if "n < 2 ^ 32" for n
    using word_length_less [of 0 n] that by simp
  show ?thesis
    using word_length_less [OF l(3) l(1)] word_length_less [OF l(2) l(2)] pos [OF l(1)] pos [OF l(2)]
    by (simp add: decodeBundle_def encodeBundle_def getUint32_put unat_length32 [OF l(1)] unat_length32 [OF l(2)]
      sl_upto_def file_clone_def Let_def)
qed

text \<open>What is on the disk is what the caches hold.\<close>

definition fileOps :: "string \<Rightarrow> (FilePersister \<times> MemFS) persisterOps" where
  "fileOps tmp = \<lparr>po_Save = (\<lambda>rs sn w. case FilePersister_Save tmp rs sn w of
       (None, fs') \<Rightarrow> None | (Some p', fs') \<Rightarrow> Some (p', fs')),
     po_ReadRaftState = (\<lambda>(p, fs). FilePersister_ReadRaftState p),
     po_ReadSnapshot = (\<lambda>(p, fs). FilePersister_ReadSnapshot p)\<rparr>"

definition file_inv :: "string \<Rightarrow> string \<Rightarrow> FilePersister \<times> MemFS \<Rightarrow> bool" where
  "file_inv tmp dir w \<longleftrightarrow> tmp \<noteq> statePath dir \<and> sound (snd w) \<and> fp_dir (fst w) = dir \<and> fp_path (fst w) = statePath dir \<and>
     fp_raftstate (fst w) \<noteq> Some [] \<and> fp_snapshot (fst w) \<noteq> Some [] \<and> OpenFilePersister dir (snd w) = Some (Inr (fst w))"

lemma atomicWrite_outcome:
  assumes "\<not> m_crashed m" "tmp \<noteq> path" "atomicWrite tmp dir path data m = (r, m')"
  shows "(r = Inr () \<and> \<not> m_crashed m' \<and> m_files m' = (m_files m)(path \<mapsto> data, tmp := None)) \<or>
    (r = Inl ErrCrash \<and> m_crashed m' \<and> (m_files m' path = m_files m path \<or> m_files m' path = Some data))"
  using assms
  by (auto simp: atomicWrite_def fs_bind_def Create_def Write_def writeAt_def Sync_def Close_def
    Rename_def Remove_def Let_def split: if_splits prod.splits)

lemma atomicWrite_sound: "sound m \<Longrightarrow> atomicWrite tmp dir path data m = (r, m') \<Longrightarrow> sound m'"
  by (auto simp: sound_def atomicWrite_def fs_bind_def Create_def Write_def writeAt_def Sync_def Close_def
    Rename_def Remove_def Let_def split: if_splits prod.splits)

lemma file_clone_bytesOf [simp]: "bytesOf (file_clone s) = bytesOf s" "file_clone s \<noteq> Some []"
  "file_clone (Some (bytesOf s)) = file_clone s"
  by (cases s; simp add: file_clone_def)+

lemma file_clone_idem [simp]: "file_clone (file_clone s) = file_clone s"
  by (simp add: file_clone_def)

lemma decode_clone:
  "bundle_fits (bytesOf rs) (bytesOf sn) \<Longrightarrow>
     decodeBundle (encodeBundle (file_clone rs) (file_clone sn)) = Some (Inr (file_clone rs, file_clone sn))"
  using decode_encode [of "file_clone rs" "file_clone sn"] by simp

lemma FilePersister_Save_ok:
  assumes "file_inv tmp dir (p, fs)" "bundle_fits (bytesOf rs) (bytesOf sn)"
  shows "\<exists>fs'. FilePersister_Save tmp rs sn (p, fs) = (Some (p\<lparr>fp_raftstate := file_clone rs, fp_snapshot := file_clone sn\<rparr>), fs') \<and>
    file_inv tmp dir (p\<lparr>fp_raftstate := file_clone rs, fp_snapshot := file_clone sn\<rparr>, fs')"
proof -
  let ?d = "encodeBundle (file_clone rs) (file_clone sn)"
  obtain r fs' where a: "atomicWrite tmp dir (statePath dir) ?d fs = (r, fs')" by fastforce
  have p: "tmp \<noteq> statePath dir" "sound fs" "fp_dir p = dir" "fp_path p = statePath dir"
    using assms(1) by (simp_all add: file_inv_def)
  have s': "sound fs'" by (rule atomicWrite_sound [OF p(2) a])
  then have "r = Inr ()" "m_files fs' (statePath dir) = Some ?d"
    using atomicWrite_outcome [OF _ p(1) a] p(1,2) by (auto simp: sound_def)
  moreover have "decodeBundle ?d = Some (Inr (file_clone rs, file_clone sn))"
    by (rule decode_clone [OF assms(2)])
  ultimately show ?thesis
    using a p s' by (simp add: FilePersister_Save_def file_inv_def OpenFilePersister_def FilePersister_load_def)
qed

interpretation fp: persister "fileOps tmp" "file_inv tmp dir"
  "\<lambda>(p, fs). (bytesOf (fp_raftstate p), bytesOf (fp_snapshot p))" bundle_fits None for tmp dir
proof unfold_locales
  fix w rs sn
  assume "file_inv tmp dir w" "bundle_fits (bytesOf rs) (bytesOf sn)"
  moreover obtain p fs where "w = (p, fs)" by fastforce
  ultimately show "\<exists>w'. po_Save (fileOps tmp) rs sn w = Some w' \<and> file_inv tmp dir w' \<and>
      (case w' of (p, fs) \<Rightarrow> (bytesOf (fp_raftstate p), bytesOf (fp_snapshot p))) = (bytesOf rs, bytesOf sn)"
    using FilePersister_Save_ok [of tmp dir p fs rs sn] by (auto simp: fileOps_def)
qed (auto simp: fileOps_def FilePersister_ReadRaftState_def FilePersister_ReadSnapshot_def file_inv_def bytesOf_def file_clone_def
  split: option.splits)

text \<open>
  C30. The file that holds the whole state reads back: after \<open>Save\<close> of a state and a snapshot
  that together stay below 4 GiB, opening the directory again gives the same state and the same
  snapshot, with nil for nothing; and when the process dies in \<open>Save\<close>, at any byte of the write
  or on either side of the rename, opening gives the old pair or the new one, never a mixture.
\<close>

theorem file_persister_roundtrip:
  assumes "file_inv tmp dir (p, fs)" "bundle_fits (bytesOf rs) (bytesOf sn)"
    "FilePersister_Save tmp rs sn (p, armed l r fs) = (res, fs')"
  shows "\<exists>q. OpenFilePersister dir (Reboot fs') = Some (Inr q) \<and>
    ((fp_raftstate q, fp_snapshot q) = (file_clone rs, file_clone sn) \<or>
     res = None \<and> (fp_raftstate q, fp_snapshot q) = (fp_raftstate p, fp_snapshot p))"
proof -
  let ?d = "encodeBundle (file_clone rs) (file_clone sn)"
  have p: "tmp \<noteq> statePath dir" "\<not> m_crashed (armed l r fs)" "fp_dir p = dir" "fp_path p = statePath dir"
    "OpenFilePersister dir fs = Some (Inr p)"
    using assms(1) by (simp_all add: file_inv_def sound_def armed_def)
  obtain s where a: "atomicWrite tmp dir (statePath dir) ?d (armed l r fs) = (s, fs')"
    and res: "res = (case s of Inl _ \<Rightarrow> None | Inr _ \<Rightarrow> Some (p\<lparr>fp_raftstate := file_clone rs, fp_snapshot := file_clone sn\<rparr>))"
    using assms(3) p(3,4) by (auto simp: FilePersister_Save_def split: prod.splits sum.splits)
  have dec: "decodeBundle ?d = Some (Inr (file_clone rs, file_clone sn))"
    by (rule decode_clone [OF assms(2)])
  have old: "OpenFilePersister dir (Reboot fs') = Some (Inr p)" if "m_files fs' (statePath dir) = m_files fs (statePath dir)"
    using p(5) that by (simp add: OpenFilePersister_def FilePersister_load_def)
  have new: "\<exists>q. OpenFilePersister dir (Reboot fs') = Some (Inr q) \<and> (fp_raftstate q, fp_snapshot q) = (file_clone rs, file_clone sn)"
    if "m_files fs' (statePath dir) = Some ?d"
    using that dec by (simp add: OpenFilePersister_def FilePersister_load_def)
  from atomicWrite_outcome [OF p(2,1) a] old new show ?thesis
    by (auto simp: res armed_def not_sym [OF p(1)])
qed

theorem file_persister_roundtrip_witness:
  "let p = \<lparr>fp_dir = ''d'', fp_path = ''d/state.bin'', fp_raftstate = None, fp_snapshot = None\<rparr>;
       (res, fs') = FilePersister_Save ''d/state-1.tmp'' (Some [1, 2]) (Some [3]) (p, armed (-1) ''after'' NewMemFS)
   in file_inv ''d/state-1.tmp'' ''d'' (p, NewMemFS) \<and> res = None \<and> m_crashed fs' \<and>
      (\<exists>q. OpenFilePersister ''d'' (Reboot fs') = Some (Inr q) \<and>
        ((fp_raftstate q, fp_snapshot q) = (Some [1, 2], Some [3]) \<or> (fp_raftstate q, fp_snapshot q) = (None, None)))"
proof -
  let ?p = "\<lparr>fp_dir = ''d'', fp_path = ''d/state.bin'', fp_raftstate = None, fp_snapshot = None\<rparr>"
  let ?w = "FilePersister_Save ''d/state-1.tmp'' (Some [1, 2]) (Some [3]) (?p, armed (-1) ''after'' NewMemFS)"
  have i: "file_inv ''d/state-1.tmp'' ''d'' (?p, NewMemFS)"
    by (simp add: file_inv_def statePath_def sound_def NewMemFS_def OpenFilePersister_def FilePersister_load_def)
  have c: "fst ?w = None" "m_crashed (snd ?w)"
    by (simp_all add: FilePersister_Save_def atomicWrite_def fs_bind_def Create_def Write_def writeAt_def Sync_def Close_def
      Rename_def Remove_def armed_def NewMemFS_def Let_def)
  obtain res fs' where w: "?w = (res, fs')" by fastforce
  have "\<exists>q. OpenFilePersister ''d'' (Reboot fs') = Some (Inr q) \<and>
        ((fp_raftstate q, fp_snapshot q) = (Some [1, 2], Some [3]) \<or> (fp_raftstate q, fp_snapshot q) = (None, None))"
    using file_persister_roundtrip [OF i _ w] by (auto simp: bundle_fits_def file_clone_def)
  then show ?thesis using i c w by (simp add: Let_def)
qed


section \<open>The adapter\<close>

text \<open>
  \<open>encodeRaftState\<close> writes term, log, vote and snapshot index with one gob encoder and ignores
  its errors; decoding reads them back in the same order and ends the process on an error.
\<close>

type_synonym 'c raftState = "int \<times> 'c log \<times> NodeID \<times> int"

record 'c stateGob =
  sg_enc :: "'c raftState \<Rightarrow> bytes"
  sg_dec :: "bytes \<Rightarrow> 'c raftState option"

definition stateGob_ok :: "'c stateGob \<Rightarrow> bool" where
  "stateGob_ok g \<longleftrightarrow> (\<forall>x. sg_enc g x \<noteq> [] \<and> sg_dec g (sg_enc g x) = Some x)"

definition encodeRaftState :: "'c stateGob \<Rightarrow> int \<Rightarrow> 'c log \<Rightarrow> NodeID \<Rightarrow> int \<Rightarrow> bytes" where
  "encodeRaftState g term logs vote snapshotIndex = sg_enc g (term, logs, vote, snapshotIndex)"

definition decodeRaftState :: "'c stateGob \<Rightarrow> slice \<Rightarrow> ('c raftState \<times> bool) option" where
  "decodeRaftState g data =
     (if length (bytesOf data) < 1 then Some ((0, [], '''', 0), False)
      else do { x \<leftarrow> sg_dec g (bytesOf data); Some (x, True) })"

record 'c persisterWAL =
  pw_term :: int
  pw_vote :: NodeID
  pw_logs :: "'c log"
  pw_snapshotIndex :: int
  pw_snapshot :: slice

definition newPersisterWAL :: "'p persisterOps \<Rightarrow> 'c stateGob \<Rightarrow> 'p \<Rightarrow> 'c persisterWAL option" where
  "newPersisterWAL S g p =
     do { ((term, logs, vote, snapshotIndex), ok) \<leftarrow> decodeRaftState g (po_ReadRaftState S p);
          let w = (if ok then \<lparr>pw_term = term, pw_vote = vote, pw_logs = logs, pw_snapshotIndex = snapshotIndex,
                     pw_snapshot = None\<rparr>
                   else \<lparr>pw_term = 0, pw_vote = '''', pw_logs = [sentinel 0], pw_snapshotIndex = 0,
                     pw_snapshot = None\<rparr>)
          in Some (w\<lparr>pw_snapshot := po_ReadSnapshot S p\<rparr>) }"

definition flush :: "'p persisterOps \<Rightarrow> 'c stateGob \<Rightarrow> 'c persisterWAL \<Rightarrow> 'p \<Rightarrow> ('c persisterWAL \<times> 'p) option" where
  "flush S g w p =
     do { p' \<leftarrow> po_Save S (Some (encodeRaftState g (pw_term w) (pw_logs w) (pw_vote w) (pw_snapshotIndex w)))
            (pw_snapshot w) p;
          Some (w, p') }"

fun persisterWAL_call ::
  "'p persisterOps \<Rightarrow> 'c stateGob \<Rightarrow> 'c WalOp \<Rightarrow> 'c persisterWAL \<times> 'p \<Rightarrow> ('c persisterWAL \<times> 'p) option" where
  "persisterWAL_call S g (SaveMeta term vote) (w, p) = flush S g (w\<lparr>pw_term := term, pw_vote := vote\<rparr>) p"
| "persisterWAL_call S g (AppendLog entries) (w, p) = flush S g (w\<lparr>pw_logs := pw_logs w @ entries\<rparr>) p"
| "persisterWAL_call S g (TruncateSuffix fromIndex) (w, p) =
     do { ls \<leftarrow> sl_upto (pw_logs w) (fromIndex - pw_snapshotIndex w); flush S g (w\<lparr>pw_logs := ls\<rparr>) p }"
| "persisterWAL_call S g (SaveSnapshot snapshotIndex sentinelTerm snapshot es) (w, p) =
     flush S g (w\<lparr>pw_logs := sentinel sentinelTerm # es, pw_snapshotIndex := snapshotIndex,
       pw_snapshot := snapshot\<rparr>) p"

definition persisterWAL_Load :: "'p persisterOps \<Rightarrow> 'c stateGob \<Rightarrow> 'p \<Rightarrow> ('c PersistState \<times> bool) option" where
  "persisterWAL_Load S g p =
     do { ((term, logs, vote, snapshotIndex), ok) \<leftarrow> decodeRaftState g (po_ReadRaftState S p);
          let st = \<lparr>ps_Term = 0, ps_Vote = '''', ps_Logs = [], ps_SnapshotIndex = 0,
                ps_Snapshot = po_ReadSnapshot S p\<rparr>
          in Some (if ok then st\<lparr>ps_Term := term, ps_Logs := logs, ps_Vote := vote,
               ps_SnapshotIndex := snapshotIndex\<rparr> else st, ok) }"

text \<open>The process starts: the log is made of what the persister has, and loaded.\<close>

definition persisterWAL_start ::
  "'p persisterOps \<Rightarrow> 'c stateGob \<Rightarrow> 'p \<Rightarrow> (('c persisterWAL \<times> 'p) \<times> 'c PersistState \<times> bool) option" where
  "persisterWAL_start S g p =
     do { w \<leftarrow> newPersisterWAL S g p; loaded \<leftarrow> persisterWAL_Load S g p; Some ((w, p), loaded) }"

text \<open>The model in memory is what a node would load, so it is its own abstraction.\<close>

definition pw_state :: "'c persisterWAL \<Rightarrow> 'c PersistState" where
  "pw_state w = \<lparr>ps_Term = pw_term w, ps_Vote = pw_vote w, ps_Logs = pw_logs w,
     ps_SnapshotIndex = pw_snapshotIndex w, ps_Snapshot = pw_snapshot w\<rparr>"

fun persisterWAL_ok :: "'c WalOp \<Rightarrow> bool" where
  "persisterWAL_ok (SaveSnapshot i t sn es) \<longleftrightarrow> sn \<noteq> None"
| "persisterWAL_ok op \<longleftrightarrow> True"

text \<open>The process dies in a call: the save has happened or not.\<close>

inductive persisterWAL_crash ::
  "'p persisterOps \<Rightarrow> 'c stateGob \<Rightarrow> 'c WalOp \<Rightarrow> 'c persisterWAL \<times> 'p \<Rightarrow> 'c persisterWAL \<times> 'p \<Rightarrow> bool" for S g where
  "persisterWAL_crash S g op (w, p) (w', p)"
| "persisterWAL_call S g op (w, p) = Some (w1, p1) \<Longrightarrow> persisterWAL_crash S g op (w, p) (w', p1)"

definition testerProvider :: "'c stateGob \<Rightarrow> ('c, 'c persisterWAL \<times> Persister) provider" where
  "testerProvider g = \<lparr>wp_ok = persisterWAL_ok, wp_call = persisterWAL_call testerOps g,
     wp_crash = persisterWAL_crash testerOps g, wp_restart = (\<lambda>(w, p). persisterWAL_start testerOps g p)\<rparr>"

definition persisterWAL_inv :: "'c stateGob \<Rightarrow> 'c persisterWAL \<times> Persister \<Rightarrow> bool" where
  "persisterWAL_inv g wp \<longleftrightarrow> stateGob_ok g \<and> (case wp of (w, p) \<Rightarrow> newPersisterWAL testerOps g p = Some w \<and> pw_snapshot w \<noteq> None)"

lemma flush_inv:
  assumes "stateGob_ok g" "pw_snapshot w \<noteq> None"
  shows "\<exists>p'. flush testerOps g w p = Some (w, p') \<and> persisterWAL_inv g (w, p')"
  using assms
  by (auto simp: flush_def testerOps_def Persister_Save_def persisterWAL_inv_def newPersisterWAL_def decodeRaftState_def
    Persister_ReadRaftState_def Persister_ReadSnapshot_def tester_clone_def encodeRaftState_def stateGob_ok_def Suc_le_eq
    length_greater_0_conv Let_def)

lemma persister_start_inv:
  assumes "newPersisterWAL testerOps g p = Some w" "stateGob_ok g"
  shows "\<exists>loaded. persisterWAL_start testerOps g p = Some ((w, p), loaded) \<and> persisterWAL_inv g (w, p) \<and>
    load_agrees loaded (pw_state w)"
proof -
  from assms(1) obtain t ls v i ok where d: "decodeRaftState g (po_ReadRaftState testerOps p) = Some ((t, ls, v, i), ok)"
    by (auto simp: newPersisterWAL_def)
  have n: "\<exists>b. po_ReadSnapshot testerOps p = Some b"
    by (simp add: testerOps_def Persister_ReadSnapshot_def tester_clone_def)
  show ?thesis
    using assms d n
    by (cases ok) (auto simp: persisterWAL_start_def persisterWAL_Load_def newPersisterWAL_def persisterWAL_inv_def
      load_agrees_def pw_state_def PersistState0_def)
qed

lemma persister_call_inv:
  assumes "persisterWAL_inv g (w, p)" "persisterWAL_ok op" "wal_apply op (pw_state w) = Some st"
  shows "\<exists>w' p'. persisterWAL_call testerOps g op (w, p) = Some (w', p') \<and> persisterWAL_inv g (w', p') \<and> pw_state w' = st"
proof -
  have g: "stateGob_ok g" "pw_snapshot w \<noteq> None" using assms(1) by (simp_all add: persisterWAL_inv_def)
  show ?thesis
  proof (cases op)
    case (SaveMeta t v)
    then show ?thesis using assms(3) flush_inv [OF g(1), of "w\<lparr>pw_term := t, pw_vote := v\<rparr>" p] g(2) by (auto simp: pw_state_def)
  next
    case (AppendLog es)
    then show ?thesis using assms(3) flush_inv [OF g(1), of "w\<lparr>pw_logs := pw_logs w @ es\<rparr>" p] g(2) by (auto simp: pw_state_def)
  next
    case (TruncateSuffix k)
    then obtain ls where "sl_upto (pw_logs w) (k - pw_snapshotIndex w) = Some ls" "st = (pw_state w)\<lparr>ps_Logs := ls\<rparr>"
      using assms(3) by (auto simp: pw_state_def)
    then show ?thesis using TruncateSuffix flush_inv [OF g(1), of "w\<lparr>pw_logs := ls\<rparr>" p] g(2) by (auto simp: pw_state_def)
  next
    case (SaveSnapshot i t sn es)
    then show ?thesis using assms(2,3)
      flush_inv [OF g(1), of "w\<lparr>pw_logs := sentinel t # es, pw_snapshotIndex := i, pw_snapshot := sn\<rparr>" p]
      by (auto simp: pw_state_def)
  qed
qed

interpretation pw: wal_contract "testerProvider g" "persisterWAL_inv g" "\<lambda>(w, p). pw_state w" for g
proof unfold_locales
  fix wp op st
  assume "persisterWAL_inv g wp" "wp_ok (testerProvider g) op" "wal_apply op (case wp of (w, p) \<Rightarrow> pw_state w) = Some st"
  moreover obtain w p where "wp = (w, p)" by fastforce
  ultimately show "\<exists>w'. wp_call (testerProvider g) op wp = Some w' \<and> persisterWAL_inv g w' \<and>
      (case w' of (w, p) \<Rightarrow> pw_state w) = st"
    using persister_call_inv [of g w p op st] by (auto simp: testerProvider_def)
next
  fix wp op w1
  assume a: "persisterWAL_inv g wp" "wp_ok (testerProvider g) op" "wal_apply op (case wp of (w, p) \<Rightarrow> pw_state w) \<noteq> None"
    "wp_crash (testerProvider g) op wp w1"
  obtain w p x p1 where w: "wp = (w, p)" "w1 = (x, p1)" by fastforce
  obtain st where st: "wal_apply op (pw_state w) = Some st" using a(3) w by auto
  have g: "stateGob_ok g" "newPersisterWAL testerOps g p = Some w" using a(1) w by (simp_all add: persisterWAL_inv_def)
  obtain w' p' where c: "persisterWAL_call testerOps g op (w, p) = Some (w', p')" "persisterWAL_inv g (w', p')" "pw_state w' = st"
    using persister_call_inv [of g w p op st] a(1,2) w(1) st by (auto simp: testerProvider_def)
  have "p1 = p \<or> p1 = p'" using a(4) c(1) by (auto simp: testerProvider_def w elim: persisterWAL_crash.cases)
  then obtain w2 where "newPersisterWAL testerOps g p1 = Some w2" "wal_crash [op] (pw_state w) (pw_state w2)"
    using g(2) c(2,3) crash_here crash_after [OF st crash_here] by (auto simp: persisterWAL_inv_def)
  then show "\<exists>w' loaded. wp_restart (testerProvider g) w1 = Some (w', loaded) \<and> persisterWAL_inv g w' \<and>
      load_agrees loaded (case w' of (w, p) \<Rightarrow> pw_state w) \<and>
      wal_crash [op] (case wp of (w, p) \<Rightarrow> pw_state w) (case w' of (w, p) \<Rightarrow> pw_state w)"
    using persister_start_inv [OF _ g(1), of p1 w2] by (auto simp: testerProvider_def w)
next
  fix wp
  assume "persisterWAL_inv g wp"
  then show "\<exists>w' loaded. wp_restart (testerProvider g) wp = Some (w', loaded) \<and> persisterWAL_inv g w' \<and>
      load_agrees loaded (case w' of (w, p) \<Rightarrow> pw_state w) \<and>
      (case w' of (w, p) \<Rightarrow> pw_state w) = (case wp of (w, p) \<Rightarrow> pw_state w)"
    using persister_start_inv [of g "snd wp" "fst wp"] by (auto simp: testerProvider_def persisterWAL_inv_def split: prod.splits)
qed

end
