(* ===== verification/WalRaft.thy ===== *)
theory WalRaft
  imports FileWAL Persist RaftProperties
begin

text \<open>
  Raft on the file-based write-ahead log: the crash safety of \<open>FileWAL\<close>, and the safety of a
  group whose nodes keep their state in files that a crash may tear. An instance of the gob
  parameter shows that the hypotheses can be met.
\<close>

section \<open>Executions on a provider\<close>

text \<open>The calls that an execution of the group makes on the logs.\<close>

fun run_ops :: "NodeID list \<Rightarrow> (NodeID \<times> 'c input) list \<Rightarrow> 'c cluster \<Rightarrow> 'c WalOp list" where
  "run_ops ids [] c = []"
| "run_ops ids ((n, i) # acts) c =
     (case node_step i (cl_nodes c n) of None \<Rightarrow> [] | Some (rf', ms, as, ops) \<Rightarrow>
       ops @ run_ops ids acts (c\<lparr>cl_nodes := (cl_nodes c)(n := rf'),
          cl_disks := (cl_disks c)(n := the (wal_applys ops (cl_disks c n))),
          cl_net := cl_net c - consumed i + mset ms, cl_out := (cl_out c)(n := cl_out c n @ as)\<rparr>))"

context wal_contract
begin

lemma run_mirrored:
  "run ids acts c = Some c' \<Longrightarrow> \<forall>op \<in> set (run_ops ids acts c). wp_ok P op \<Longrightarrow> c = view \<alpha> g \<Longrightarrow>
     wgroup_reach P d0 ids g \<Longrightarrow> \<forall>n. inv (wg_wals g n) \<Longrightarrow> \<exists>g'. wgroup_reach P d0 ids g' \<and> view \<alpha> g' = c'"
proof (induction ids acts c arbitrary: g rule: run.induct)
  case (2 ids n i acts c)
  from "2.prems"(1) obtain rf' ms as ops st' where
    s: "n \<in> set ids" "enabled c n i" "node_step i (cl_nodes c n) = Some (rf', ms, as, ops)"
      "wal_applys ops (cl_disks c n) = Some st'" and
    r: "run ids acts (c\<lparr>cl_nodes := (cl_nodes c)(n := rf'), cl_disks := (cl_disks c)(n := st'),
          cl_net := cl_net c - consumed i + mset ms, cl_out := (cl_out c)(n := cl_out c n @ as)\<rparr>) = Some c'"
    by (auto split: if_splits)
  have ok: "\<forall>op \<in> set ops. wp_ok P op" using "2.prems"(2) s(3) by simp
  have "wal_applys ops (\<alpha> (wg_wals g n)) = Some st'" using s(4) "2.prems"(3) by (simp add: view_def)
  from calls [OF spec [OF "2.prems"(5)] ok this] obtain w' where
    w': "wal_calls P ops (wg_wals g n) = Some w'" "inv w'" "\<alpha> w' = st'" by blast
  let ?g = "g\<lparr>wg_nodes := (wg_nodes g)(n := rf'), wg_wals := (wg_wals g)(n := w'),
       wg_net := wg_net g - consumed i + mset ms, wg_out := (wg_out g)(n := wg_out g n @ as)\<rparr>"
  have "wgroup_step P ids g ?g"
    by (rule wgroup_step.w_act [OF s(1) _ _ ok w'(1)])
      (use s(2,3) "2.prems"(3) in \<open>simp_all add: can_view [of g n i \<alpha>] view_def\<close>)
  then have reach: "wgroup_reach P d0 ids ?g" by (rule wgroup_reach.w_step [OF "2.prems"(4)])
  show ?case
    by (rule "2.IH" [OF _ s(3) _ _ _ s(4) r _ _ reach])
      (use s "2.prems"(2,3,5) w'(2,3) in \<open>auto simp: view_def fun_upd_comp\<close>)
qed auto

lemma demo_mirrored:
  assumes w0: "wp_restart P d0 = Some (w0, loaded)" "inv w0" "\<alpha> w0 = PersistState0 sn" "load_agrees loaded (\<alpha> w0)"
    and c: "run ids acts (cluster_init ids sn) = Some c" "\<forall>op \<in> set (run_ops ids acts (cluster_init ids sn)). wp_ok P op"
  shows "\<exists>g. wgroup_reach P d0 ids g \<and> view \<alpha> g = c"
proof -
  let ?g = "\<lparr>wg_nodes = (\<lambda>n. MakeWithWAL n ids loaded), wg_wals = (\<lambda>_. w0), wg_net = {#}, wg_out = (\<lambda>_. [])\<rparr>"
  have "MakeWithWAL n ids loaded = MakeWithWAL n ids (PersistState0 sn, False)" for n
    using MakeWithWAL_agrees MakeWithWAL_fresh w0(3,4) by metis
  then have init: "cluster_init ids sn = view \<alpha> ?g" by (simp add: view_def cluster_init_def w0(3) comp_def)
  show ?thesis
    by (rule run_mirrored [OF c init wgroup_reach.w_init [OF w0(1)]]) (use w0(2) in simp)
qed

end

section \<open>A codec\<close>

text \<open>Numbers in unary with an end mark; a snapshot, a string and a list of entries at the end.\<close>

definition enc_nat :: "nat \<Rightarrow> bytes" where
  "enc_nat n = replicate n 1 @ [0]"

definition dec_nat :: "bytes \<Rightarrow> nat \<times> bytes" where
  "dec_nat bs = (length (takeWhile (\<lambda>b. b = 1) bs), drop 1 (dropWhile (\<lambda>b. b = 1) bs))"

lemma dec_nat_enc [simp]: "dec_nat (enc_nat n @ bs) = (n, bs)"
  by (simp add: dec_nat_def enc_nat_def takeWhile_append dropWhile_append)

definition enc_int :: "int \<Rightarrow> bytes" where
  "enc_int k = (if k < 0 then 1 else 0) # enc_nat (nat \<bar>k\<bar>)"

definition dec_int :: "bytes \<Rightarrow> int \<times> bytes" where
  "dec_int bs = (let (n, rest) = dec_nat (drop 1 bs) in (if take 1 bs = [1] then - int n else int n, rest))"

lemma dec_int_enc [simp]: "dec_int (enc_int k @ bs) = (k, bs)"
  by (simp add: dec_int_def enc_int_def)

definition demo_gob :: "nat gob" where
  "demo_gob = \<lparr>
     g_encEntry = (\<lambda>e. Some (enc_int (le_Term e) @
       (case le_Command e of None \<Rightarrow> [0] | Some n \<Rightarrow> 1 # enc_nat n))),
     g_decEntry = (\<lambda>bs. let (t, c) = dec_int bs in
       Some \<lparr>le_Command = (if c = [0] then None else Some (fst (dec_nat (drop 1 c)))), le_Term = t\<rparr>),
     g_encInt = (\<lambda>k. Some (enc_int k)), g_decInt = (\<lambda>bs. Some (fst (dec_int bs))),
     g_encHeader = (\<lambda>h. Some (enc_int (wh_SnapshotIndex h) @ enc_int (wh_SentinelTerm h) @
       (case wh_Snapshot h of None \<Rightarrow> [] | Some b \<Rightarrow> b))),
     g_decHeader = (\<lambda>bs. let (i, r) = dec_int bs; (t, b) = dec_int r in
       Some \<lparr>wh_SnapshotIndex = i, wh_SentinelTerm = t, wh_Snapshot = nilCopy b\<rparr>),
     g_encMeta = (\<lambda>m. Some (enc_int (ms_Term m) @ map charByte (ms_Vote m))),
     g_decMeta = (\<lambda>bs. let (t, v) = dec_int bs in Some \<lparr>ms_Term = t, ms_Vote = map (char_of \<circ> unat) v\<rparr>)\<rparr>"

lemma dec_nat_enc' [simp]: "dec_nat (enc_nat n) = (n, [])"
  using dec_nat_enc [of n "[]"] by simp

lemma dec_int_enc' [simp]: "dec_int (enc_int k) = (k, [])"
  using dec_int_enc [of k "[]"] by simp

lemma enc_int_nonempty [simp]: "enc_int k \<noteq> []"
  by (simp add: enc_int_def)

lemma enc_nat_nonempty [simp]: "enc_nat n \<noteq> []"
  by (simp add: enc_nat_def)

lemma demo_gob_ok: "gob_ok demo_gob"
  unfolding gob_ok_def
proof (intro conjI allI)
  fix e show "\<exists>b. g_encEntry demo_gob e = Some b \<and> g_decEntry demo_gob b = Some e"
    by (cases "le_Command e") (simp_all add: demo_gob_def)
next
  fix h show "\<exists>b. g_encHeader demo_gob h = Some b \<and>
      g_decHeader demo_gob b = Some (h\<lparr>wh_Snapshot := nilEmpty (wh_Snapshot h)\<rparr>)"
    by (cases "wh_Snapshot h") (simp_all add: demo_gob_def nilCopy_def nilEmpty_def)
qed (simp_all add: demo_gob_def comp_def)

section \<open>Properties\<close>

lemma start_new: "FileWAL_start g dir fs = Some (w', st, ok) \<Longrightarrow> ok \<or> ps_Snapshot st = None"
  by (auto simp: FileWAL_start_def FileWAL_Load_def loadState_def loadHeader_def split: sum.splits prod.splits)

lemma FileWAL_start_inv:
  assumes "FileWAL_inv g dir (fw, fs)"
  shows "\<exists>w' ok. FileWAL_start g dir fs = Some (w', FileWAL_abs g dir (fw, fs), ok) \<and>
    (ok \<or> FileWAL_abs g dir (fw, fs) = PersistState0 None)"
proof -
  obtain meta recs where l: "gob_ok g" "live dir fw fs meta recs" "stored g (meta, recs) = Some (FileWAL_abs g dir (fw, fs))"
    by (rule FileWAL_invD [OF assms])
  obtain w' ok where w': "FileWAL_start g dir fs = Some (w', FileWAL_abs g dir (fw, fs), ok)"
    "load_agrees (FileWAL_abs g dir (fw, fs), ok) (FileWAL_abs g dir (fw, fs))"
    using start_durable [OF live_durable [OF l(2)] l(3,1)] by auto
  then show ?thesis using start_new [OF w'(1)] by (auto simp: load_agrees_def split: if_splits)
qed

lemma new_disk: "gob_ok g \<Longrightarrow> durable dir NewMemFS [] [] \<and> stored g ([], []) = Some (PersistState0 None)"
  by (auto simp: durable_def NewMemFS_def fileBytes_def stored_def loadState_def loadMeta_def nilCopy_def
    loadHeader_def PersistState0_def)

lemma new_disk_fresh:
  assumes "gob_ok g"
  shows "fresh (fileProvider g dir) (FileWAL_inv g dir) (FileWAL_abs g dir) (fw, NewMemFS)"
  using new_disk [OF assms, of dir] start_durable [of dir NewMemFS "[]" "[]" g "PersistState0 None"] assms
  unfolding fresh_def fileProvider_def by fastforce

text \<open>
  C24. \<open>FileWAL\<close> implements the log that Raft assumes: on a disk that works, any sequence of
  calls that the contract allows returns without a panic, and a process that is started on the files
  afterwards loads exactly the state the contract promises; it is told that the node is new only if
  that state is the initial one.
\<close>

theorem filewal_refines_wal:
  assumes "FileWAL_inv g dir (fw, fs)" "\<forall>op \<in> set ops. FileWAL_ok g op"
    "wal_applys ops (FileWAL_abs g dir (fw, fs)) = Some st"
  shows "\<exists>fw' fs' w'' ok. wal_calls (fileProvider g dir) ops (fw, fs) = Some (fw', fs') \<and>
    FileWAL_start g dir fs' = Some (w'', st, ok) \<and> (ok \<or> st = PersistState0 None)"
proof -
  have "\<forall>op \<in> set ops. wp_ok (fileProvider g dir) op" using assms(2) by (simp add: fileProvider_def)
  from fw.calls [OF assms(1) this assms(3)] FileWAL_start_inv [of g dir] show ?thesis by fastforce
qed

text \<open>
  C22. A crash is safe: when the process dies in a call, at any byte of a write or on either side of
  a rename, the next start succeeds and loads the state before the call or the state after it, or
  for \<open>AppendLog\<close> the state with some of the entries from the front; and the reopened log is
  again one that satisfies the invariant.
\<close>

theorem filewal_crash_safe:
  assumes "FileWAL_inv g dir (fw, fs)" "FileWAL_ok g op" "wal_apply op (FileWAL_abs g dir (fw, fs)) = Some st'"
    "FileWAL_crash g op (fw, fs) (fw1, fs1)"
  shows "\<exists>w' st ok. FileWAL_start g dir fs1 = Some (w', st, ok) \<and> FileWAL_inv g dir w' \<and>
    (st = FileWAL_abs g dir (fw, fs) \<or> st = st' \<or>
      (\<exists>es j. op = AppendLog es \<and> wal_apply (AppendLog (take j es)) (FileWAL_abs g dir (fw, fs)) = Some st))"
proof -
  have "wal_apply op (FileWAL_abs g dir (fw, fs)) \<noteq> None" using assms(3) by simp
  from crash_durable [OF assms(1,2) this assms(4)] obtain meta recs st where
    d: "durable dir fs1 meta recs" "stored g (meta, recs) = Some st" and
    c: "wal_crash [op] (FileWAL_abs g dir (fw, fs)) st" by blast
  have "gob_ok g" using assms(1) by (simp add: FileWAL_inv_def)
  from start_durable [OF d this] obtain w' ok where
    "FileWAL_start g dir fs1 = Some (w', st, ok)" "FileWAL_inv g dir w'" by auto
  moreover from c have "st = FileWAL_abs g dir (fw, fs) \<or> st = st' \<or>
      (\<exists>es j. op = AppendLog es \<and> wal_apply (AppendLog (take j es)) (FileWAL_abs g dir (fw, fs)) = Some st)"
    using assms(3) by (cases rule: wal_crash_ConsE) auto
  ultimately show ?thesis by blast
qed


text \<open>A new log, and a vote that is written to it.\<close>

lemma demo_new:
  "\<exists>fw fs. FileWAL_inv demo_gob ''d'' (fw, fs) \<and> FileWAL_abs demo_gob ''d'' (fw, fs) = PersistState0 None"
  using new_disk [OF demo_gob_ok, of "''d''"] start_durable [of "''d''" NewMemFS "[]" "[]" demo_gob "PersistState0 None"]
    demo_gob_ok by blast

theorem filewal_refines_wal_witness:
  "\<exists>fw fs fw' fs' w'' ok. FileWAL_inv demo_gob ''d'' (fw, fs) \<and>
     wal_calls (fileProvider demo_gob ''d'') [SaveMeta 1 ''a'', AppendLog [\<lparr>le_Command = Some 7, le_Term = 1\<rparr>],
       TruncateSuffix 1] (fw, fs) = Some (fw', fs') \<and>
     FileWAL_start demo_gob ''d'' fs' = Some (w'', \<lparr>ps_Term = 1, ps_Vote = ''a'', ps_Logs = [sentinel 0],
       ps_SnapshotIndex = 0, ps_Snapshot = None\<rparr>, ok)"
proof -
  obtain fw fs where w: "FileWAL_inv demo_gob ''d'' (fw, fs)" "FileWAL_abs demo_gob ''d'' (fw, fs) = PersistState0 None"
    using demo_new by blast
  let ?ops = "[SaveMeta 1 ''a'', AppendLog [\<lparr>le_Command = Some 7, le_Term = 1\<rparr>], TruncateSuffix 1]"
  have "\<forall>op \<in> set ?ops. FileWAL_ok demo_gob op"
    by (simp add: fitting_def encodeEntry_def encodeTruncate_def demo_gob_def enc_int_def enc_nat_def fits_def)
  moreover have "wal_applys ?ops (FileWAL_abs demo_gob ''d'' (fw, fs)) = Some \<lparr>ps_Term = 1, ps_Vote = ''a'',
      ps_Logs = [sentinel 0], ps_SnapshotIndex = 0, ps_Snapshot = None\<rparr>"
    by (simp add: w(2) PersistState0_def sl_upto_def)
  ultimately show ?thesis using w(1) filewal_refines_wal [OF w(1)] by blast
qed

theorem filewal_crash_safe_witness:
  "\<exists>fw fs fw1 fs1 w' st ok. FileWAL_inv demo_gob ''d'' (fw, fs) \<and>
     FileWAL_crash demo_gob (SaveMeta 1 ''a'') (fw, fs) (fw1, fs1) \<and> m_crashed fs1 \<and>
     FileWAL_start demo_gob ''d'' fs1 = Some (w', st, ok) \<and> FileWAL_inv demo_gob ''d'' w' \<and>
     (st = PersistState0 None \<or> st = (PersistState0 None)\<lparr>ps_Term := 1, ps_Vote := ''a''\<rparr>)"
proof -
  obtain fw fs where w: "FileWAL_inv demo_gob ''d'' (fw, fs)" "FileWAL_abs demo_gob ''d'' (fw, fs) = PersistState0 None"
    using demo_new by blast
  let ?fs = "snd (FileWAL_call demo_gob (SaveMeta 1 ''a'') fw (armed 1 '''' fs))"
  have "\<not> m_crashed fs" using w(1) by (simp add: FileWAL_inv_def sound_def)
  then have "m_crashed ?fs"
    by (simp add: FileWAL_SaveMeta_def encoded_def encodeMeta_def demo_gob_def must_def AtomicWrite_def fs_bind_def
      Create_def Write_def writeAt_def armed_def enc_int_def enc_nat_def Let_def)
  moreover have c: "FileWAL_crash demo_gob (SaveMeta 1 ''a'') (fw, fs) (fw, ?fs)"
    using FileWAL_crash.intros [of demo_gob "SaveMeta 1 ''a''" 0 fw fs fw fs 1 "''''" "fst (FileWAL_call demo_gob (SaveMeta 1 ''a'') fw (armed 1 '''' fs))" ?fs fw]
    by (simp add: finish_def)
  moreover have "\<exists>w' st ok. FileWAL_start demo_gob ''d'' ?fs = Some (w', st, ok) \<and> FileWAL_inv demo_gob ''d'' w' \<and>
      (st = PersistState0 None \<or> st = (PersistState0 None)\<lparr>ps_Term := 1, ps_Vote := ''a''\<rparr>)"
    using filewal_crash_safe [OF w(1) _ _ c, of "(PersistState0 None)\<lparr>ps_Term := 1, ps_Vote := ''a''\<rparr>"] w(2) by simp
  ultimately show ?thesis using w(1) by blast
qed


text \<open>
  C13. Raft on files is safe: in every state that a group of nodes reaches when each of them keeps
  its persistent state in a \<open>FileWAL\<close> and crashes tear its files at any byte, two leaders of
  the same term are the same node, and two commands that any nodes hand to their services for the
  same index are equal.
\<close>

theorem raft_on_filewal_safe:
  assumes "gob_ok g" "distinct ids" "'''' \<notin> set ids"
    "wgroup_reach (fileProvider g dir) (fw0, NewMemFS) ids grp" "n \<in> set ids" "m \<in> set ids"
  shows "(rf_customerId (wg_nodes grp n) = Leader \<and> rf_customerId (wg_nodes grp m) = Leader \<and>
      rf_term (wg_nodes grp n) = rf_term (wg_nodes grp m) \<longrightarrow> n = m) \<and>
    (\<forall>a \<in> set (wg_out grp n). \<forall>b \<in> set (wg_out grp m). am_CommandValid a \<and> am_CommandValid b \<and>
      am_CommandIndex a = am_CommandIndex b \<longrightarrow> am_Command a = am_Command b)"
proof -
  have r: "cluster_reach ids (view (FileWAL_abs g dir) grp)"
    using fw.reach_view [OF assms(2,3) new_disk_fresh [OF assms(1)] assms(4)] by blast
  show ?thesis
    using election_safety [OF assms(2,3) r assms(5,6)] state_machine_safety [OF assms(2,3) r assms(5,6)]
    by (simp add: view_def)
qed

text \<open>The calls of the example execution fit into the records of the log.\<close>

lemma demo_ops:
  "\<forall>op \<in> set (run_ops [''a'', ''b''] (demo_election @ demo_commit) (cluster_init [''a'', ''b''] sn)).
     FileWAL_ok demo_gob op"
  by (simp add: demo_defs fitting_def encodeEntry_def encodeTruncate_def demo_gob_def enc_int_def enc_nat_def fits_def)

lemma demo_on_files:
  "\<exists>grp. wgroup_reach (fileProvider demo_gob ''d'') (fw0, NewMemFS) [''a'', ''b''] grp \<and>
     wg_out grp ''a'' = [commandMsg (Some 7) 1] \<and> wg_out grp ''b'' = [commandMsg (Some 7) 1] \<and>
     rf_customerId (wg_nodes grp ''a'') = Leader"
proof -
  let ?P = "fileProvider demo_gob ''d''"
  obtain w0 ok where w0: "wp_restart ?P (fw0, NewMemFS) = Some (w0, PersistState0 None, ok)"
    "FileWAL_inv demo_gob ''d'' w0" "FileWAL_abs demo_gob ''d'' w0 = PersistState0 None"
    "load_agrees (PersistState0 None, ok) (PersistState0 None :: nat PersistState)"
    using new_disk [OF demo_gob_ok, of "''d''"] start_durable [OF _ _ demo_gob_ok, of "''d''" NewMemFS "[]" "[]"]
    unfolding fileProvider_def by fastforce
  obtain c where c: "run [''a'', ''b''] (demo_election @ demo_commit) (cluster_init [''a'', ''b''] None) = Some c"
    "cl_out c ''a'' = [commandMsg (Some 7) 1]" "cl_out c ''b'' = [commandMsg (Some 7) 1]"
    "rf_customerId (cl_nodes c ''a'') = Leader" using demo_committed by blast
  have "\<exists>g. wgroup_reach ?P (fw0, NewMemFS) [''a'', ''b''] g \<and> view (FileWAL_abs demo_gob ''d'') g = c"
    by (rule fw.demo_mirrored [OF w0(1-3) _ c(1)]) (use w0(3,4) demo_ops in \<open>simp_all add: fileProvider_def\<close>)
  then show ?thesis using c(2-4) by (auto simp: view_def)
qed

theorem raft_on_filewal_safe_witness:
  "\<exists>fw0 grp. wgroup_reach (fileProvider demo_gob ''d'') (fw0, NewMemFS) [''a'', ''b''] grp \<and>
     rf_customerId (wg_nodes grp ''a'') = Leader \<and> wg_out grp ''a'' \<noteq> [] \<and> wg_out grp ''b'' \<noteq> [] \<and>
     (\<forall>a \<in> set (wg_out grp ''a''). \<forall>b \<in> set (wg_out grp ''b''). am_CommandValid a \<and> am_CommandValid b \<and>
       am_CommandIndex a = am_CommandIndex b \<longrightarrow> am_Command a = am_Command b)"
proof -
  obtain fw0 grp where g: "wgroup_reach (fileProvider demo_gob ''d'') (fw0, NewMemFS) [''a'', ''b''] grp"
    "wg_out grp ''a'' = [commandMsg (Some 7) 1]" "wg_out grp ''b'' = [commandMsg (Some 7) 1]"
    "rf_customerId (wg_nodes grp ''a'') = Leader" using demo_on_files by blast
  then show ?thesis
    using raft_on_filewal_safe [OF demo_gob_ok _ _ g(1), of "''a''" "''b''"] by (intro exI [of _ fw0] exI [of _ grp]) simp
qed

text \<open>
  C23. Raft on files goes on and comes back: in every state of such a group, whatever a node is
  asked to do, its critical section does not panic, the calls it makes on its \<open>FileWAL\<close> return
  if they fit the record format, and a process started on the files after them loads the term, the
  vote, the log and the snapshot that the node has then.
\<close>

theorem raft_on_filewal_restarts:
  assumes "gob_ok g" "distinct ids" "'''' \<notin> set ids"
    "wgroup_reach (fileProvider g dir) (fw0, NewMemFS) ids grp" "n \<in> set ids" "can grp n i"
  shows "\<exists>rf' ms as ops. node_step i (wg_nodes grp n) = Some (rf', ms, as, ops) \<and>
    ((\<forall>op \<in> set ops. FileWAL_ok g op) \<longrightarrow> (\<exists>fw' fs' w'' st ok.
      wal_calls (fileProvider g dir) ops (wg_wals grp n) = Some (fw', fs') \<and>
      FileWAL_start g dir fs' = Some (w'', st, ok) \<and>
      (if ok then st = persistent rf' else persistent rf' = PersistState0 (ps_Snapshot st))))"
proof -
  from fw.reach_calls [OF assms(2,3) new_disk_fresh [OF assms(1)] assms(4-6)] obtain rf' ms as ops where
    h: "node_step i (wg_nodes grp n) = Some (rf', ms, as, ops)" and
    w: "(\<forall>op \<in> set ops. wp_ok (fileProvider g dir) op) \<longrightarrow> (\<exists>w'. wal_calls (fileProvider g dir) ops (wg_wals grp n) = Some w' \<and>
      (\<exists>w'' loaded. wp_restart (fileProvider g dir) w' = Some (w'', loaded) \<and> load_agrees loaded (persistent rf')))"
    by blast
  have ok: "wp_ok (fileProvider g dir) = FileWAL_ok g" and st: "wp_restart (fileProvider g dir) (a, b) = FileWAL_start g dir b" for a b
    by (simp_all add: fileProvider_def)
  show ?thesis
    by (rule exI [of _ rf'], rule exI [of _ ms], rule exI [of _ as], rule exI [of _ ops])
      (use h w [unfolded ok] in \<open>force simp: st load_agrees_def\<close>)
qed

theorem raft_on_filewal_restarts_witness:
  "\<exists>fw0 grp. wgroup_reach (fileProvider demo_gob ''d'') (fw0, NewMemFS) [''a'', ''b''] grp \<and>
     rf_customerId (wg_nodes grp ''a'') = Leader \<and>
     (\<exists>rf' ms as ops. node_step (Command (Some 9)) (wg_nodes grp ''a'') = Some (rf', ms, as, ops) \<and>
       ((\<forall>op \<in> set ops. FileWAL_ok demo_gob op) \<longrightarrow> wal_calls (fileProvider demo_gob ''d'') ops (wg_wals grp ''a'') \<noteq> None))"
proof -
  obtain fw0 grp where g: "wgroup_reach (fileProvider demo_gob ''d'') (fw0, NewMemFS) [''a'', ''b''] grp"
    "rf_customerId (wg_nodes grp ''a'') = Leader" using demo_on_files by blast
  have "can grp ''a'' (Command (Some 9))" by (simp add: can_def)
  from raft_on_filewal_restarts [OF demo_gob_ok _ _ g(1) _ this] g show ?thesis by fastforce
qed


section \<open>Two implementations of one contract\<close>

definition blanked :: "'c PersistState \<Rightarrow> 'c PersistState" where
  "blanked st = st\<lparr>ps_Snapshot := nilEmpty (ps_Snapshot st)\<rparr>"

lemma wal_applys_blanked:
  "wal_applys ops (blanked st) = Some st' \<Longrightarrow> \<forall>op \<in> set ops. FileWAL_ok g op \<Longrightarrow>
     \<exists>st2. wal_applys ops st = Some st2 \<and> blanked st2 = st'"
proof (induction ops arbitrary: st)
  case (Cons op ops)
  then obtain s1 where s1: "wal_apply op (blanked st) = Some s1" "wal_applys ops s1 = Some st'" by auto
  then have "\<exists>s2. wal_apply op st = Some s2 \<and> blanked s2 = s1"
    using Cons.prems(2) by (cases op) (auto simp: blanked_def nilEmpty_def)
  then show ?case using Cons.IH s1(2) Cons.prems(2) by fastforce
qed simp

lemma new_persister: "newPersisterWAL testerOps h MakePersister = Some w \<Longrightarrow> stateGob_ok h \<Longrightarrow>
    persisterWAL_inv h (w, MakePersister) \<and> pw_state w = PersistState0 (Some [])"
  by (auto simp: newPersisterWAL_def persisterWAL_inv_def testerOps_def MakePersister_def Persister_ReadRaftState_def
    Persister_ReadSnapshot_def tester_clone_def decodeRaftState_def pw_state_def PersistState0_def)

text \<open>Once something has been saved, the adapter reports the state that it has.\<close>

lemma persister_saved:
  assumes "persisterWAL_call testerOps h op (w, p) = Some (w', p')" "stateGob_ok h"
  shows "\<exists>x. persisterWAL_start testerOps h p' = Some (x, (pw_state w')\<lparr>ps_Snapshot := Some (bytesOf (pw_snapshot w'))\<rparr>, True)"
proof -
  have f: "flush testerOps h w' p = Some (w', p')"
    using assms(1) by (cases op) (auto simp: flush_def)
  then show ?thesis using assms(2)
    by (auto simp: flush_def testerOps_def Persister_Save_def persisterWAL_start_def persisterWAL_Load_def newPersisterWAL_def
      decodeRaftState_def Persister_ReadRaftState_def Persister_ReadSnapshot_def tester_clone_def encodeRaftState_def
      stateGob_ok_def pw_state_def Suc_le_eq length_greater_0_conv)
qed

lemma persister_saved_calls:
  assumes "wal_calls (testerProvider h) ops (w, p) = Some (w', p')" "ops \<noteq> []" "stateGob_ok h"
  shows "\<exists>x. persisterWAL_start testerOps h p' = Some (x, (pw_state w')\<lparr>ps_Snapshot := Some (bytesOf (pw_snapshot w'))\<rparr>, True)"
  using assms(1,2)
proof (induction ops arbitrary: w p)
  case (Cons op ops)
  then obtain w1 p1 where "persisterWAL_call testerOps h op (w, p) = Some (w1, p1)"
    "wal_calls (testerProvider h) ops (w1, p1) = Some (w', p')" by (auto simp: testerProvider_def)
  then show ?case using Cons.IH persister_saved [OF _ assms(3), of op w p] by (cases "ops = []") auto
qed simp

text \<open>
  C25. The log on files and the adapter over a whole-state persister are interchangeable: after the
  same calls, made on a new node and allowed by the contract, both have returned, and a restart loads
  the same term, vote, log, snapshot index and snapshot from either, up to the difference between a
  missing and an empty snapshot.
\<close>

theorem wals_agree:
  assumes "gob_ok g" "stateGob_ok h" "ops \<noteq> []" "\<forall>op \<in> set ops. FileWAL_ok g op \<and> persisterWAL_ok op"
    "wal_applys ops (PersistState0 None) \<noteq> None"
    "FileWAL_start g dir NewMemFS = Some ((fw, fs), loaded)" "newPersisterWAL testerOps h MakePersister = Some w"
  shows "\<exists>fw' fs' x st ok w' p' y st'.
    wal_calls (fileProvider g dir) ops (fw, fs) = Some (fw', fs') \<and> FileWAL_start g dir fs' = Some (x, st, ok) \<and>
    wal_calls (testerProvider h) ops (w, MakePersister) = Some (w', p') \<and>
    persisterWAL_start testerOps h p' = Some (y, st', True) \<and> st = blanked st'"
proof -
  obtain st where st: "wal_applys ops (PersistState0 None) = Some st" using assms(5) by blast
  have fok: "\<forall>op \<in> set ops. FileWAL_ok g op" and pok: "\<forall>op \<in> set ops. wp_ok (testerProvider h) op"
    and fok': "\<forall>op \<in> set ops. wp_ok (fileProvider g dir) op"
    using assms(4) by (simp_all add: testerProvider_def fileProvider_def)
  have "FileWAL_inv g dir (fw, fs)" "FileWAL_abs g dir (fw, fs) = PersistState0 None"
    using new_disk [OF assms(1), of dir] start_durable [OF _ _ assms(1), of dir NewMemFS "[]" "[]" "PersistState0 None"] assms(6) by auto
  from fw.calls [OF this(1) fok'] this(2) st obtain fw' fs' where
    f: "wal_calls (fileProvider g dir) ops (fw, fs) = Some (fw', fs')" "FileWAL_inv g dir (fw', fs')"
      "FileWAL_abs g dir (fw', fs') = st" by auto
  obtain x ok where x: "FileWAL_start g dir fs' = Some (x, st, ok)" using FileWAL_start_inv [OF f(2)] f(3) by auto
  have "wal_applys ops (blanked (PersistState0 (Some []))) = Some st"
    using st by (simp add: blanked_def nilEmpty_def PersistState0_def)
  from wal_applys_blanked [OF this fok] obtain st2 where
    st2: "wal_applys ops (PersistState0 (Some [])) = Some st2" "blanked st2 = st" by blast
  from pw.calls [OF conjunct1 [OF new_persister [OF assms(7,2)]] pok] st2(1) obtain w' p' where
    p: "wal_calls (testerProvider h) ops (w, MakePersister) = Some (w', p')" "persisterWAL_inv h (w', p')" "pw_state w' = st2"
    using new_persister [OF assms(7,2)] by auto
  have "(pw_state w')\<lparr>ps_Snapshot := Some (bytesOf (pw_snapshot w'))\<rparr> = st2"
    using p(2,3) by (auto simp: persisterWAL_inv_def pw_state_def)
  then show ?thesis using f(1) x p(1) persister_saved_calls [OF p(1) assms(3,2)] st2(2) by auto
qed


text \<open>A codec for the whole state.\<close>

fun enc_log :: "nat log \<Rightarrow> bytes" where
  "enc_log [] = []"
| "enc_log (e # es) = enc_int (le_Term e) @ (case le_Command e of None \<Rightarrow> [0] | Some n \<Rightarrow> 1 # enc_nat n) @ enc_log es"

fun dec_log :: "nat \<Rightarrow> bytes \<Rightarrow> nat log \<times> bytes" where
  "dec_log 0 bs = ([], bs)"
| "dec_log (Suc k) bs =
     (let (t, r) = dec_int bs;
          (c, r') = (if take 1 r = [0] then (None, drop 1 r)
                     else let (n, r1) = dec_nat (drop 1 r) in (Some n, r1));
          (es, r2) = dec_log k r'
      in (\<lparr>le_Command = c, le_Term = t\<rparr> # es, r2))"

lemma dec_log_enc [simp]: "dec_log (length es) (enc_log es @ bs) = (es, bs)"
  by (induction es arbitrary: bs) (auto split: option.splits)

definition demo_stateGob :: "nat stateGob" where
  "demo_stateGob = \<lparr>
     sg_enc = (\<lambda>(t, ls, v, i). enc_int t @ enc_int i @ enc_nat (length ls) @ enc_log ls @ map charByte v),
     sg_dec = (\<lambda>bs. let (t, r1) = dec_int bs; (i, r2) = dec_int r1; (n, r3) = dec_nat r2; (ls, r4) = dec_log n r3
       in Some (t, ls, map (char_of \<circ> unat) r4, i))\<rparr>"

lemma demo_stateGob_ok: "stateGob_ok demo_stateGob"
  by (simp add: stateGob_ok_def demo_stateGob_def comp_def split: prod.splits)

theorem wals_agree_witness:
  "\<exists>fw fs loaded w fw' fs' x st ok w' p' y st'.
     FileWAL_start demo_gob ''d'' NewMemFS = Some ((fw, fs), loaded) \<and>
     newPersisterWAL testerOps demo_stateGob MakePersister = Some w \<and>
     wal_calls (fileProvider demo_gob ''d'') [SaveMeta 1 ''a'', SaveSnapshot 3 1 (Some [5]) []] (fw, fs) = Some (fw', fs') \<and>
     FileWAL_start demo_gob ''d'' fs' = Some (x, st, ok) \<and>
     wal_calls (testerProvider demo_stateGob) [SaveMeta 1 ''a'', SaveSnapshot 3 1 (Some [5]) []] (w, MakePersister) = Some (w', p') \<and>
     persisterWAL_start testerOps demo_stateGob p' = Some (y, st', True) \<and> st = blanked st'"
proof -
  let ?ops = "[SaveMeta 1 ''a'', SaveSnapshot 3 1 (Some [5]) []]"
  obtain fw fs loaded where f: "FileWAL_start demo_gob ''d'' NewMemFS = Some ((fw, fs), loaded)"
    using new_disk [OF demo_gob_ok, of "''d''"] start_durable [OF _ _ demo_gob_ok, of "''d''" NewMemFS "[]" "[]"] by blast
  obtain w where w: "newPersisterWAL testerOps demo_stateGob MakePersister = Some w"
    by (simp add: newPersisterWAL_def testerOps_def MakePersister_def Persister_ReadRaftState_def tester_clone_def decodeRaftState_def)
  have ok: "\<forall>op \<in> set ?ops. FileWAL_ok demo_gob op \<and> persisterWAL_ok op"
    by (simp add: fitting_def encodeHeader_def demo_gob_def enc_int_def enc_nat_def fits_def)
  show ?thesis using f w wals_agree [OF demo_gob_ok demo_stateGob_ok _ ok _ f w] by simp
qed

end
