(* ===== verification/KvSrv.thy ===== *)
theory KvSrv
  imports Prelude
begin

text \<open>
  The single-machine key/value server: the RPC types of \<open>kvsrv1/rpc/rpc.go\<close>, the handlers of
  \<open>kvsrv1/server.go\<close>, the clerk of \<open>kvsrv1/client.go\<close>, and an execution model in which
  the network loses, delays and repeats requests. A key has a 64-bit version; a put succeeds only on
  the version it names, which makes repeated requests harmless.
\<close>

datatype Err = OK | ErrNoKey | ErrVersion | ErrMaybe | ErrWrongLeader | ErrWrongGroup

type_synonym Tversion = "64 word"

record PutArgs =
  pa_Key :: string
  pa_Value :: string
  pa_Version :: Tversion

record PutReply =
  pr_Err :: Err

record GetArgs =
  ga_Key :: string

record GetReply =
  gr_Value :: string
  gr_Version :: Tversion
  gr_Err :: Err

record kvEntry =
  ke_value :: string
  ke_version :: Tversion

type_synonym kvMap = "string \<rightharpoonup> kvEntry"

record KVServer =
  kvMap :: kvMap

definition MakeKVServer :: KVServer where
  "MakeKVServer = \<lparr>kvMap = Map.empty\<rparr>"

definition KVServer_Get :: "GetArgs \<Rightarrow> KVServer \<Rightarrow> GetReply" where
  "KVServer_Get args kv = (case kvMap kv (ga_Key args) of
       Some value \<Rightarrow> \<lparr>gr_Value = ke_value value, gr_Version = ke_version value, gr_Err = OK\<rparr>
     | None \<Rightarrow> \<lparr>gr_Value = '''', gr_Version = 0, gr_Err = ErrNoKey\<rparr>)"

definition KVServer_Put :: "PutArgs \<Rightarrow> KVServer \<Rightarrow> KVServer \<times> PutReply" where
  "KVServer_Put args kv = (case kvMap kv (pa_Key args) of
       Some value \<Rightarrow>
         if pa_Version args = ke_version value
         then (kv\<lparr>kvMap := (kvMap kv)(pa_Key args \<mapsto> \<lparr>ke_value = pa_Value args, ke_version = ke_version value + 1\<rparr>)\<rparr>,
               \<lparr>pr_Err = OK\<rparr>)
         else (kv, \<lparr>pr_Err = ErrVersion\<rparr>)
     | None \<Rightarrow>
         if pa_Version args = 0
         then (kv\<lparr>kvMap := (kvMap kv)(pa_Key args \<mapsto> \<lparr>ke_value = pa_Value args, ke_version = 1\<rparr>)\<rparr>, \<lparr>pr_Err = OK\<rparr>)
         else (kv, \<lparr>pr_Err = ErrNoKey\<rparr>))"

section \<open>The clerk\<close>

text \<open>
  A call of the network returns a reply or fails. The clerk repeats a failed call; its loops are
  functions of the results of its calls, and \<open>None\<close> is a clerk that is still trying.
\<close>

fun Clerk_Get :: "GetReply option list \<Rightarrow> (string \<times> Tversion \<times> Err) option" where
  "Clerk_Get [] = None"
| "Clerk_Get (Some reply # calls) = Some (gr_Value reply, gr_Version reply, gr_Err reply)"
| "Clerk_Get (None # calls) = Clerk_Get calls"

fun Clerk_Put_again :: "PutReply option list \<Rightarrow> Err option" where
  "Clerk_Put_again [] = None"
| "Clerk_Put_again (Some reply # calls) =
     (if pr_Err reply = ErrVersion then Some ErrMaybe else Some (pr_Err reply))"
| "Clerk_Put_again (None # calls) = Clerk_Put_again calls"

fun Clerk_Put :: "PutReply option list \<Rightarrow> Err option" where
  "Clerk_Put [] = None"
| "Clerk_Put (Some reply # calls) = Some (pr_Err reply)"
| "Clerk_Put (None # calls) = Clerk_Put_again calls"

section \<open>Versions\<close>

text \<open>The puts that the server has executed, in order, with its replies.\<close>

fun serve :: "PutArgs list \<Rightarrow> KVServer \<Rightarrow> KVServer \<times> (PutArgs \<times> Err) list" where
  "serve [] kv = (kv, [])"
| "serve (a # as) kv =
     (let (kv', r) = KVServer_Put a kv; (kv'', h) = serve as kv' in (kv'', (a, pr_Err r) # h))"

definition done_on :: "string \<Rightarrow> (PutArgs \<times> Err) list \<Rightarrow> PutArgs list" where
  "done_on k h = map fst (filter (\<lambda>(a, e). pa_Key a = k \<and> e = OK) h)"

lemma done_on_simps [simp]:
  "done_on k [] = []"
  "done_on k (x # h) = (if pa_Key (fst x) = k \<and> snd x = OK then fst x # done_on k h else done_on k h)"
  "done_on k (h @ h') = done_on k h @ done_on k h'"
  by (auto simp: done_on_def split: prod.splits)

lemma length_done_on: "length (done_on k h) \<le> length h"
  by (simp add: done_on_def)

text \<open>
  The state of a key is determined by the successful puts on it: there are as many as its version
  says, and the last one has written its value.
\<close>

definition key_ok :: "string \<Rightarrow> PutArgs list \<Rightarrow> kvEntry option \<Rightarrow> bool" where
  "key_ok k d e \<longleftrightarrow> map pa_Version d = map of_nat [0..<length d] \<and>
     e = (if d = [] then None else Some \<lparr>ke_value = pa_Value (last d), ke_version = of_nat (length d)\<rparr>)"

lemma Put_key_ok:
  assumes "KVServer_Put a kv = (kv', r)" "key_ok k d (kvMap kv k)" "length d < 2 ^ 64"
  shows "key_ok k (if pa_Key a = k \<and> pr_Err r = OK then d @ [a] else d) (kvMap kv' k)"
  using assms by (auto simp: KVServer_Put_def key_ok_def split: option.splits if_splits)

lemma of_nat_64_inj:
  assumes "i < 2 ^ 64" "j < 2 ^ 64" "(of_nat i :: 64 word) = of_nat j"
  shows "i = j"
proof -
  have "unat (of_nat i :: 64 word) = i" "unat (of_nat j :: 64 word) = j"
    using assms(1,2) by (simp_all add: unsigned_of_nat take_bit_nat_eq_self)
  then show ?thesis using assms(3) by metis
qed

text \<open>One version of a key is written at most once.\<close>

lemma key_ok_distinct:
  assumes "key_ok k d e" "length d < 2 ^ 64"
  shows "distinct (map pa_Version d)"
proof -
  have "inj_on (of_nat :: nat \<Rightarrow> 64 word) {0..<length d}"
    by (rule inj_onI) (use assms(2) in \<open>auto intro: of_nat_64_inj\<close>)
  then have "distinct (map (of_nat :: nat \<Rightarrow> 64 word) [0..<length d])" by (simp add: distinct_map)
  then show ?thesis using assms(1) by (simp add: key_ok_def)
qed

section \<open>Puts over a network\<close>

text \<open>
  Every put that some clerk performs has a number. The clerk numbers its attempts; an attempt is a
  request that the network may execute once, at any time from its start on, even after the call has
  failed for the clerk; a reply reaches the clerk only while it waits for this attempt.
\<close>

record sys =
  sy_kv :: KVServer
  sy_args :: "nat \<Rightarrow> PutArgs"
  sy_calls :: "nat \<Rightarrow> PutReply option list"
  sy_sent :: "(nat \<times> nat) set"
  sy_executed :: "(nat \<times> nat) \<rightharpoonup> PutReply"
  sy_hist :: "(nat \<times> Err) list"

definition attempt :: "sys \<Rightarrow> nat \<Rightarrow> nat" where
  "attempt s i = length (sy_calls s i)"

inductive sys_step :: "sys \<Rightarrow> sys \<Rightarrow> bool" where
  send: "Clerk_Put (sy_calls s i) = None \<Longrightarrow>
     sys_step s (s\<lparr>sy_sent := insert (i, attempt s i) (sy_sent s)\<rparr>)"
| exec: "(i, k) \<in> sy_sent s \<Longrightarrow> sy_executed s (i, k) = None \<Longrightarrow> KVServer_Put (sy_args s i) (sy_kv s) = (kv', r) \<Longrightarrow>
     sys_step s (s\<lparr>sy_kv := kv', sy_executed := (sy_executed s)((i, k) \<mapsto> r), sy_hist := sy_hist s @ [(i, pr_Err r)]\<rparr>)"
| reply: "Clerk_Put (sy_calls s i) = None \<Longrightarrow> sy_executed s (i, attempt s i) = Some r \<Longrightarrow>
     sys_step s (s\<lparr>sy_calls := (sy_calls s)(i := sy_calls s i @ [Some r])\<rparr>)"
| fail: "Clerk_Put (sy_calls s i) = None \<Longrightarrow> (i, attempt s i) \<in> sy_sent s \<Longrightarrow>
     sys_step s (s\<lparr>sy_calls := (sy_calls s)(i := sy_calls s i @ [None])\<rparr>)"

inductive sys_reach :: "sys \<Rightarrow> bool" where
  init: "sys_reach \<lparr>sy_kv = MakeKVServer, sy_args = args, sy_calls = (\<lambda>_. []), sy_sent = {}, sy_executed = Map.empty,
     sy_hist = []\<rparr>"
| step: "sys_reach s \<Longrightarrow> sys_step s s' \<Longrightarrow> sys_reach s'"

definition performed :: "sys \<Rightarrow> nat \<Rightarrow> nat" where
  "performed s i = length (filter (\<lambda>x. x = (i, OK)) (sy_hist s))"


definition with_args :: "sys \<Rightarrow> (PutArgs \<times> Err) list" where
  "with_args s = map (\<lambda>(i, e). (sy_args s i, e)) (sy_hist s)"

definition sys_inv :: "sys \<Rightarrow> bool" where
  "sys_inv s \<longleftrightarrow> (length (sy_hist s) < 2 ^ 64 \<longrightarrow> (\<forall>k. key_ok k (done_on k (with_args s)) (kvMap (sy_kv s) k))) \<and>
     (\<forall>i k r. sy_executed s (i, k) = Some r \<longrightarrow> (i, k) \<in> sy_sent s \<and> (i, pr_Err r) \<in> set (sy_hist s)) \<and>
     (\<forall>i e. (i, e) \<in> set (sy_hist s) \<longrightarrow> (\<exists>k r. sy_executed s (i, k) = Some r \<and> pr_Err r = e)) \<and>
     (\<forall>i k. (i, k) \<in> sy_sent s \<longrightarrow> k < attempt s i \<or> k = attempt s i \<and> Clerk_Put (sy_calls s i) = None) \<and>
     (\<forall>i k r. k < attempt s i \<longrightarrow> sy_calls s i ! k = Some r \<longrightarrow> sy_executed s (i, k) = Some r)"

lemma sys_invD:
  assumes "sys_inv s"
  shows "length (sy_hist s) < 2 ^ 64 \<Longrightarrow> key_ok k (done_on k (with_args s)) (kvMap (sy_kv s) k)"
    "sy_executed s (i, j) = Some r \<Longrightarrow> (i, j) \<in> sy_sent s \<and> (i, pr_Err r) \<in> set (sy_hist s)"
    "(i, e) \<in> set (sy_hist s) \<Longrightarrow> \<exists>j r. sy_executed s (i, j) = Some r \<and> pr_Err r = e"
    "(i, j) \<in> sy_sent s \<Longrightarrow> j < attempt s i \<or> j = attempt s i \<and> Clerk_Put (sy_calls s i) = None"
    "j < attempt s i \<Longrightarrow> sy_calls s i ! j = Some r \<Longrightarrow> sy_executed s (i, j) = Some r"
  using assms unfolding sys_inv_def by blast+

lemma Clerk_Put_snoc:
  "Clerk_Put cs = None \<Longrightarrow> Clerk_Put (cs @ [None]) = None"
proof -
  have again: "Clerk_Put_again cs = None \<Longrightarrow> Clerk_Put_again (cs @ [None]) = None" for cs
    by (induction cs rule: Clerk_Put_again.induct) (auto split: if_splits)
  show "Clerk_Put cs = None \<Longrightarrow> Clerk_Put (cs @ [None]) = None"
    by (cases cs rule: Clerk_Put.cases) (auto simp: again)
qed

lemma with_args_exec:
  "with_args (s\<lparr>sy_kv := kv', sy_executed := ex, sy_hist := sy_hist s @ [(i, e)]\<rparr>) = with_args s @ [(sy_args s i, e)]"
  by (simp add: with_args_def)

lemma sys_inv_exec:
  assumes inv: "sys_inv s" and s: "(i, k) \<in> sy_sent s" "sy_executed s (i, k) = None"
    "KVServer_Put (sy_args s i) (sy_kv s) = (kv', r)"
  shows "sys_inv (s\<lparr>sy_kv := kv', sy_executed := (sy_executed s)((i, k) \<mapsto> r), sy_hist := sy_hist s @ [(i, pr_Err r)]\<rparr>)"
    (is "sys_inv ?s")
  unfolding sys_inv_def
proof (intro conjI allI impI)
  fix x assume "length (sy_hist ?s) < 2 ^ 64"
  then have n: "length (sy_hist s) < 2 ^ 64" by simp
  have "length (done_on x (with_args s)) < 2 ^ 64"
    using length_done_on [of x "with_args s"] n by (simp add: with_args_def)
  from Put_key_ok [OF s(3) sys_invD(1) [OF inv n] this]
  show "key_ok x (done_on x (with_args ?s)) (kvMap (sy_kv ?s) x)" by (auto simp: with_args_exec split: if_splits)
next
  fix a b q assume "sy_executed ?s (a, b) = Some q"
  then show "(a, b) \<in> sy_sent ?s" "(a, pr_Err q) \<in> set (sy_hist ?s)"
    using sys_invD(2) [OF inv, of a b q] s(1) by (auto split: if_splits)
next
  fix a e assume "(a, e) \<in> set (sy_hist ?s)"
  then show "\<exists>b q. sy_executed ?s (a, b) = Some q \<and> pr_Err q = e"
  proof (cases "(a, e) \<in> set (sy_hist s)")
    case True
    then obtain b q where "sy_executed s (a, b) = Some q" "pr_Err q = e" using sys_invD(3) [OF inv, of a e] by blast
    moreover have "(a, b) \<noteq> (i, k)" using calculation(1) s(2) by auto
    ultimately show ?thesis by (intro exI [of _ b] exI [of _ q]) auto
  qed auto
next
  fix a b assume "(a, b) \<in> sy_sent ?s"
  then show "b < attempt ?s a \<or> b = attempt ?s a \<and> Clerk_Put (sy_calls ?s a) = None"
    using sys_invD(4) [OF inv, of a b] by (simp add: attempt_def)
next
  fix a b q assume "b < attempt ?s a" "sy_calls ?s a ! b = Some q"
  then show "sy_executed ?s (a, b) = Some q"
    using sys_invD(5) [OF inv, of b a q] s(2) by (auto simp: attempt_def)
qed

lemma sys_inv_call:
  assumes inv: "sys_inv s" and c: "Clerk_Put (sy_calls s i) = None"
    and r: "\<And>q. r = Some q \<Longrightarrow> sy_executed s (i, attempt s i) = Some q"
    and open_: "r = None \<Longrightarrow> Clerk_Put (sy_calls s i @ [r]) = None"
  shows "sys_inv (s\<lparr>sy_calls := (sy_calls s)(i := sy_calls s i @ [r])\<rparr>)" (is "sys_inv ?s")
  unfolding sys_inv_def
proof (intro conjI allI impI)
  fix x assume "length (sy_hist ?s) < 2 ^ 64"
  then show "key_ok x (done_on x (with_args ?s)) (kvMap (sy_kv ?s) x)"
    using sys_invD(1) [OF inv, of x] by (simp add: with_args_def)
next
  fix a b q assume "sy_executed ?s (a, b) = Some q"
  then show "(a, b) \<in> sy_sent ?s" "(a, pr_Err q) \<in> set (sy_hist ?s)" using sys_invD(2) [OF inv, of a b q] by auto
next
  fix a e assume "(a, e) \<in> set (sy_hist ?s)"
  then show "\<exists>b q. sy_executed ?s (a, b) = Some q \<and> pr_Err q = e" using sys_invD(3) [OF inv, of a e] by auto
next
  fix a b assume "(a, b) \<in> sy_sent ?s"
  then show "b < attempt ?s a \<or> b = attempt ?s a \<and> Clerk_Put (sy_calls ?s a) = None"
    using sys_invD(4) [OF inv, of a b] by (auto simp: attempt_def)
next
  fix a b q assume "b < attempt ?s a" "sy_calls ?s a ! b = Some q"
  then show "sy_executed ?s (a, b) = Some q"
    using sys_invD(5) [OF inv, of b a q] r [of q] by (auto simp: attempt_def nth_append less_Suc_eq split: if_splits)
qed

lemma sys_inv_step: "sys_step s s' \<Longrightarrow> sys_inv s \<Longrightarrow> sys_inv s'"
proof (induction rule: sys_step.induct)
  case (send s i)
  then show ?case unfolding sys_inv_def by (auto simp: with_args_def attempt_def)
next
  case (exec i k s kv' r)
  then show ?case using sys_inv_exec by blast
next
  case (reply s i r)
  then show ?case using sys_inv_call [of s i "Some r"] by auto
next
  case (fail s i)
  then show ?case using sys_inv_call [of s i None] Clerk_Put_snoc by auto
qed

lemma sys_reach_inv: "sys_reach s \<Longrightarrow> sys_inv s"
proof (induction rule: sys_reach.induct)
  case (init args)
  then show ?case by (simp add: sys_inv_def with_args_def key_ok_def MakeKVServer_def attempt_def)
next
  case (step s s')
  then show ?case using sys_inv_step by blast
qed


section \<open>Properties\<close>

lemma serve_key_ok:
  "serve as kv = (kv', h) \<Longrightarrow> key_ok k d (kvMap kv k) \<Longrightarrow> length d + length as < 2 ^ 64 \<Longrightarrow>
     key_ok k (d @ done_on k h) (kvMap kv' k)"
proof (induction as arbitrary: kv d h)
  case (Cons a as)
  obtain kv1 r where p: "KVServer_Put a kv = (kv1, r)" by fastforce
  obtain h1 where h: "serve as kv1 = (kv', h1)" "h = (a, pr_Err r) # h1"
    using Cons.prems(1) p by (auto split: prod.splits)
  have "length d < 2 ^ 64" using Cons.prems(3) by simp
  from Cons.IH [OF h(1) Put_key_ok [OF p Cons.prems(2) this]] Cons.prems(3) h(2)
  show ?case by (auto split: if_splits)
qed simp

text \<open>
  C32. The versions of a key count its writes: whatever puts the server executes, up to the capacity
  of the 64-bit counter, those that succeed on a key carry the versions 0, 1, 2, \<dots> in this order, and
  the key is there exactly if there is one, with the value of the last and with their number as its
  version.
\<close>

theorem kv_versions_sequential:
  assumes "serve as MakeKVServer = (kv, h)" "length as < 2 ^ 64"
  shows "map pa_Version (done_on k h) = map of_nat [0..<length (done_on k h)] \<and>
    kvMap kv k = (if done_on k h = [] then None
      else Some \<lparr>ke_value = pa_Value (last (done_on k h)), ke_version = of_nat (length (done_on k h))\<rparr>)"
proof -
  have "key_ok k [] (kvMap MakeKVServer k)" by (simp add: key_ok_def MakeKVServer_def)
  from serve_key_ok [OF assms(1) this] assms(2) show ?thesis by (simp add: key_ok_def)
qed

theorem kv_versions_sequential_witness:
  "let as = [\<lparr>pa_Key = ''x'', pa_Value = ''1'', pa_Version = 0\<rparr>, \<lparr>pa_Key = ''x'', pa_Value = ''2'', pa_Version = 0\<rparr>,
       \<lparr>pa_Key = ''x'', pa_Value = ''3'', pa_Version = 1\<rparr>]
   in length as < 2 ^ 64 \<and> kvMap (fst (serve as MakeKVServer)) ''x'' = Some \<lparr>ke_value = ''3'', ke_version = 2\<rparr> \<and>
      map pa_Version (done_on ''x'' (snd (serve as MakeKVServer))) = map of_nat [0..<length (done_on ''x'' (snd (serve as MakeKVServer)))]"
  using kv_versions_sequential [of "[\<lparr>pa_Key = ''x'', pa_Value = ''1'', pa_Version = 0\<rparr>, \<lparr>pa_Key = ''x'', pa_Value = ''2'', pa_Version = 0\<rparr>,
       \<lparr>pa_Key = ''x'', pa_Value = ''3'', pa_Version = 1\<rparr>]" _ _ "''x''"]
  by (simp add: Let_def KVServer_Put_def MakeKVServer_def)

lemma count_performed:
  "length (filter (\<lambda>x. x = (i, OK)) h) \<le>
     count_list (map pa_Version (done_on (pa_Key (f i)) (map (\<lambda>(j, e). (f j, e)) h))) (pa_Version (f i))"
  by (induction h) (auto split: prod.splits)

lemma count_distinct: "distinct xs \<Longrightarrow> count_list xs x \<le> 1"
  by (induction xs) (auto simp: count_list_0_iff)

lemma performed_le:
  assumes "sys_inv s" "length (sy_hist s) < 2 ^ 64"
  shows "performed s i \<le> 1"
proof -
  let ?d = "done_on (pa_Key (sy_args s i)) (with_args s)"
  have "length ?d < 2 ^ 64" using length_done_on [of "pa_Key (sy_args s i)" "with_args s"] assms(2) by (simp add: with_args_def)
  then have "distinct (map pa_Version ?d)" using key_ok_distinct [OF sys_invD(1) [OF assms]] by blast
  then show ?thesis
    unfolding performed_def with_args_def by (rule le_trans [OF count_performed count_distinct])
qed

lemma Clerk_Put_ok: "Clerk_Put cs = Some OK \<Longrightarrow> \<exists>k < length cs. cs ! k = Some \<lparr>pr_Err = OK\<rparr>"
proof -
  have again: "Clerk_Put_again cs = Some OK \<Longrightarrow> \<exists>k < length cs. cs ! k = Some \<lparr>pr_Err = OK\<rparr>" for cs
    by (induction cs rule: Clerk_Put_again.induct) (auto split: if_splits)
  show "Clerk_Put cs = Some OK \<Longrightarrow> \<exists>k < length cs. cs ! k = Some \<lparr>pr_Err = OK\<rparr>"
    using again by (cases cs rule: Clerk_Put.cases) fastforce+
qed

lemma Clerk_Put_version: "Clerk_Put cs = Some ErrVersion \<Longrightarrow> \<exists>rest. cs = Some \<lparr>pr_Err = ErrVersion\<rparr> # rest"
proof -
  have again: "Clerk_Put_again cs \<noteq> Some ErrVersion" for cs
    by (induction cs rule: Clerk_Put_again.induct) (auto split: if_splits)
  show "Clerk_Put cs = Some ErrVersion \<Longrightarrow> \<exists>rest. cs = Some \<lparr>pr_Err = ErrVersion\<rparr> # rest"
    by (cases cs rule: Clerk_Put.cases) (auto simp: again)
qed


text \<open>A clerk whose first call returned has made no other.\<close>

lemma sys_reach_finished:
  "sys_reach s \<Longrightarrow> sy_calls s i = Some r # rest \<Longrightarrow> rest = []"
proof (induction arbitrary: rest rule: sys_reach.induct)
  case (step s s')
  from step.hyps(2) show ?case
  proof cases
    case (reply j q)
    then show ?thesis using step by (cases "sy_calls s i") (auto split: if_splits)
  next
    case (fail j)
    then show ?thesis using step by (cases "sy_calls s i") (auto split: if_splits)
  qed (use step in auto)
qed simp

text \<open>
  C15. The clerk's contract for puts, over a network that loses requests and replies and executes
  requests late: the server performs a put at most once however often the clerk repeats it; if the
  clerk returns \<open>OK\<close> the put has been performed exactly once, and if it returns
  \<open>ErrVersion\<close> it has not been and never will be performed.
\<close>

theorem clerk_put_at_most_once:
  assumes "sys_reach s" "length (sy_hist s) < 2 ^ 64"
  shows "performed s i \<le> 1 \<and> (Clerk_Put (sy_calls s i) = Some OK \<longrightarrow> performed s i = 1) \<and>
    (Clerk_Put (sy_calls s i) = Some ErrVersion \<longrightarrow> performed s i = 0)"
proof (intro conjI impI)
  note inv = sys_reach_inv [OF assms(1)]
  show le: "performed s i \<le> 1" by (rule performed_le [OF inv assms(2)])
  assume "Clerk_Put (sy_calls s i) = Some OK"
  then obtain k where "k < attempt s i" "sy_calls s i ! k = Some \<lparr>pr_Err = OK\<rparr>"
    using Clerk_Put_ok by (auto simp: attempt_def)
  then have "(i, OK) \<in> set (sy_hist s)"
    using sys_invD(2) [OF inv] sys_invD(5) [OF inv] by fastforce
  then have "performed s i \<noteq> 0" by (auto simp: performed_def filter_empty_conv)
  then show "performed s i = 1" using le by simp
next
  note inv = sys_reach_inv [OF assms(1)]
  assume "Clerk_Put (sy_calls s i) = Some ErrVersion"
  then obtain rest where c: "sy_calls s i = Some \<lparr>pr_Err = ErrVersion\<rparr> # rest" using Clerk_Put_version by blast
  have len: "attempt s i = 1" using sys_reach_finished [OF assms(1) c] c by (simp add: attempt_def)
  have no: "(i, OK) \<notin> set (sy_hist s)"
  proof
    assume "(i, OK) \<in> set (sy_hist s)"
    then obtain k q where q: "sy_executed s (i, k) = Some q" "pr_Err q = OK" using sys_invD(3) [OF inv] by blast
    then have "(i, k) \<in> sy_sent s" using sys_invD(2) [OF inv] by blast
    then have "k = 0" using sys_invD(4) [OF inv] len c by fastforce
    moreover have "sy_executed s (i, 0) = Some \<lparr>pr_Err = ErrVersion\<rparr>"
      using sys_invD(5) [OF inv, of 0 i] len c by simp
    ultimately show False using q by auto
  qed
  then show "performed s i = 0" by (auto simp: performed_def filter_empty_conv)
qed


text \<open>Two puts of version 0 on one key: one is performed, the other is refused.\<close>

definition sys_at :: "KVServer \<Rightarrow> (nat \<Rightarrow> PutReply option list) \<Rightarrow> (nat \<times> nat) set \<Rightarrow> (nat \<times> nat \<rightharpoonup> PutReply) \<Rightarrow> (nat \<times> Err) list \<Rightarrow> sys" where
  "sys_at kv calls sent ex h = \<lparr>sy_kv = kv, sy_args = (\<lambda>i. \<lparr>pa_Key = ''x'', pa_Value = ''v'', pa_Version = 0\<rparr>), sy_calls = calls,
     sy_sent = sent, sy_executed = ex, sy_hist = h\<rparr>"

lemma sys_example:
  "\<exists>s. sys_reach s \<and> length (sy_hist s) = 2 \<and> Clerk_Put (sy_calls s 0) = Some OK \<and> Clerk_Put (sy_calls s 1) = Some ErrVersion"
proof -
  let ?kv = "\<lparr>kvMap = [''x'' \<mapsto> \<lparr>ke_value = ''v'', ke_version = 1\<rparr>]\<rparr>" and ?ok = "\<lparr>pr_Err = OK\<rparr>" and ?no = "\<lparr>pr_Err = ErrVersion\<rparr>"
  have r0: "sys_reach (sys_at MakeKVServer (\<lambda>_. []) {} Map.empty [])" unfolding sys_at_def by (rule sys_reach.init)
  have r1: "sys_reach (sys_at MakeKVServer (\<lambda>_. []) {(0, 0)} Map.empty [])"
    using sys_reach.step [OF r0 send [of _ 0]] by (simp add: sys_at_def attempt_def)
  have r2: "sys_reach (sys_at MakeKVServer (\<lambda>_. []) {(1, 0), (0, 0)} Map.empty [])"
    using sys_reach.step [OF r1 send [of _ 1]] by (simp add: sys_at_def attempt_def)
  have r3: "sys_reach (sys_at ?kv (\<lambda>_. []) {(1, 0), (0, 0)} [(0, 0) \<mapsto> ?ok] [(0, OK)])"
    using sys_reach.step [OF r2 exec [of 0 0 _ ?kv ?ok]] by (simp add: sys_at_def KVServer_Put_def MakeKVServer_def)
  have r4: "sys_reach (sys_at ?kv (\<lambda>_. []) {(1, 0), (0, 0)} [(0, 0) \<mapsto> ?ok, (1, 0) \<mapsto> ?no] [(0, OK), (1, ErrVersion)])"
    using sys_reach.step [OF r3 exec [of 1 0 _ ?kv ?no]] by (simp add: sys_at_def KVServer_Put_def)
  have r5: "sys_reach (sys_at ?kv ((\<lambda>_. [])(0 := [Some ?ok])) {(1, 0), (0, 0)} [(0, 0) \<mapsto> ?ok, (1, 0) \<mapsto> ?no] [(0, OK), (1, ErrVersion)])"
    using sys_reach.step [OF r4 reply [of _ 0 ?ok]] by (simp add: sys_at_def attempt_def)
  have r6: "sys_reach (sys_at ?kv ((\<lambda>_. [])(0 := [Some ?ok], 1 := [Some ?no])) {(1, 0), (0, 0)} [(0, 0) \<mapsto> ?ok, (1, 0) \<mapsto> ?no]
      [(0, OK), (1, ErrVersion)])"
    using sys_reach.step [OF r5 reply [of _ 1 ?no]] by (simp add: sys_at_def attempt_def)
  show ?thesis by (rule exI, rule conjI [OF r6]) (simp add: sys_at_def)
qed

theorem clerk_put_at_most_once_witness:
  "\<exists>s. sys_reach s \<and> length (sy_hist s) < 2 ^ 64 \<and> Clerk_Put (sy_calls s 0) = Some OK \<and> performed s 0 = 1 \<and>
     Clerk_Put (sy_calls s 1) = Some ErrVersion \<and> performed s 1 = 0"
proof -
  obtain s where s: "sys_reach s" "length (sy_hist s) = 2" "Clerk_Put (sy_calls s 0) = Some OK" "Clerk_Put (sy_calls s 1) = Some ErrVersion"
    using sys_example by blast
  then show ?thesis using clerk_put_at_most_once [OF s(1)] by (intro exI [of _ s]) simp
qed

end
