(* ===== verification/Lock.thy ===== *)
theory Lock
  imports KvSrv
begin

text \<open>
  The distributed lock of \<open>kvsrv1/lock/lock.go\<close> on the key/value server. A client is a program
  counter in \<open>Acquire\<close> or \<open>Release\<close>; its puts are requests that the network may execute
  late and more than once, and they return what the contract of the clerk allows.
\<close>

datatype lockPc = Idle | AcqGet | AcqPut Tversion | AcqCheck | Held | RelGet | RelPut Tversion

record Lock =
  lk_id :: string
  lk_lockname :: string

text \<open>What \<open>Acquire\<close> and \<open>Release\<close> do with the result of a get and of a put.\<close>

fun afterGet :: "Lock \<Rightarrow> lockPc \<Rightarrow> GetReply \<Rightarrow> lockPc" where
  "afterGet lk AcqGet r =
     (if gr_Err r = ErrNoKey \<or> (gr_Err r = OK \<and> gr_Value r = '''') then AcqPut (gr_Version r) else AcqGet)"
| "afterGet lk AcqCheck r = (if gr_Err r = OK \<and> gr_Value r = lk_id lk then Held else AcqGet)"
| "afterGet lk RelGet r = (if gr_Err r = OK \<and> gr_Value r = lk_id lk then RelPut (gr_Version r) else Idle)"
| "afterGet lk pc r = pc"

fun afterPut :: "lockPc \<Rightarrow> Err \<Rightarrow> lockPc" where
  "afterPut (AcqPut v) e = (if e = OK then Held else if e = ErrMaybe then AcqCheck else AcqGet)"
| "afterPut (RelPut v) e = Idle"
| "afterPut pc e = pc"

text \<open>The put a client makes: its own id to take the lock, the empty string to give it back.\<close>

fun request :: "Lock \<Rightarrow> lockPc \<Rightarrow> PutArgs option" where
  "request lk (AcqPut v) = Some \<lparr>pa_Key = lk_lockname lk, pa_Value = lk_id lk, pa_Version = v\<rparr>"
| "request lk (RelPut v) = Some \<lparr>pa_Key = lk_lockname lk, pa_Value = '''', pa_Version = v\<rparr>"
| "request lk pc = None"

record locks =
  ls_kv :: KVServer
  ls_pc :: "nat \<Rightarrow> lockPc"
  ls_sent :: "(nat \<times> PutArgs) set"
  ls_ok :: "nat \<Rightarrow> bool"
  ls_n :: nat

definition moved :: "KVServer \<Rightarrow> string \<Rightarrow> Tversion \<Rightarrow> bool" where
  "moved kv k v \<longleftrightarrow> (case kvMap kv k of None \<Rightarrow> False | Some e \<Rightarrow> ke_version e \<noteq> v)"

text \<open>
  The results a put can have: \<open>OK\<close> if the server has performed it; \<open>ErrVersion\<close> if it
  has not and the key has moved on; \<open>ErrMaybe\<close> if the key has moved on; \<open>ErrNoKey\<close> if
  there is no such key and the version is not 0.
\<close>

definition put_returns :: "locks \<Rightarrow> nat \<Rightarrow> PutArgs \<Rightarrow> Err \<Rightarrow> bool" where
  "put_returns s c a e \<longleftrightarrow> (case e of
       OK \<Rightarrow> ls_ok s c
     | ErrVersion \<Rightarrow> \<not> ls_ok s c \<and> moved (ls_kv s) (pa_Key a) (pa_Version a)
     | ErrMaybe \<Rightarrow> moved (ls_kv s) (pa_Key a) (pa_Version a)
     | ErrNoKey \<Rightarrow> kvMap (ls_kv s) (pa_Key a) = None \<and> pa_Version a \<noteq> 0
     | _ \<Rightarrow> False)"

definition add_request :: "Lock \<Rightarrow> nat \<Rightarrow> lockPc \<Rightarrow> (nat \<times> PutArgs) set \<Rightarrow> (nat \<times> PutArgs) set" where
  "add_request lk c pc R = (case request lk pc of None \<Rightarrow> R | Some a \<Rightarrow> insert (c, a) R)"

inductive lock_step :: "(nat \<Rightarrow> Lock) \<Rightarrow> locks \<Rightarrow> locks \<Rightarrow> bool" for lk where
  Acquire: "ls_pc s c = Idle \<Longrightarrow> lock_step lk s (s\<lparr>ls_pc := (ls_pc s)(c := AcqGet)\<rparr>)"
| Release: "ls_pc s c = Held \<Longrightarrow> lock_step lk s (s\<lparr>ls_pc := (ls_pc s)(c := RelGet)\<rparr>)"
| get: "ls_pc s c \<in> {AcqGet, AcqCheck, RelGet} \<Longrightarrow>
     pc = afterGet (lk c) (ls_pc s c) (KVServer_Get \<lparr>ga_Key = lk_lockname (lk c)\<rparr> (ls_kv s)) \<Longrightarrow>
     lock_step lk s (s\<lparr>ls_pc := (ls_pc s)(c := pc), ls_ok := (ls_ok s)(c := False),
       ls_sent := add_request (lk c) c pc (ls_sent s)\<rparr>)"
| exec: "(c, a) \<in> ls_sent s \<Longrightarrow> KVServer_Put a (ls_kv s) = (kv', r) \<Longrightarrow>
     lock_step lk s (s\<lparr>ls_kv := kv', ls_n := Suc (ls_n s),
       ls_ok := (if pr_Err r = OK \<and> request (lk c) (ls_pc s c) = Some a then (ls_ok s)(c := True) else ls_ok s)\<rparr>)"
| put: "request (lk c) (ls_pc s c) = Some a \<Longrightarrow> put_returns s c a e \<Longrightarrow>
     lock_step lk s (s\<lparr>ls_pc := (ls_pc s)(c := afterPut (ls_pc s c) e), ls_ok := (ls_ok s)(c := False)\<rparr>)"

inductive lock_reach :: "(nat \<Rightarrow> Lock) \<Rightarrow> locks \<Rightarrow> bool" for lk where
  init: "lock_reach lk \<lparr>ls_kv = MakeKVServer, ls_pc = (\<lambda>_. Idle), ls_sent = {}, ls_ok = (\<lambda>_. False), ls_n = 0\<rparr>"
| step: "lock_reach lk s \<Longrightarrow> lock_step lk s s' \<Longrightarrow> lock_reach lk s'"

section \<open>The invariant\<close>

text \<open>The clients of one lock: the same name, and different ids, none of them empty.\<close>

definition clients :: "string \<Rightarrow> (nat \<Rightarrow> Lock) \<Rightarrow> bool" where
  "clients k lk \<longleftrightarrow> (\<forall>c. lk_lockname (lk c) = k \<and> lk_id (lk c) \<noteq> '''') \<and> inj (\<lambda>c. lk_id (lk c))"

definition ver :: "KVServer \<Rightarrow> string \<Rightarrow> nat" where
  "ver kv k = (case kvMap kv k of None \<Rightarrow> 0 | Some e \<Rightarrow> unat (ke_version e))"

definition owner :: "KVServer \<Rightarrow> string \<Rightarrow> string" where
  "owner kv k = (case kvMap kv k of None \<Rightarrow> '''' | Some e \<Rightarrow> ke_value e)"

text \<open>The ids that a client in a state claims to have written, and where its puts stand.\<close>

fun holds :: "lockPc \<Rightarrow> bool \<Rightarrow> bool" where
  "holds Held ok = True"
| "holds RelGet ok = True"
| "holds (AcqPut v) ok = ok"
| "holds pc ok = False"

definition client_ok :: "string \<Rightarrow> (nat \<Rightarrow> Lock) \<Rightarrow> locks \<Rightarrow> nat \<Rightarrow> bool" where
  "client_ok k lk s c \<longleftrightarrow> (holds (ls_pc s c) (ls_ok s c) \<longrightarrow> owner (ls_kv s) k = lk_id (lk c)) \<and>
     (\<forall>v. ls_pc s c = RelPut v \<longrightarrow> unat v \<le> ver (ls_kv s) k \<and> (ls_ok s c \<longrightarrow> unat v < ver (ls_kv s) k) \<and>
       (unat v = ver (ls_kv s) k \<longrightarrow> owner (ls_kv s) k = lk_id (lk c)))"

definition request_ok :: "string \<Rightarrow> (nat \<Rightarrow> Lock) \<Rightarrow> locks \<Rightarrow> nat \<times> PutArgs \<Rightarrow> bool" where
  "request_ok k lk s x \<longleftrightarrow> (case x of (c, a) \<Rightarrow> pa_Key a = k \<and> unat (pa_Version a) \<le> ver (ls_kv s) k \<and>
     (unat (pa_Version a) = ver (ls_kv s) k \<longrightarrow>
       (pa_Value a = lk_id (lk c) \<and> owner (ls_kv s) k = '''') \<or>
       (pa_Value a = '''' \<and> owner (ls_kv s) k = lk_id (lk c) \<and> ls_pc s c = RelPut (pa_Version a))))"

definition lock_inv :: "string \<Rightarrow> (nat \<Rightarrow> Lock) \<Rightarrow> locks \<Rightarrow> bool" where
  "lock_inv k lk s \<longleftrightarrow> ver (ls_kv s) k \<le> ls_n s \<and> (\<forall>c. client_ok k lk s c) \<and> (\<forall>x \<in> ls_sent s. request_ok k lk s x)"


lemma Get_facts:
  "unat (gr_Version (KVServer_Get \<lparr>ga_Key = k\<rparr> kv)) = ver kv k"
  "gr_Err (KVServer_Get \<lparr>ga_Key = k\<rparr> kv) = OK \<Longrightarrow> gr_Value (KVServer_Get \<lparr>ga_Key = k\<rparr> kv) = owner kv k"
  "gr_Err (KVServer_Get \<lparr>ga_Key = k\<rparr> kv) = ErrNoKey \<Longrightarrow> owner kv k = ''''"
  by (auto simp: KVServer_Get_def ver_def owner_def split: option.splits)

lemma Suc_unat: "unat v < 2 ^ 64 - 1 \<Longrightarrow> unat (v + 1) = Suc (unat v)" for v :: "64 word"
  by (simp add: unat_word_ariths(1))

lemma unat_inj: "unat v = unat w \<longleftrightarrow> v = w" for v w :: "64 word"
  by (rule word_unat_eq_iff [symmetric])

lemma Put_facts:
  assumes "KVServer_Put a kv = (kv', r)" "ver kv (pa_Key a) < 2 ^ 64 - 1"
  shows "if unat (pa_Version a) = ver kv (pa_Key a)
    then pr_Err r = OK \<and> ver kv' (pa_Key a) = Suc (ver kv (pa_Key a)) \<and> owner kv' (pa_Key a) = pa_Value a
    else pr_Err r \<noteq> OK \<and> kv' = kv"
proof (cases "kvMap kv (pa_Key a)")
  case None
  then show ?thesis using assms(1) by (auto simp: KVServer_Put_def ver_def owner_def unat_eq_0 split: if_splits)
next
  case (Some e)
  then show ?thesis using assms Suc_unat [of "ke_version e"]
    by (auto simp: KVServer_Put_def ver_def owner_def unat_inj split: if_splits)
qed

lemma request_holds: "request l pc = Some a \<Longrightarrow> holds pc ok \<Longrightarrow> pa_Value a = lk_id l"
  by (cases pc) auto

lemma request_version: "request l pc = Some a \<Longrightarrow> pc = AcqPut (pa_Version a) \<or> pc = RelPut (pa_Version a)"
  by (cases pc) auto

lemma lock_invD:
  assumes "lock_inv k lk s"
  shows "ver (ls_kv s) k \<le> ls_n s" "client_ok k lk s c" "x \<in> ls_sent s \<Longrightarrow> request_ok k lk s x"
  using assms by (simp_all add: lock_inv_def)

lemma moved_ver: "moved kv k v \<Longrightarrow> unat v \<noteq> ver kv k"
  by (auto simp: moved_def ver_def unat_inj split: option.splits)

text \<open>A step that only changes the program counter of one client.\<close>

lemma lock_inv_pc:
  assumes inv: "lock_inv k lk s" and kv: "ls_kv s' = ls_kv s" "ls_n s' = ls_n s"
    and other: "\<And>d. d \<noteq> c \<Longrightarrow> ls_pc s' d = ls_pc s d \<and> ls_ok s' d = ls_ok s d"
    and c: "client_ok k lk s' c" and r: "\<And>x. x \<in> ls_sent s' \<Longrightarrow> x \<in> ls_sent s \<or> request_ok k lk s' x"
    and rel: "\<And>v. ls_pc s c = RelPut v \<Longrightarrow> unat v \<noteq> ver (ls_kv s) k"
  shows "lock_inv k lk s'"
  unfolding lock_inv_def
proof (intro conjI allI ballI)
  show "ver (ls_kv s') k \<le> ls_n s'" using lock_invD(1) [OF inv] kv by simp
  show "client_ok k lk s' d" for d
    using c lock_invD(2) [OF inv, of d] other [of d] kv by (cases "d = c") (auto simp: client_ok_def)
  fix x assume x: "x \<in> ls_sent s'"
  obtain d a where d: "x = (d, a)" by fastforce
  show "request_ok k lk s' x"
  proof (cases "x \<in> ls_sent s")
    case True
    then have o: "request_ok k lk s x" using lock_invD(3) [OF inv] by blast
    show ?thesis
    proof (cases "d = c")
      case True
      then show ?thesis using o kv rel d by (auto simp: request_ok_def)
    next
      case False
      then show ?thesis using o kv other [of d] d by (auto simp: request_ok_def)
    qed
  qed (use r [OF x] in blast)
qed

lemma lock_inv_get:
  assumes inv: "lock_inv k lk s" and cl: "clients k lk" and pc: "ls_pc s c \<in> {AcqGet, AcqCheck, RelGet}"
    and n: "pc = afterGet (lk c) (ls_pc s c) (KVServer_Get \<lparr>ga_Key = lk_lockname (lk c)\<rparr> (ls_kv s))"
  shows "lock_inv k lk (s\<lparr>ls_pc := (ls_pc s)(c := pc), ls_ok := (ls_ok s)(c := False),
       ls_sent := add_request (lk c) c pc (ls_sent s)\<rparr>)" (is "lock_inv k lk ?s")
proof -
  let ?r = "KVServer_Get \<lparr>ga_Key = k\<rparr> (ls_kv s)"
  have k: "lk_lockname (lk c) = k" using cl by (simp add: clients_def)
  note facts = Get_facts [of k "ls_kv s"]
  have held: "holds (ls_pc s c) (ls_ok s c) \<Longrightarrow> owner (ls_kv s) k = lk_id (lk c)"
    using lock_invD(2) [OF inv, of c] by (simp add: client_ok_def)
  have cases: "(\<exists>v. pc = AcqPut v \<and> unat v = ver (ls_kv s) k \<and> owner (ls_kv s) k = '''') \<or>
      (pc = Held \<and> owner (ls_kv s) k = lk_id (lk c)) \<or>
      (\<exists>v. pc = RelPut v \<and> unat v = ver (ls_kv s) k \<and> owner (ls_kv s) k = lk_id (lk c)) \<or> pc = AcqGet \<or> pc = Idle"
  proof -
    from pc consider "ls_pc s c = AcqGet" | "ls_pc s c = AcqCheck" | "ls_pc s c = RelGet" by auto
    then show ?thesis
    proof cases
      case 1
      then show ?thesis using n facts unfolding k by (cases "gr_Err ?r = OK") auto
    qed (use n facts in \<open>auto simp: k\<close>)
  qed
  have "client_ok k lk ?s c" using cases by (auto simp: client_ok_def)
  moreover have "x \<in> ls_sent s \<or> request_ok k lk ?s x" if "x \<in> ls_sent ?s" for x
    using that cases k by (auto simp: add_request_def request_ok_def)
  ultimately show ?thesis
    using lock_inv_pc [OF inv, of ?s c] pc by auto
qed


text \<open>The network executes a request; it can succeed only on the version it was made for.\<close>

lemma lock_inv_exec:
  assumes inv: "lock_inv k lk s" and cl: "clients k lk" and x: "(c, a) \<in> ls_sent s"
    and p: "KVServer_Put a (ls_kv s) = (kv', r)" and n: "ls_n s < 2 ^ 64 - 1"
  shows "lock_inv k lk (s\<lparr>ls_kv := kv', ls_n := Suc (ls_n s),
       ls_ok := (if pr_Err r = OK \<and> request (lk c) (ls_pc s c) = Some a then (ls_ok s)(c := True) else ls_ok s)\<rparr>)"
    (is "lock_inv k lk ?s")
proof -
  have ra: "request_ok k lk s (c, a)" by (rule lock_invD(3) [OF inv x])
  then have key: "pa_Key a = k" by (simp add: request_ok_def)
  have b: "ver (ls_kv s) (pa_Key a) < 2 ^ 64 - 1" using lock_invD(1) [OF inv] n key by simp
  note facts = Put_facts [OF p b, unfolded key]
  have id: "lk_id (lk d) \<noteq> ''''" "lk_id (lk d) = lk_id (lk e) \<Longrightarrow> d = e" for d e
    using cl by (auto simp: clients_def inj_def)
  show ?thesis
  proof (cases "unat (pa_Version a) = ver (ls_kv s) k")
    case False
    then have "pr_Err r \<noteq> OK" "kv' = ls_kv s" using facts by simp_all
    then show ?thesis using inv unfolding lock_inv_def client_ok_def request_ok_def by auto
  next
    case True
    then have f: "pr_Err r = OK" "ver kv' k = Suc (ver (ls_kv s) k)" "owner kv' k = pa_Value a" using facts by simp_all
    from ra True consider
        (take) "pa_Value a = lk_id (lk c)" "owner (ls_kv s) k = ''''"
      | (give) "pa_Value a = ''''" "owner (ls_kv s) k = lk_id (lk c)" "ls_pc s c = RelPut (pa_Version a)"
      by (auto simp: request_ok_def)
    note cases = this
    have nobody: "\<not> holds (ls_pc s d) (ls_ok s d)" for d
    proof
      assume "holds (ls_pc s d) (ls_ok s d)"
      then have o: "owner (ls_kv s) k = lk_id (lk d)" using lock_invD(2) [OF inv, of d] by (simp add: client_ok_def)
      from cases show False
      proof cases
        case give
        then have "d = c" using o id(2) by metis
        then show False using give(3) \<open>holds (ls_pc s d) (ls_ok s d)\<close> by simp
      qed (use o id(1) in simp)
    qed
    show ?thesis
      unfolding lock_inv_def
    proof (intro conjI allI ballI)
      show "ver (ls_kv ?s) k \<le> ls_n ?s" using lock_invD(1) [OF inv] f(2) by simp
      show "client_ok k lk ?s d" for d
        using nobody [of d] lock_invD(2) [OF inv, of d] f by (auto simp: client_ok_def intro: request_holds split: if_splits)
      show "request_ok k lk ?s y" if "y \<in> ls_sent ?s" for y
        using lock_invD(3) [OF inv, of y] that f(2) by (auto simp: request_ok_def split: prod.splits)
    qed
  qed
qed

lemma lock_inv_put:
  assumes inv: "lock_inv k lk s" and cl: "clients k lk" and q: "request (lk c) (ls_pc s c) = Some a"
    and e: "put_returns s c a e"
  shows "lock_inv k lk (s\<lparr>ls_pc := (ls_pc s)(c := afterPut (ls_pc s c) e), ls_ok := (ls_ok s)(c := False)\<rparr>)" (is "lock_inv k lk ?s")
proof -
  have ok: "client_ok k lk s c" by (rule lock_invD(2) [OF inv])
  have k: "pa_Key a = k" using q cl by (cases "ls_pc s c") (auto simp: clients_def)
  have res: "ls_ok s c \<or> unat (pa_Version a) \<noteq> ver (ls_kv s) k"
    using e moved_ver [of "ls_kv s" k "pa_Version a"]
    by (auto simp: put_returns_def k ver_def unat_eq_0 split: Err.splits)
  have rel: "unat v \<noteq> ver (ls_kv s) k" if "ls_pc s c = RelPut v" for v
    using res ok q that by (auto simp: client_ok_def)
  have "client_ok k lk ?s c"
    using q e ok by (cases "ls_pc s c") (auto simp: client_ok_def put_returns_def split: Err.splits)
  then show ?thesis using rel by (intro lock_inv_pc [OF inv, of _ c]) auto
qed

lemma lock_inv_step:
  "lock_step lk s s' \<Longrightarrow> clients k lk \<Longrightarrow> lock_inv k lk s \<Longrightarrow> ls_n s' < 2 ^ 64 \<Longrightarrow> lock_inv k lk s'"
proof (induction rule: lock_step.induct)
  case (Acquire s c)
  then show ?case by (intro lock_inv_pc [OF Acquire(3), of _ c]) (auto simp: client_ok_def)
next
  case (Release s c)
  then show ?case using lock_invD(2) [OF Release(3), of c]
    by (intro lock_inv_pc [OF Release(3), of _ c]) (auto simp: client_ok_def)
next
  case (get s c pc)
  then show ?case using lock_inv_get by blast
next
  case (exec c a s kv' r)
  then show ?case using lock_inv_exec [OF exec(4,3,1,2)] by simp
next
  case (put c s a e)
  then show ?case using lock_inv_put by blast
qed

lemma lock_reach_inv:
  "lock_reach lk s \<Longrightarrow> clients k lk \<Longrightarrow> ls_n s < 2 ^ 64 \<Longrightarrow> lock_inv k lk s"
proof (induction rule: lock_reach.induct)
  case init
  then show ?case by (auto simp: lock_inv_def client_ok_def ver_def MakeKVServer_def)
next
  case (step s s')
  have "ls_n s \<le> ls_n s'" using step.hyps(2) by cases auto
  then show ?case using lock_inv_step [OF step.hyps(2)] step by simp
qed

text \<open>
  C17. Mutual exclusion: clients with different ids that take and release one lock through clerks,
  over a network that may lose, delay and repeat their requests, never hold it at the same time.
\<close>

theorem lock_mutual_exclusion:
  assumes "clients k lk" "lock_reach lk s" "ls_n s < 2 ^ 64" "ls_pc s c = Held" "ls_pc s d = Held"
  shows "c = d"
proof -
  note inv = lock_reach_inv [OF assms(2,1,3)]
  have "owner (ls_kv s) k = lk_id (lk c)" "owner (ls_kv s) k = lk_id (lk d)"
    using lock_invD(2) [OF inv, of c] lock_invD(2) [OF inv, of d] assms(4,5) by (simp_all add: client_ok_def)
  then show ?thesis using assms(1) by (auto simp: clients_def inj_def)
qed


definition demo_locks :: "nat \<Rightarrow> Lock" where
  "demo_locks c = \<lparr>lk_id = replicate (Suc c) (CHR ''a''), lk_lockname = ''l''\<rparr>"

lemma demo_clients: "clients ''l'' demo_locks"
  by (auto simp: clients_def demo_locks_def inj_def dest: arg_cong [of _ _ length])

lemma demo_held: "\<exists>s. lock_reach demo_locks s \<and> ls_n s = 1 \<and> ls_pc s 0 = Held"
proof -
  let ?s = "\<lambda>kv pc sent ok n. \<lparr>ls_kv = kv, ls_pc = (\<lambda>_. Idle)(0 := pc), ls_sent = sent, ls_ok = (\<lambda>_. False)(0 := ok), ls_n = n\<rparr>"
  let ?a = "\<lparr>pa_Key = ''l'', pa_Value = ''a'', pa_Version = 0\<rparr>"
  let ?kv = "\<lparr>kvMap = [''l'' \<mapsto> \<lparr>ke_value = ''a'', ke_version = 1\<rparr>]\<rparr>"
  have r0: "lock_reach demo_locks (?s MakeKVServer Idle {} False 0)"
    using lock_reach.init [of demo_locks] by (simp add: fun_upd_idem)
  have r1: "lock_reach demo_locks (?s MakeKVServer AcqGet {} False 0)"
    using lock_reach.step [OF r0 Acquire [of _ 0]] by simp
  have r2: "lock_reach demo_locks (?s MakeKVServer (AcqPut 0) {(0, ?a)} False 0)"
    using lock_reach.step [OF r1 get [of _ 0 "AcqPut 0"]]
    by (simp add: KVServer_Get_def MakeKVServer_def demo_locks_def add_request_def)
  have r3: "lock_reach demo_locks (?s ?kv (AcqPut 0) {(0, ?a)} True 1)"
    using lock_reach.step [OF r2 exec [of 0 ?a _ ?kv "\<lparr>pr_Err = OK\<rparr>"]]
    by (simp add: KVServer_Put_def MakeKVServer_def demo_locks_def)
  have "lock_reach demo_locks (?s ?kv Held {(0, ?a)} False 1)"
    using lock_reach.step [OF r3 put [of _ 0 _ ?a OK]] by (simp add: demo_locks_def put_returns_def)
  then have "lock_reach demo_locks (?s ?kv Held {(0, ?a)} False 1) \<and> ls_n (?s ?kv Held {(0, ?a)} False 1) = 1 \<and>
      ls_pc (?s ?kv Held {(0, ?a)} False 1) 0 = Held" by simp
  then show ?thesis by (rule exI)
qed

theorem lock_mutual_exclusion_witness:
  "\<exists>s. clients ''l'' demo_locks \<and> lock_reach demo_locks s \<and> ls_pc s 0 = Held \<and> (\<forall>d. ls_pc s d = Held \<longrightarrow> d = 0)"
proof -
  obtain s where s: "lock_reach demo_locks s" "ls_n s = 1" "ls_pc s 0 = Held" using demo_held by blast
  then show ?thesis using lock_mutual_exclusion [OF demo_clients s(1)] demo_clients by (intro exI [of _ s]) auto
qed

end
