(* ===== verification/KvModel.thy ===== *)
theory KvModel
  imports KvSrv "HOL-Library.Char_ord" "HOL-Library.List_Lexorder"
begin

text \<open>
  The sequential model that the tests check histories against, \<open>models1/kv.go\<close>: one key with a
  value and a version, and the partition of a history by key. The string that describes an operation
  is not modelled.
\<close>

record KvInput =
  ki_Op :: "8 word"
  ki_Key :: string
  ki_Value :: string
  ki_Version :: "64 word"

record KvOutput =
  ko_Value :: string
  ko_Version :: "64 word"
  ko_Err :: Err

record KvState =
  ks_Value :: string
  ks_Version :: "64 word"

definition KvModel_Init :: KvState where
  "KvModel_Init = \<lparr>ks_Value = '''', ks_Version = 0\<rparr>"

text \<open>An operation that is not known is refused; the state is then none.\<close>

definition KvModel_Step :: "KvState \<Rightarrow> KvInput \<Rightarrow> KvOutput \<Rightarrow> bool \<times> KvState option" where
  "KvModel_Step st inp out =
     (if ki_Op inp = 0 then (ko_Value out = ks_Value st, Some st)
      else if ki_Op inp = 1 then
        (if ks_Version st = ki_Version inp
         then (ko_Err out = OK \<or> ko_Err out = ErrMaybe,
               Some \<lparr>ks_Value = ki_Value inp, ks_Version = ks_Version st + 1\<rparr>)
         else (ko_Err out = ErrVersion \<or> ko_Err out = ErrMaybe, Some st))
      else (False, None))"

type_synonym operation = "KvInput \<times> KvOutput"

text \<open>The history of each key, in the order of the keys.\<close>

definition addOp :: "(string \<rightharpoonup> operation list) \<Rightarrow> operation \<Rightarrow> (string \<rightharpoonup> operation list)" where
  "addOp m v = m(ki_Key (fst v) \<mapsto> (case m (ki_Key (fst v)) of None \<Rightarrow> [] | Some vs \<Rightarrow> vs) @ [v])"

definition KvModel_Partition :: "operation list \<Rightarrow> operation list list" where
  "KvModel_Partition history =
     (let m = foldl addOp Map.empty history; keys = sort (remdups (map (ki_Key \<circ> fst) history))
      in map (\<lambda>k. the (m k)) keys)"

lemma addOps:
  "foldl addOp m history k =
     (if k \<in> ki_Key ` fst ` set history
      then Some ((case m k of None \<Rightarrow> [] | Some vs \<Rightarrow> vs) @ filter (\<lambda>v. ki_Key (fst v) = k) history) else m k)"
proof (induction history arbitrary: m)
  case (Cons v history)
  have none: "k \<notin> ki_Key ` fst ` set history \<Longrightarrow> filter (\<lambda>v. ki_Key (fst v) = k) history = []"
    by (auto simp: filter_empty_conv)
  have new: "addOp m v k = (if ki_Key (fst v) = k then Some ((case m k of None \<Rightarrow> [] | Some vs \<Rightarrow> vs) @ [v]) else m k)"
    by (simp add: addOp_def)
  show ?case using Cons [of "addOp m v"] none by (auto simp: new)
qed simp

section \<open>Properties\<close>

definition viewKey :: "string \<Rightarrow> KVServer \<Rightarrow> KvState" where
  "viewKey k kv = (case kvMap kv k of None \<Rightarrow> KvModel_Init | Some e \<Rightarrow> \<lparr>ks_Value = ke_value e, ks_Version = ke_version e\<rparr>)"

definition putOp :: "PutArgs \<Rightarrow> PutReply \<Rightarrow> operation" where
  "putOp a r = (\<lparr>ki_Op = 1, ki_Key = pa_Key a, ki_Value = pa_Value a, ki_Version = pa_Version a\<rparr>,
     \<lparr>ko_Value = '''', ko_Version = 0, ko_Err = pr_Err r\<rparr>)"

definition getOp :: "GetArgs \<Rightarrow> GetReply \<Rightarrow> operation" where
  "getOp a r = (\<lparr>ki_Op = 0, ki_Key = ga_Key a, ki_Value = '''', ki_Version = 0\<rparr>,
     \<lparr>ko_Value = gr_Value r, ko_Version = gr_Version r, ko_Err = gr_Err r\<rparr>)"

text \<open>
  C36. The server implements the model of the tests, key by key: the model takes every get and
  every put of the server to the state that the server has afterwards and accepts its answer, with
  one exception, a put of a version other than 0 on a key that does not exist: the server answers
  \<open>ErrNoKey\<close>, as its comment says, and the model refuses that answer.
\<close>

theorem kv_server_refines_model:
  "KvModel_Step (viewKey (ga_Key g) kv) (fst (getOp g (KVServer_Get g kv))) (snd (getOp g (KVServer_Get g kv))) =
     (True, Some (viewKey (ga_Key g) kv)) \<and>
   (let (kv', r) = KVServer_Put p kv in
     KvModel_Step (viewKey (pa_Key p) kv) (fst (putOp p r)) (snd (putOp p r)) =
       (pa_Key p \<in> dom (kvMap kv) \<or> pa_Version p = 0, Some (viewKey (pa_Key p) kv')) \<and>
     (\<forall>k. k = pa_Key p \<or> viewKey k kv' = viewKey k kv))"
  by (auto simp: KvModel_Step_def getOp_def putOp_def KVServer_Get_def KVServer_Put_def viewKey_def KvModel_Init_def
    split: option.splits prod.splits)

text \<open>
  The partition of a history has one part for every key that occurs in it, in ascending order,
  and the part of a key is the operations on this key, in the order of the history.
\<close>

theorem kv_partition_by_key:
  "KvModel_Partition history =
     map (\<lambda>k. filter (\<lambda>v. ki_Key (fst v) = k) history) (sorted_list_of_set (ki_Key ` fst ` set history))"
  by (auto simp: KvModel_Partition_def addOps sorted_list_of_set_sort_remdups [symmetric] image_comp Let_def
    intro!: map_cong)

end
