(* ===== verification/RaftApply.thy ===== *)
theory RaftApply
  imports RaftProperties
begin

text \<open>
  What the service of a node sees: where snapshots come from, and that the apply loop delivers the
  committed log without a gap, with a snapshot in the place of the entries it covers.
\<close>

section \<open>Snapshots\<close>

text \<open>The snapshots among the calls on the write-ahead log.\<close>

fun saves :: "'c WalOp list \<Rightarrow> (int \<times> slice) list" where
  "saves [] = []"
| "saves (SaveSnapshot i t sn es # ops) = (i, sn) # saves ops"
| "saves (_ # ops) = saves ops"

lemma saves_append [simp]: "saves (ops @ ops') = saves ops @ saves ops'"
  by (induction ops rule: saves.induct) simp_all

definition snapOf :: "'c Raft \<Rightarrow> int \<times> slice" where
  "snapOf rf = (rf_snapshotIndex rf, rf_snapshot rf)"

text \<open>An operation that leaves the snapshot alone, and what the service has been given.\<close>

definition keeps :: "'c Raft \<Rightarrow> 'c WalOp list \<Rightarrow> 'c Raft \<Rightarrow> bool" where
  "keeps rf ops rf' \<longleftrightarrow> snapOf rf' = snapOf rf \<and> rf_appliedIndex rf' = rf_appliedIndex rf \<and> saves ops = []"

lemma keeps_refl [simp]: "keeps rf [] rf"
  by (simp add: keeps_def)

lemma keeps_trans: "keeps rf ops rf' \<Longrightarrow> keeps rf' ops' rf'' \<Longrightarrow> keeps rf (ops @ ops') rf''"
  by (simp add: keeps_def)

lemma keeps_observeTerm: "observeTerm t rf = (rf', ops) \<Longrightarrow> keeps rf ops rf'"
  by (auto simp: observeTerm_def stepDown_def keeps_def snapOf_def split: if_splits)

lemma keeps_beginElection: "beginElectionLocked rf = Some (rf', r, ops) \<Longrightarrow> keeps rf ops rf'"
  by (auto simp: beginElectionLocked_def keeps_def snapOf_def Let_def)

lemma keeps_RequestVote: "RequestVote args rf = Some (rf', reply, ops) \<Longrightarrow> keeps rf ops rf'"
  by (auto simp: RequestVote_def Let_def keeps_def snapOf_def
    dest!: keeps_observeTerm [unfolded keeps_def snapOf_def] split: if_splits prod.splits)

lemma keeps_TimeoutNow: "TimeoutNow args rf = Some (rf', reply, r, ops) \<Longrightarrow> keeps rf ops rf'"
  by (auto simp: TimeoutNow_def Let_def keeps_def snapOf_def
    dest!: keeps_observeTerm [unfolded keeps_def snapOf_def] keeps_beginElection [unfolded keeps_def snapOf_def]
    split: if_splits prod.splits)

lemma keeps_appendEntries: "appendEntries args rf = Some (rf', reply, ops) \<Longrightarrow> keeps rf ops rf'"
  by (auto simp: appendEntries_def appendNew_def Let_def keeps_def snapOf_def split: if_splits)

lemma keeps_replies:
  "sendAppendEntries p args reply rf = Some (rf', ops) \<Longrightarrow> keeps rf ops rf'"
  "sendRequestVote args' reply' rf = (rf', ops) \<Longrightarrow> keeps rf ops rf'"
  by (auto simp: sendAppendEntries_def sendRequestVote_def becomeLeader_def stepDown_def Let_def keeps_def snapOf_def
    dest!: advanceCommit_fields split: if_splits)

lemma keeps_others:
  "Start c rf = (rf', res, ops) \<Longrightarrow> keeps rf ops rf'"
  "ticker g rf = Some (rf', r, ops) \<Longrightarrow> keeps rf ops rf'"
  by (auto simp: Start_def ticker_def Let_def keeps_def snapOf_def
    dest!: keeps_beginElection [unfolded keeps_def snapOf_def] split: if_splits)

lemmas keeps_all = keeps_observeTerm keeps_RequestVote keeps_TimeoutNow keeps_replies keeps_others

text \<open>An operation that may take over a snapshot \<open>x\<close>.\<close>

definition takes :: "int \<times> slice \<Rightarrow> 'c Raft \<Rightarrow> 'c WalOp list \<Rightarrow> 'c Raft \<Rightarrow> bool" where
  "takes x rf ops rf' \<longleftrightarrow> rf_appliedIndex rf' = rf_appliedIndex rf \<and>
     (snapOf rf' = snapOf rf \<and> saves ops = [] \<or> snapOf rf' = x \<and> saves ops = [x])"

lemma takes_installSnapshot:
  "installSnapshot args rf = Some (rf', reply, ops) \<Longrightarrow> takes (ae_SnapshotIndex args, ae_Snapshot args) rf ops rf'"
  by (auto simp: installSnapshot_def Let_def takes_def snapOf_def split: if_splits)

lemma takes_Snapshot: "Snapshot i sn rf = Some (rf', ops) \<Longrightarrow> takes (i, sn) rf ops rf'"
  by (auto simp: Snapshot_def Let_def takes_def snapOf_def split: if_splits)

lemma takes_AppendEntriesHandler:
  assumes "AppendEntriesHandler args rf = Some (rf', reply, ops)"
  shows "if ae_Snapshot args = None then keeps rf ops rf' else takes (ae_SnapshotIndex args, ae_Snapshot args) rf ops rf'"
proof (cases "ae_Term args < rf_term rf")
  case True
  then show ?thesis using assms by (simp add: AppendEntriesHandler_def takes_def)
next
  case False
  obtain rf1 ops1 where o: "observeTerm (ae_Term args) rf = (rf1, ops1)" by fastforce
  let ?rf2 = "resetElectionTimerLocked (rf1\<lparr>rf_customerId := Follower, rf_leaderId := ae_LeaderId args\<rparr>)"
  obtain ops2 where ops: "ops = ops1 @ ops2" and
    h: "(if ae_Snapshot args \<noteq> None then installSnapshot args ?rf2 else appendEntries args ?rf2) = Some (rf', reply, ops2)"
    using assms False o by (auto simp: AppendEntriesHandler_def Let_def)
  have k: "snapOf ?rf2 = snapOf rf" "rf_appliedIndex ?rf2 = rf_appliedIndex rf" "saves ops1 = []"
    using keeps_observeTerm [OF o] by (auto simp: keeps_def snapOf_def)
  show ?thesis
  proof (cases "ae_Snapshot args = None")
    case True
    then show ?thesis using keeps_appendEntries [of args ?rf2] h k by (auto simp: keeps_def ops)
  next
    case False
    then have "installSnapshot args ?rf2 = Some (rf', reply, ops2)" using h by simp
    note takes_installSnapshot [OF this]
    then show ?thesis using k False by (auto simp: takes_def ops)
  qed
qed

text \<open>Where the snapshot of an input comes from.\<close>

fun offered :: "'c input \<Rightarrow> (int \<times> slice) option" where
  "offered (TakeSnapshot i sn) = Some (i, Some sn)"
| "offered (Deliver (AppendCall a b args)) =
     (if ae_Snapshot args = None then None else Some (ae_SnapshotIndex args, ae_Snapshot args))"
| "offered _ = None"

lemma keeps_node_step:
  assumes "node_step i rf = Some (rf', ms, as, ops)" "offered i = None" "i \<noteq> ApplyLoop"
  shows "keeps rf ops rf' \<and> as = []"
proof (cases i)
  case (Deliver m)
  then show ?thesis using assms takes_AppendEntriesHandler [of _ rf rf']
    by (cases m) (auto simp: TransferLeadership_done_def split: prod.splits if_splits intro: keeps_all)
qed (use assms in \<open>auto simp: Kill_def keeps_def snapOf_def split: prod.splits
  dest!: keeps_others [unfolded keeps_def snapOf_def]\<close>)

lemma takes_node_step:
  assumes "node_step i rf = Some (rf', ms, as, ops)" "offered i = Some x"
  shows "takes x rf ops rf' \<and> as = []"
  using assms
  by (cases i rule: offered.cases)
    (auto split: prod.splits if_splits dest: takes_Snapshot dest!: takes_AppendEntriesHandler)

text \<open>A node offers others the snapshot it has.\<close>

lemma heartbeats_snapshot:
  "heartbeats rf ids = Some hs \<Longrightarrow> (b, args) \<in> set hs \<Longrightarrow> ae_Snapshot args \<noteq> None \<Longrightarrow>
     (ae_SnapshotIndex args, ae_Snapshot args) = snapOf rf"
proof (induction ids arbitrary: hs)
  case (Cons peer ids)
  show ?case
  proof (cases "peer = rf_me rf")
    case False
    obtain a hs' where a: "heartbeatArgs rf peer = Some a" "heartbeats rf ids = Some hs'" "hs = (peer, a) # hs'"
      using Cons.prems(1) False by (cases "heartbeatArgs rf peer"; cases "heartbeats rf ids") auto
    have "(ae_SnapshotIndex a, ae_Snapshot a) = snapOf rf" if "ae_Snapshot a \<noteq> None"
      using a(1) that by (auto simp: heartbeatArgs_def snapOf_def Let_def split: if_splits)
    then show ?thesis using Cons a(2,3) by auto
  qed (use Cons in auto)
qed simp

lemma sent_snapshot:
  assumes "node_step i rf = Some (rf', ms, as, ops)" "AppendCall a b args \<in> set ms" "ae_Snapshot args \<noteq> None"
  shows "(ae_SnapshotIndex args, ae_Snapshot args) = snapOf rf" "snapOf rf' = snapOf rf"
proof -
  have "i = Heartbeat"
  proof (cases i)
    case (Deliver m)
    then show ?thesis using assms(1,2)
      by (cases m) (auto simp: voteCalls_def split: prod.splits option.splits)
  qed (use assms(1,2) in \<open>auto simp: voteCalls_def split: prod.splits option.splits sum.splits\<close>)
  then have h: "\<exists>hs. startHeartbeat rf = Some hs \<and> (b, args) \<in> set hs" "rf' = rf\<lparr>rf_newEntryCh := False\<rparr>"
    using assms(1,2) by auto
  then show "(ae_SnapshotIndex args, ae_Snapshot args) = snapOf rf" "snapOf rf' = snapOf rf"
    using heartbeats_snapshot [OF _ _ assms(3)] by (auto simp: startHeartbeat_def snapOf_def split: if_splits)
qed

text \<open>A crash leaves the old snapshot or one of those that were being saved.\<close>

lemma wal_crash_snapshot:
  "wal_crash ops st st' \<Longrightarrow>
     (ps_SnapshotIndex st', ps_Snapshot st') \<in> insert (ps_SnapshotIndex st, ps_Snapshot st) (set (saves ops))"
proof (induction rule: wal_crash.induct)
  case (crash_after op st st' ops st'')
  then show ?case by (cases op) (auto split: bind_splits)
qed auto

section \<open>The apply loop\<close>

text \<open>
  A stretch of messages that takes a service from index \<open>i\<close> to index \<open>j\<close>: commands one by
  one, or a snapshot that jumps ahead; \<open>S\<close> says what a snapshot of an index has to be.
\<close>

fun stretch :: "NodeID set \<Rightarrow> 'c spec \<Rightarrow> (int \<times> slice \<Rightarrow> bool) \<Rightarrow> int \<Rightarrow> 'c ApplyMsg list \<Rightarrow> int \<Rightarrow> bool" where
  "stretch N s S i [] j \<longleftrightarrow> i = j"
| "stretch N s S i (m # ms) j \<longleftrightarrow>
     (if am_CommandValid m then am_CommandIndex m = i + 1 \<and> apply_ok N s m \<and> stretch N s S (i + 1) ms j
      else am_SnapshotValid m \<and> i < am_SnapshotIndex m \<and> S (am_SnapshotIndex m, am_Snapshot m) \<and>
        stretch N s S (am_SnapshotIndex m) ms j)"

lemma stretch_append: "stretch N s S i (ms @ ms') j \<longleftrightarrow> (\<exists>k. stretch N s S i ms k \<and> stretch N s S k ms' j)"
  by (induction ms arbitrary: i) auto

lemma stretch_le: "stretch N s S i ms j \<Longrightarrow> i \<le> j"
  by (induction ms arbitrary: i) (force split: if_splits)+

lemma stretch_mono:
  assumes "spec_inv N s" "extends s s'" "\<And>x. S x \<Longrightarrow> S' x"
  shows "stretch N s S i ms j \<Longrightarrow> stretch N s' S' i ms j"
  by (induction ms arbitrary: i) (use assms apply_ok_extends in \<open>auto split: if_splits\<close>)

lemma stretch_commands:
  "\<forall>m \<in> set (commandMsgs (i + 1) es). apply_ok N s m \<Longrightarrow> stretch N s S i (commandMsgs (i + 1) es) (i + int (length es))"
proof (induction es arbitrary: i)
  case (Cons e es)
  then show ?case using Cons.IH [of "i + 1"] by (simp add: commandMsg_def algebra_simps)
qed simp

lemma sendApplyMsg_stretch:
  assumes n: "nsim N s n rf" and h: "sendApplyMsg rf = Some (rf', ms)"
    and S: "0 < rf_snapshotIndex rf \<Longrightarrow> S (snapOf rf)" "0 < rf_snapshotIndex rf \<Longrightarrow> rf_snapshot rf \<noteq> None"
    and a: "0 \<le> rf_appliedIndex rf"
  shows "stretch N s S (rf_appliedIndex rf) ms (rf_appliedIndex rf') \<and> snapOf rf' = snapOf rf"
proof (cases "rf_dead rf \<or> rf_commitIndex rf = rf_appliedIndex rf")
  case True
  then show ?thesis using h by (auto simp: sendApplyMsg_def)
next
  case False
  define p c where p: "p = nat (max (rf_appliedIndex rf) (rf_snapshotIndex rf))" "c = nat (rf_commitIndex rf)"
  have e: "\<not> rf_dead rf" "rf_commitIndex rf \<noteq> rf_appliedIndex rf" using False by auto
  note send = sendApplyMsg_eq [OF n e, folded p]
  let ?es = "take (c - p) (drop p (sp_log s n))"
  have ok: "\<forall>m \<in> set (commandMsgs (int p + 1) ?es). apply_ok N s m"
    by (rule commandMsgs_ok [OF commit_okD(4) [OF nsimD(3) [OF n], folded p]])
      (use send(2,3) in \<open>simp_all add: drop_take\<close>)
  have c: "0 \<le> rf_commitIndex rf" using commit_okD(1) [OF nsimD(3) [OF n]] repr_snap(1) [OF nsim_repr [OF n]] by simp
  have "length ?es = c - p" using send(2,3) by simp
  then have "int p + int (length ?es) = rf_commitIndex rf" using send(2) c p(2) by simp
  then have cmds: "stretch N s S (int p) (commandMsgs (int p + 1) ?es) (rf_commitIndex rf)"
    using stretch_commands [OF ok, of S] by simp
  show ?thesis
  proof (cases "rf_appliedIndex rf + 1 \<le> rf_snapshotIndex rf")
    case True
    then have "int p = rf_snapshotIndex rf" "0 < rf_snapshotIndex rf" using a p by auto
    then show ?thesis using h send(1) cmds S True by (auto simp: snapshotMsg_def snapOf_def)
  next
    case False
    then have "int p = rf_appliedIndex rf" using a p by auto
    then show ?thesis using h send(1) cmds False by (auto simp: snapOf_def)
  qed
qed

end
