(* ===== verification/Rsm.thy ===== *)
theory Rsm
  imports Raft KvSrv
begin

text \<open>
  The replicated state machine of \<open>kvraft1/rsm/rsm.go\<close>: \<open>Submit\<close> puts a request
  into the Raft log and waits on a channel; the reader of the apply channel executes what Raft
  delivers and answers the waiting call if the delivered operation is its own. A channel has room for
  one result and is named by the number of the call that made it.
\<close>

record 'q Op =
  op_Opcommad :: 'q
  op_HashNum :: "64 word"

text \<open>The gob encoding of an operation; \<open>None\<close> is an error, on which both functions panic.\<close>

record 'q opGob =
  og_enc :: "'q Op \<Rightarrow> bytes option"
  og_dec :: "bytes \<Rightarrow> 'q Op option"

definition opGob_ok :: "'q opGob \<Rightarrow> bool" where
  "opGob_ok G \<longleftrightarrow> (\<forall>op. \<exists>b. og_enc G op = Some b \<and> og_dec G b = Some op)"

definition encodeOp :: "'q opGob \<Rightarrow> 'q Op \<Rightarrow> bytes option" where
  "encodeOp G op = og_enc G op"

definition decodeOp :: "'q opGob \<Rightarrow> bytes \<Rightarrow> 'q Op option" where
  "decodeOp G data = og_dec G data"

record ('s, 'q, 'r) StateMachine =
  sm_DoOp :: "int \<Rightarrow> 'q \<Rightarrow> 's \<Rightarrow> ('r \<times> 's) option"
  sm_Snapshot :: "'s \<Rightarrow> bytes option"
  sm_Restore :: "slice \<Rightarrow> 's \<Rightarrow> 's option"

datatype 'r chan = Empty | Full 'r | Closed | FullClosed 'r

record ('s, 'r) RSM =
  rsm_maxraftstate :: int
  rsm_sm :: 's
  rsm_chMap :: "int \<rightharpoonup> nat"
  rsm_hashNumMap :: "int \<rightharpoonup> 64 word"
  rsm_chans :: "nat \<Rightarrow> 'r chan"

definition MakeRSM :: "int \<Rightarrow> 's \<Rightarrow> ('s, 'r) RSM" where
  "MakeRSM maxraftstate sm = \<lparr>rsm_maxraftstate = maxraftstate, rsm_sm = sm, rsm_chMap = Map.empty,
     rsm_hashNumMap = Map.empty, rsm_chans = (\<lambda>_. Empty)\<rparr>"

text \<open>A send on a closed channel panics; a send on a full one would block for ever. Closing a
  channel twice panics. A value that is in a channel when it is closed can still be received.\<close>

definition chan_send :: "'r \<Rightarrow> 'r chan \<Rightarrow> 'r chan option" where
  "chan_send r c = (case c of Empty \<Rightarrow> Some (Full r) | _ \<Rightarrow> None)"

definition chan_close :: "'r chan \<Rightarrow> 'r chan option" where
  "chan_close c = (case c of Empty \<Rightarrow> Some Closed | Full r \<Rightarrow> Some (FullClosed r) | _ \<Rightarrow> None)"

fun chan_value :: "'r chan \<Rightarrow> 'r option" where
  "chan_value (Full r) = Some r"
| "chan_value (FullClosed r) = Some r"
| "chan_value c = None"

section \<open>Submit\<close>

text \<open>
  \<open>Submit\<close> up to the wait: the command goes to Raft, whose answer is \<open>start\<close>, and the
  call \<open>ch\<close> registers its channel under the index it got. \<open>None\<close> as the registered index
  is the early return of \<open>ErrWrongLeader\<close>.
\<close>

definition Submit_register ::
  "nat \<Rightarrow> 64 word \<Rightarrow> int \<times> int \<times> bool \<Rightarrow> ('s, 'r) RSM \<Rightarrow> (('s, 'r) RSM \<times> int option) option" where
  "Submit_register ch hashNum start rsm =
     (let (logId, term, ok) = start in
      if \<not> ok then Some (rsm, None)
      else do {
        let rsm1 = rsm\<lparr>rsm_hashNumMap := (rsm_hashNumMap rsm)(logId \<mapsto> hashNum)\<rparr>;
        rsm2 \<leftarrow> (case rsm_chMap rsm1 logId of
            None \<Rightarrow> Some rsm1
          | Some oldCh \<Rightarrow> do { c \<leftarrow> chan_close (rsm_chans rsm1 oldCh);
              Some (rsm1\<lparr>rsm_chans := (rsm_chans rsm1)(oldCh := c)\<rparr>) });
        Some (rsm2\<lparr>rsm_chMap := (rsm_chMap rsm2)(logId \<mapsto> ch)\<rparr>, Some logId) })"

definition Submit_begin ::
  "'q opGob \<Rightarrow> nat \<Rightarrow> 64 word \<Rightarrow> 'q \<Rightarrow> bytes Raft \<Rightarrow> ('s, 'r) RSM \<Rightarrow>
     (bytes Raft \<times> bytes WalOp list \<times> ('s, 'r) RSM \<times> (int \<times> int) option) option" where
  "Submit_begin G ch hashNum req rf rsm =
     (if \<not> snd (GetState rf) then Some (rf, [], rsm, None)
      else do {
        cmd \<leftarrow> encodeOp G \<lparr>op_Opcommad = req, op_HashNum = hashNum\<rparr>;
        let (rf', start, ops) = Start (Some cmd) rf;
        (rsm', logId) \<leftarrow> Submit_register ch hashNum start rsm;
        Some (rf', ops, rsm', map_option (\<lambda>i. (i, fst (snd start))) logId) })"

text \<open>
  One turn of the waiting loop: a result or a closed channel ends the call; so does a look at Raft
  that finds another term or no leader, and the overall timeout, both of which remove the entries of
  the index from the maps. The loop goes on with \<open>None\<close>.
\<close>

definition Submit_receive :: "nat \<Rightarrow> ('s, 'r) RSM \<Rightarrow> (Err \<times> 'r option) option" where
  "Submit_receive ch rsm = (case rsm_chans rsm ch of
       Empty \<Rightarrow> None | Closed \<Rightarrow> Some (ErrWrongLeader, None)
     | Full res \<Rightarrow> Some (OK, Some res) | FullClosed res \<Rightarrow> Some (OK, Some res))"

definition Submit_give_up :: "int \<Rightarrow> ('s, 'r) RSM \<Rightarrow> ('s, 'r) RSM" where
  "Submit_give_up logId rsm = rsm\<lparr>rsm_chMap := (rsm_chMap rsm)(logId := None),
     rsm_hashNumMap := (rsm_hashNumMap rsm)(logId := None)\<rparr>"

definition Submit_check :: "int \<Rightarrow> int \<Rightarrow> bytes Raft \<Rightarrow> ('s, 'r) RSM \<Rightarrow> (('s, 'r) RSM \<times> Err) option" where
  "Submit_check logId term rf rsm =
     (let (newTerm, rfIsLeader) = GetState rf in
      if \<not> rfIsLeader \<or> newTerm \<noteq> term then Some (Submit_give_up logId rsm, ErrWrongLeader) else None)"

section \<open>The reader of the apply channel\<close>

text \<open>The answer to the call that waits for an index.\<close>

definition signal :: "int \<Rightarrow> 64 word \<Rightarrow> 'r \<Rightarrow> ('s, 'r) RSM \<Rightarrow> ('s, 'r) RSM option" where
  "signal i h res rsm =
     do {
       rsm1 \<leftarrow> (case rsm_chMap rsm i of
           None \<Rightarrow> Some rsm
         | Some ch \<Rightarrow>
             if rsm_hashNumMap rsm i = Some h
             then do { c \<leftarrow> chan_send res (rsm_chans rsm ch); Some (rsm\<lparr>rsm_chans := (rsm_chans rsm)(ch := c)\<rparr>) }
             else do { c \<leftarrow> chan_close (rsm_chans rsm ch); Some (rsm\<lparr>rsm_chans := (rsm_chans rsm)(ch := c)\<rparr>) });
       Some (rsm1\<lparr>rsm_hashNumMap := (rsm_hashNumMap rsm1)(i := None), rsm_chMap := (rsm_chMap rsm1)(i := None)\<rparr>) }"

text \<open>
  One message: the next state, and the snapshot that the reader gives to Raft when \<open>sz\<close>, the
  size of what Raft has persisted, is over the limit.
\<close>

definition readApplyCh ::
  "('s, 'q, 'r) StateMachine \<Rightarrow> 'q opGob \<Rightarrow> int \<Rightarrow> bytes ApplyMsg \<Rightarrow> ('s, 'r) RSM \<Rightarrow>
     (('s, 'r) RSM \<times> (int \<times> bytes) option) option" where
  "readApplyCh M G sz msg rsm =
     (if am_CommandValid msg then do {
        cmd \<leftarrow> am_Command msg;
        op \<leftarrow> decodeOp G cmd;
        (res, sm) \<leftarrow> sm_DoOp M (am_CommandIndex msg) (op_Opcommad op) (rsm_sm rsm);
        rsm' \<leftarrow> signal (am_CommandIndex msg) (op_HashNum op) res (rsm\<lparr>rsm_sm := sm\<rparr>);
        if rsm_maxraftstate rsm' \<noteq> -1 \<and> sz > rsm_maxraftstate rsm'
        then do { b \<leftarrow> sm_Snapshot M (rsm_sm rsm'); Some (rsm', Some (am_CommandIndex msg, b)) }
        else Some (rsm', None) }
      else if am_SnapshotValid msg then do {
        sm \<leftarrow> sm_Restore M (am_Snapshot msg) (rsm_sm rsm);
        Some (rsm\<lparr>rsm_sm := sm\<rparr>, None) }
      else Some (rsm, None))"


section \<open>Calls and answers\<close>

text \<open>
  The state machine at work: calls give their operation to Raft and register under the index they
  got, give up, or are answered when their index is applied. \<open>rs_calls\<close> records the index and
  the operation of each registered call, \<open>rs_given\<close> the operations that were given to Raft, by
  this server or by another one, and \<open>rs_applied\<close> those that were executed, with their results.
  Nothing is said of the order in which Raft delivers commands, or of what they are.
\<close>

record ('s, 'q, 'r) rsmSys =
  rs_rsm :: "('s, 'r) RSM"
  rs_calls :: "nat \<rightharpoonup> int \<times> 'q Op"
  rs_given :: "'q Op list"
  rs_applied :: "(int \<times> 'q Op \<times> 'r) list"

inductive rsm_step :: "('s, 'q, 'r) StateMachine \<Rightarrow> 'q opGob \<Rightarrow> ('s, 'q, 'r) rsmSys \<Rightarrow> ('s, 'q, 'r) rsmSys \<Rightarrow> bool"
  for M G where
  register: "rs_calls x ch = None \<Longrightarrow> Submit_begin G ch h req rf (rs_rsm x) = Some (rf', ops, rsm', Some (logId, t)) \<Longrightarrow>
     op = \<lparr>op_Opcommad = req, op_HashNum = h\<rparr> \<Longrightarrow>
     rsm_step M G x (x\<lparr>rs_rsm := rsm', rs_calls := (rs_calls x)(ch \<mapsto> (logId, op)), rs_given := rs_given x @ [op]\<rparr>)"
| other: "rsm_step M G x (x\<lparr>rs_given := rs_given x @ [op]\<rparr>)"
| give_up: "rs_calls x ch = Some (logId, op) \<Longrightarrow>
     rsm_step M G x (x\<lparr>rs_rsm := Submit_give_up logId (rs_rsm x)\<rparr>)"
| command: "am_CommandValid msg \<Longrightarrow> am_Command msg = Some cmd \<Longrightarrow> decodeOp G cmd = Some op \<Longrightarrow>
     sm_DoOp M (am_CommandIndex msg) (op_Opcommad op) (rsm_sm (rs_rsm x)) = Some (res, sm) \<Longrightarrow>
     readApplyCh M G sz msg (rs_rsm x) = Some (rsm', snap) \<Longrightarrow>
     rsm_step M G x (x\<lparr>rs_rsm := rsm', rs_applied := rs_applied x @ [(am_CommandIndex msg, op, res)]\<rparr>)"
| snapshot: "\<not> am_CommandValid msg \<Longrightarrow> readApplyCh M G sz msg (rs_rsm x) = Some (rsm', snap) \<Longrightarrow>
     rsm_step M G x (x\<lparr>rs_rsm := rsm'\<rparr>)"

inductive rsm_reach :: "('s, 'q, 'r) StateMachine \<Rightarrow> 'q opGob \<Rightarrow> ('s, 'q, 'r) rsmSys \<Rightarrow> bool" for M G where
  init: "rsm_reach M G \<lparr>rs_rsm = MakeRSM n sm, rs_calls = Map.empty, rs_given = earlier, rs_applied = []\<rparr>"
| step: "rsm_reach M G x \<Longrightarrow> rsm_step M G x x' \<Longrightarrow> rsm_reach M G x'"

definition rsm_inv :: "('s, 'r) RSM \<Rightarrow> (nat \<rightharpoonup> int \<times> 'q Op) \<Rightarrow> (int \<times> 'q Op \<times> 'r) list \<Rightarrow> bool" where
  "rsm_inv rsm calls applied \<longleftrightarrow>
     (\<forall>i ch. rsm_chMap rsm i = Some ch \<longrightarrow> rsm_chans rsm ch = Empty \<and>
        (\<exists>own. rsm_hashNumMap rsm i = Some (op_HashNum own) \<and> calls ch = Some (i, own))) \<and>
     (\<forall>ch. calls ch = None \<longrightarrow> rsm_chans rsm ch = Empty) \<and>
     (\<forall>ch res. chan_value (rsm_chans rsm ch) = Some res \<longrightarrow>
        (\<exists>i own op. calls ch = Some (i, own) \<and> (i, op, res) \<in> set applied \<and> op_HashNum op = op_HashNum own))"

lemma rsm_invD:
  assumes "rsm_inv rsm calls applied"
  shows "rsm_chMap rsm i = Some ch \<Longrightarrow> rsm_chans rsm ch = Empty"
    "rsm_chMap rsm i = Some ch \<Longrightarrow> \<exists>own. rsm_hashNumMap rsm i = Some (op_HashNum own) \<and> calls ch = Some (i, own)"
    "calls ch = None \<Longrightarrow> rsm_chans rsm ch = Empty"
    "chan_value (rsm_chans rsm ch) = Some res \<Longrightarrow>
      \<exists>i own op. calls ch = Some (i, own) \<and> (i, op, res) \<in> set applied \<and> op_HashNum op = op_HashNum own"
  using assms unfolding rsm_inv_def by blast+

lemma rsm_invI:
  assumes "\<And>i ch. rsm_chMap rsm i = Some ch \<Longrightarrow> rsm_chans rsm ch = Empty \<and>
      (\<exists>own. rsm_hashNumMap rsm i = Some (op_HashNum own) \<and> calls ch = Some (i, own))"
    "\<And>ch. calls ch = None \<Longrightarrow> rsm_chans rsm ch = Empty"
    "\<And>ch res. chan_value (rsm_chans rsm ch) = Some res \<Longrightarrow>
      \<exists>i own op. calls ch = Some (i, own) \<and> (i, op, res) \<in> set applied \<and> op_HashNum op = op_HashNum own"
  shows "rsm_inv rsm calls applied"
  using assms unfolding rsm_inv_def by blast

lemma rsm_inv_sm: "rsm_inv (rsm\<lparr>rsm_sm := sm\<rparr>) calls applied \<longleftrightarrow> rsm_inv rsm calls applied"
  by (simp add: rsm_inv_def)

text \<open>A channel other than the one of a registered call is not touched when the maps change.\<close>

lemma rsm_inv_maps:
  assumes inv: "rsm_inv rsm calls applied"
    and maps: "\<And>j c. rsm_chMap rsm' j = Some c \<Longrightarrow>
      (c = ch \<and> rsm_chans rsm' ch = Empty \<and> (\<exists>own. rsm_hashNumMap rsm' j = Some (op_HashNum own) \<and> calls' ch = Some (j, own))) \<or>
      (rsm_chMap rsm j = Some c \<and> rsm_chans rsm' c = rsm_chans rsm c \<and> rsm_hashNumMap rsm' j = rsm_hashNumMap rsm j)"
    and calls: "\<And>c. calls' c = calls c \<or> (c = ch \<and> calls ch = None)"
    and chans: "\<And>c. rsm_chans rsm' c = rsm_chans rsm c \<or> (calls c \<noteq> None \<and> rsm_chans rsm' c = Closed) \<or>
      (\<exists>i own op res. calls c = Some (i, own) \<and> op_HashNum op = op_HashNum own \<and> rsm_chans rsm' c = Full res \<and> (i, op, res) \<in> set applied')"
    and applied: "set applied \<subseteq> set applied'"
  shows "rsm_inv rsm' calls' applied'"
proof (rule rsm_invI)
  fix j c assume j: "rsm_chMap rsm' j = Some c"
  show "rsm_chans rsm' c = Empty \<and> (\<exists>own. rsm_hashNumMap rsm' j = Some (op_HashNum own) \<and> calls' c = Some (j, own))"
    using maps [OF j] rsm_invD(1,2) [OF inv, of j c] calls [of c] by auto
next
  fix c assume "calls' c = None"
  then show "rsm_chans rsm' c = Empty" using calls [of c] chans [of c] rsm_invD(3) [OF inv, of c] by auto
next
  fix c res assume f: "chan_value (rsm_chans rsm' c) = Some res"
  from chans [of c] show "\<exists>i own op. calls' c = Some (i, own) \<and> (i, op, res) \<in> set applied' \<and> op_HashNum op = op_HashNum own"
  proof (elim disjE)
    assume "rsm_chans rsm' c = rsm_chans rsm c"
    then obtain i own op where "calls c = Some (i, own)" "(i, op, res) \<in> set applied" "op_HashNum op = op_HashNum own"
      using rsm_invD(4) [OF inv, of c res] f by auto
    then show ?thesis using calls [of c] applied by auto
  qed (use f calls [of c] in auto)
qed

lemma Submit_register_inv:
  assumes inv: "rsm_inv rsm calls applied" and new: "calls ch = None"
  shows "\<exists>rsm'. Submit_register ch (op_HashNum own) (logId, t, True) rsm = Some (rsm', Some logId) \<and>
    rsm_inv rsm' (calls(ch \<mapsto> (logId, own))) applied"
proof -
  have e: "rsm_chans rsm ch = Empty" by (rule rsm_invD(3) [OF inv new])
  show ?thesis
  proof (cases "rsm_chMap rsm logId")
    case None
    have "rsm_inv (rsm\<lparr>rsm_hashNumMap := (rsm_hashNumMap rsm)(logId \<mapsto> op_HashNum own), rsm_chMap := (rsm_chMap rsm)(logId \<mapsto> ch)\<rparr>)
        (calls(ch \<mapsto> (logId, own))) applied"
      by (rule rsm_inv_maps [OF inv, of _ ch]) (use e new in \<open>auto split: if_splits\<close>)
    then show ?thesis using None by (simp add: Submit_register_def Let_def)
  next
    case (Some oldCh)
    have c: "rsm_chans rsm oldCh = Empty" by (rule rsm_invD(1) [OF inv Some])
    obtain h0 where h0: "calls oldCh = Some (logId, h0)" using rsm_invD(2) [OF inv Some] by blast
    have ne: "ch \<noteq> oldCh" using new h0 by auto
    have old: "rsm_chMap rsm j = Some oldCh \<Longrightarrow> j = logId" for j using rsm_invD(2) [OF inv, of j oldCh] h0 by auto
    let ?rsm = "rsm\<lparr>rsm_hashNumMap := (rsm_hashNumMap rsm)(logId \<mapsto> op_HashNum own), rsm_chans := (rsm_chans rsm)(oldCh := Closed),
      rsm_chMap := (rsm_chMap rsm)(logId \<mapsto> ch)\<rparr>"
    have "rsm_inv ?rsm (calls(ch \<mapsto> (logId, own))) applied"
      by (rule rsm_inv_maps [OF inv, of _ ch]) (use e new ne h0 old in \<open>auto split: if_splits\<close>)
    then show ?thesis using Some c by (simp add: Submit_register_def chan_close_def Let_def)
  qed
qed

lemma signal_inv:
  assumes inv: "rsm_inv rsm calls applied"
  shows "\<exists>rsm'. signal i (op_HashNum op) res rsm = Some rsm' \<and> rsm_sm rsm' = rsm_sm rsm \<and> rsm_maxraftstate rsm' = rsm_maxraftstate rsm \<and>
    rsm_inv rsm' calls (applied @ [(i, op, res)])"
proof (cases "rsm_chMap rsm i")
  case None
  have "rsm_inv (rsm\<lparr>rsm_hashNumMap := (rsm_hashNumMap rsm)(i := None), rsm_chMap := (rsm_chMap rsm)(i := None)\<rparr>)
      calls (applied @ [(i, op, res)])"
    by (rule rsm_inv_maps [OF inv]) (auto split: if_splits)
  then show ?thesis using None by (simp add: signal_def)
next
  case (Some ch)
  have c: "rsm_chans rsm ch = Empty" by (rule rsm_invD(1) [OF inv Some])
  obtain own where h: "rsm_hashNumMap rsm i = Some (op_HashNum own)" "calls ch = Some (i, own)" using rsm_invD(2) [OF inv Some] by blast
  have only: "rsm_chMap rsm j = Some ch \<Longrightarrow> j = i" for j using rsm_invD(2) [OF inv, of j ch] h(2) by auto
  let ?rsm = "\<lambda>c. rsm\<lparr>rsm_chans := (rsm_chans rsm)(ch := c), rsm_hashNumMap := (rsm_hashNumMap rsm)(i := None),
    rsm_chMap := (rsm_chMap rsm)(i := None)\<rparr>"
  have "rsm_inv (?rsm Closed) calls (applied @ [(i, op, res)])"
    by (rule rsm_inv_maps [OF inv]) (use h only in \<open>auto split: if_splits\<close>)
  moreover have "rsm_inv (?rsm (Full res)) calls (applied @ [(i, op, res)])" if "op_HashNum own = op_HashNum op"
    by (rule rsm_inv_maps [OF inv]) (use h only that in \<open>auto split: if_splits\<close>)
  ultimately show ?thesis using Some c h by (auto simp: signal_def chan_send_def chan_close_def)
qed


lemma give_up_inv: "rsm_inv rsm calls applied \<Longrightarrow> rsm_inv (Submit_give_up logId rsm) calls applied"
  by (rule rsm_inv_maps) (auto simp: Submit_give_up_def split: if_splits)

text \<open>\<open>Submit\<close> registers the number of the operation that it gives to Raft.\<close>

lemma Submit_begin_registers:
  assumes "Submit_begin G ch h req rf rsm = Some (rf', ops, rsm', Some (logId, t))"
  shows "\<exists>t'. Submit_register ch h (logId, t', True) rsm = Some (rsm', Some logId)"
  using assms by (auto simp: Submit_begin_def Submit_register_def Let_def split: prod.splits if_splits option.splits)

lemma rsm_reach_given:
  "rsm_reach M G x \<Longrightarrow> rs_calls x ch = Some (i, op) \<Longrightarrow> op \<in> set (rs_given x)"
proof (induction arbitrary: ch i op rule: rsm_reach.induct)
  case (step x x')
  from step.hyps(2) step.prems show ?case by cases (auto dest: step.IH split: if_splits)
qed simp

lemma rsm_reach_inv: "rsm_reach M G x \<Longrightarrow> rsm_inv (rs_rsm x) (rs_calls x) (rs_applied x)"
proof (induction rule: rsm_reach.induct)
  case (init n sm earlier)
  then show ?case by (simp add: rsm_inv_def MakeRSM_def)
next
  case (step x x')
  from step.hyps(2) show ?case
  proof cases
    case (register ch h req rf rf' ops rsm' logId t op)
    obtain t' where t': "Submit_register ch (op_HashNum op) (logId, t', True) (rs_rsm x) = Some (rsm', Some logId)"
      using Submit_begin_registers [OF register(3)] register(4) by auto
    show ?thesis using Submit_register_inv [OF step.IH register(2), of op logId t'] t' register(1) by (simp add: fun_upd_def)
  next
    case (other op)
    then show ?thesis using step.IH by simp
  next
    case (give_up ch logId op)
    then show ?thesis using give_up_inv [OF step.IH] by simp
  next
    case (command msg cmd op res sm sz rsm' snap)
    have "rsm_inv (rs_rsm x\<lparr>rsm_sm := sm\<rparr>) (rs_calls x) (rs_applied x)" using step.IH by (simp add: rsm_inv_sm)
    from signal_inv [OF this, of "am_CommandIndex msg" op res] obtain r where
      r: "signal (am_CommandIndex msg) (op_HashNum op) res (rs_rsm x\<lparr>rsm_sm := sm\<rparr>) = Some r"
        "rsm_inv r (rs_calls x) (rs_applied x @ [(am_CommandIndex msg, op, res)])" by blast
    have "rsm' = r" using command r(1) by (auto simp: readApplyCh_def split: if_splits)
    then show ?thesis using r(2) command(1) by simp
  next
    case (snapshot msg sz rsm' snap)
    then have "\<exists>sm. rsm' = rs_rsm x\<lparr>rsm_sm := sm\<rparr> \<or> rsm' = rs_rsm x"
      by (auto simp: readApplyCh_def split: if_splits)
    then show ?thesis using step.IH snapshot(1) by (auto simp: rsm_inv_sm)
  qed
qed

text \<open>
  C19. A call gets its own answer: when \<open>Submit\<close> returns \<open>OK\<close> with a result, the
  operation that this very call gave to Raft was executed, at the index the call got, and the result
  is the one of that execution. No answer of another operation that took over the index is ever
  mistaken for it. This is under two conditions: Raft delivers only operations that were given to it,
  and the random numbers of the operations given to it differ.
\<close>

theorem rsm_answers_own_call:
  assumes "rsm_reach M G x" "\<And>i op r. (i, op, r) \<in> set (rs_applied x) \<Longrightarrow> op \<in> set (rs_given x)"
    "distinct (map op_HashNum (rs_given x))" "Submit_receive ch (rs_rsm x) = Some (OK, Some res)"
  shows "\<exists>i op. rs_calls x ch = Some (i, op) \<and> (i, op, res) \<in> set (rs_applied x)"
proof -
  have "chan_value (rsm_chans (rs_rsm x) ch) = Some res" using assms(4) by (auto simp: Submit_receive_def split: chan.splits)
  from rsm_invD(4) [OF rsm_reach_inv [OF assms(1)] this] obtain i own op where
    c: "rs_calls x ch = Some (i, own)" "(i, op, res) \<in> set (rs_applied x)" "op_HashNum op = op_HashNum own" by blast
  have "op = own" using c(3) assms(2) [OF c(2)] rsm_reach_given [OF assms(1) c(1)] assms(3)
    by (auto simp: distinct_map dest: inj_onD)
  then show ?thesis using c by blast
qed

text \<open>
  C38. The channels are used safely: in every state a new call can register without closing a
  channel twice, and the answer to an applied operation never goes to a closed channel, which would
  panic, or to a full one, which would block the reader for ever.
\<close>

theorem rsm_channels_safe:
  fixes M :: "('s, 'q, 'r) StateMachine" and op :: "'q Op"
  assumes "rsm_reach M G x" "rs_calls x ch = None"
  shows "Submit_register ch h (logId, t, True) (rs_rsm x) \<noteq> None \<and> signal i (op_HashNum op) res (rs_rsm x) \<noteq> None"
  using Submit_register_inv [OF rsm_reach_inv [OF assms(1)] assms(2), of "op\<lparr>op_HashNum := h\<rparr>" logId t]
    signal_inv [OF rsm_reach_inv [OF assms(1)], of i op res] by auto

text \<open>A state machine that counts, for the examples.\<close>

definition counter :: "(nat, unit, nat) StateMachine" where
  "counter = \<lparr>sm_DoOp = (\<lambda>i q s. Some (s + 1, s + 1)), sm_Snapshot = (\<lambda>s. Some [1]), sm_Restore = (\<lambda>b s. Some s)\<rparr>"

definition counterGob :: "unit opGob" where
  "counterGob = \<lparr>og_enc = (\<lambda>op. Some (of_nat (unat (op_HashNum op)) # [])),
     og_dec = (\<lambda>b. Some \<lparr>op_Opcommad = (), op_HashNum = of_nat (unat (hd b))\<rparr>)\<rparr>"

definition counter_leader :: "bytes Raft" where
  "counter_leader = (MakeWithWAL ''a'' [''a''] (\<lparr>ps_Term = 0, ps_Vote = [], ps_Logs = [], ps_SnapshotIndex = 0,
     ps_Snapshot = None\<rparr>, False))\<lparr>rf_term := 1, rf_customerId := Leader, rf_leaderId := ''a''\<rparr>"

definition counter_op :: "unit Op" where
  "counter_op = \<lparr>op_Opcommad = (), op_HashNum = 9\<rparr>"

definition counter_called :: "(nat, unit, nat) rsmSys" where
  "counter_called = \<lparr>rs_rsm = \<lparr>rsm_maxraftstate = -1, rsm_sm = 0, rsm_chMap = [1 \<mapsto> 0], rsm_hashNumMap = [1 \<mapsto> 9],
     rsm_chans = (\<lambda>_. Empty)\<rparr>, rs_calls = [0 \<mapsto> (1, counter_op)], rs_given = [counter_op], rs_applied = []\<rparr>"

lemma counter_called_reach: "rsm_reach counter counterGob counter_called"
proof -
  let ?x = "\<lparr>rs_rsm = MakeRSM (-1) 0, rs_calls = Map.empty, rs_given = [], rs_applied = []\<rparr> :: (nat, unit, nat) rsmSys"
  have "rsm_reach counter counterGob ?x" by (rule rsm_reach.init)
  moreover have "\<exists>rf' ops. Submit_begin counterGob 0 9 () counter_leader (rs_rsm ?x) = Some (rf', ops, rs_rsm counter_called, Some (1, 1))"
    by (simp add: Submit_begin_def GetState_def counter_leader_def MakeWithWAL_def encodeOp_def counterGob_def Start_def
      lastLogIndex_def Submit_register_def MakeRSM_def counter_called_def Let_def)
  then obtain rf' ops where "Submit_begin counterGob 0 9 () counter_leader (rs_rsm ?x) = Some (rf', ops, rs_rsm counter_called, Some (1, 1))"
    by blast
  ultimately show ?thesis using rsm_reach.step [OF _ register [of ?x 0 counterGob 9 "()" counter_leader rf' ops _ 1 1 counter_op]]
    by (simp add: counter_called_def counter_op_def)
qed

lemma counter_answered:
  "\<exists>x. rsm_reach counter counterGob x \<and> Submit_receive 0 (rs_rsm x) = Some (OK, Some 1) \<and> rs_calls x 0 = Some (1, counter_op) \<and>
     rs_applied x = [(1, counter_op, 1)] \<and> rs_given x = [counter_op]"
proof -
  let ?msg = "\<lparr>am_CommandValid = True, am_Command = Some [9 :: byte], am_CommandIndex = 1, am_SnapshotValid = False, am_Snapshot = None,
    am_SnapshotTerm = 0, am_SnapshotIndex = 0\<rparr>"
  let ?rsm = "\<lparr>rsm_maxraftstate = -1, rsm_sm = 1, rsm_chMap = Map.empty, rsm_hashNumMap = Map.empty, rsm_chans = (\<lambda>_. Empty)(0 := Full 1)\<rparr>"
  have "readApplyCh counter counterGob 0 ?msg (rs_rsm counter_called) = Some (?rsm, None)"
    by (simp add: readApplyCh_def counter_def counterGob_def decodeOp_def signal_def chan_send_def counter_called_def)
  then have x: "rsm_reach counter counterGob (counter_called\<lparr>rs_rsm := ?rsm,
      rs_applied := rs_applied counter_called @ [(am_CommandIndex ?msg, counter_op, 1)]\<rparr>)"
    by (intro rsm_reach.step [OF counter_called_reach command [of ?msg "[9]" counterGob counter_op counter _ 1 1]])
      (simp_all add: decodeOp_def counterGob_def counter_def counter_called_def counter_op_def)
  show ?thesis by (rule exI, rule conjI [OF x]) (simp add: Submit_receive_def counter_called_def)
qed

theorem rsm_answers_own_call_witness:
  "\<exists>x op. rsm_reach counter counterGob x \<and> Submit_receive 0 (rs_rsm x) = Some (OK, Some 1) \<and>
     rs_calls x 0 = Some (1, op) \<and> (1, op, 1) \<in> set (rs_applied x)"
proof -
  obtain x where x: "rsm_reach counter counterGob x" "Submit_receive 0 (rs_rsm x) = Some (OK, Some 1)"
    "rs_calls x 0 = Some (1, counter_op)" "rs_applied x = [(1, counter_op, 1)]" "rs_given x = [counter_op]"
    using counter_answered by blast
  have "\<exists>i op. rs_calls x 0 = Some (i, op) \<and> (i, op, 1) \<in> set (rs_applied x)"
    by (rule rsm_answers_own_call [OF x(1)]) (use x in auto)
  then show ?thesis using x by auto
qed

theorem rsm_channels_safe_witness:
  "rsm_reach counter counterGob counter_called \<and> rs_calls counter_called 1 = None \<and>
     Submit_register 1 5 (1, 2, True) (rs_rsm counter_called) \<noteq> None \<and>
     signal 1 (op_HashNum \<lparr>op_Opcommad = (), op_HashNum = 7\<rparr>) 3 (rs_rsm counter_called) \<noteq> None"
proof -
  have "rs_calls counter_called 1 = None" by (simp add: counter_called_def)
  from rsm_channels_safe [OF counter_called_reach this] counter_called_reach this show ?thesis by blast
qed

end
