(* ===== verification/KvStore.thy ===== *)
theory KvStore
  imports KvSrv
begin

text \<open>
  The key/value state machine of \<open>kvraft1/server.go\<close> on a store, the contract of a store, and
  the in-memory store of \<open>kvraft1/kvstore.go\<close>. The gob encoding of a map is a parameter with the
  hypothesis \<open>mapGob_ok\<close>.
\<close>

datatype kvReq = ReqGet GetArgs | ReqPut PutArgs | ReqOther
datatype kvRes = ResGet GetReply | ResPut PutReply | ResNil

record 's KVStore =
  kv_Get :: "string \<Rightarrow> 's \<Rightarrow> (string \<times> Tversion \<times> bool) option"
  kv_Put :: "int \<Rightarrow> string \<Rightarrow> string \<Rightarrow> Tversion \<Rightarrow> 's \<Rightarrow> 's option"
  kv_AppliedIndex :: "'s \<Rightarrow> int option"
  kv_Snapshot :: "'s \<Rightarrow> bytes option"
  kv_Restore :: "slice \<Rightarrow> 's \<Rightarrow> 's option"

definition doGet :: "'s KVStore \<Rightarrow> GetArgs \<Rightarrow> 's \<Rightarrow> GetReply option" where
  "doGet S args s =
     do { (value, version, ok) \<leftarrow> kv_Get S (ga_Key args) s;
          if ok then Some \<lparr>gr_Value = value, gr_Version = version, gr_Err = OK\<rparr>
          else Some \<lparr>gr_Value = '''', gr_Version = 0, gr_Err = ErrNoKey\<rparr> }"

definition doPut :: "'s KVStore \<Rightarrow> int \<Rightarrow> PutArgs \<Rightarrow> 's \<Rightarrow> (PutReply \<times> 's) option" where
  "doPut S index args s =
     do { (value, version, ok) \<leftarrow> kv_Get S (pa_Key args) s;
          if ok then
            if pa_Version args = version
            then do { s' \<leftarrow> kv_Put S index (pa_Key args) (pa_Value args) (version + 1) s; Some (\<lparr>pr_Err = OK\<rparr>, s') }
            else Some (\<lparr>pr_Err = ErrVersion\<rparr>, s)
          else if pa_Version args = 0
          then do { s' \<leftarrow> kv_Put S index (pa_Key args) (pa_Value args) 1 s; Some (\<lparr>pr_Err = OK\<rparr>, s') }
          else Some (\<lparr>pr_Err = ErrNoKey\<rparr>, s) }"

definition DoOp :: "'s KVStore \<Rightarrow> int \<Rightarrow> kvReq \<Rightarrow> 's \<Rightarrow> (kvRes \<times> 's) option" where
  "DoOp S index req s =
     do { a \<leftarrow> kv_AppliedIndex S s;
          if index \<le> a then Some (ResNil, s)
          else case req of
              ReqGet args \<Rightarrow> do { r \<leftarrow> doGet S args s; Some (ResGet r, s) }
            | ReqPut args \<Rightarrow> do { (r, s') \<leftarrow> doPut S index args s; Some (ResPut r, s') }
            | ReqOther \<Rightarrow> Some (ResNil, s) }"

text \<open>
  The RPC handlers, from the result of \<open>Submit\<close> on: a result of another type than the
  assertion names is a panic.
\<close>

definition KVServer_Get_reply :: "Err \<times> kvRes option \<Rightarrow> GetReply \<Rightarrow> GetReply option" where
  "KVServer_Get_reply result reply =
     (let (err, res) = result in
      if err \<noteq> OK then Some (reply\<lparr>gr_Err := err\<rparr>)
      else case res of Some (ResGet r) \<Rightarrow> Some (reply\<lparr>gr_Value := gr_Value r, gr_Version := gr_Version r, gr_Err := gr_Err r\<rparr>)
        | _ \<Rightarrow> None)"

definition KVServer_Put_reply :: "Err \<times> kvRes option \<Rightarrow> PutReply \<Rightarrow> PutReply option" where
  "KVServer_Put_reply result reply =
     (let (err, res) = result in
      if err \<noteq> OK then Some (reply\<lparr>pr_Err := err\<rparr>)
      else case res of Some (ResPut r) \<Rightarrow> Some (reply\<lparr>pr_Err := pr_Err r\<rparr>) | _ \<Rightarrow> None)"

section \<open>What a store promises\<close>

text \<open>
  A store holds a map and, if it is durable, the index of the last put that changed it;
  \<open>mark\<close> is what a put makes of that index.
\<close>

text \<open>
  The specification: the map and the mark after an operation, with its answer, and after a list of
  operations from an index on.
\<close>

definition kvOp :: "(int \<Rightarrow> int) \<Rightarrow> int \<Rightarrow> kvReq \<Rightarrow> kvMap \<times> int \<Rightarrow> kvRes \<times> kvMap \<times> int" where
  "kvOp mark i q x =
     (if i \<le> snd x then (ResNil, x)
      else case q of
          ReqGet a \<Rightarrow> (ResGet (KVServer_Get a \<lparr>kvMap = fst x\<rparr>), x)
        | ReqPut a \<Rightarrow> (let (kv', r) = KVServer_Put a \<lparr>kvMap = fst x\<rparr> in
            (ResPut r, kvMap kv', if pr_Err r = OK then mark i else snd x))
        | ReqOther \<Rightarrow> (ResNil, x))"

fun kvRun :: "(int \<Rightarrow> int) \<Rightarrow> int \<Rightarrow> kvReq list \<Rightarrow> kvMap \<times> int \<Rightarrow> kvMap \<times> int" where
  "kvRun mark i [] x = x"
| "kvRun mark i (q # qs) x = kvRun mark (i + 1) qs (snd (kvOp mark i q x))"

text \<open>The single server as a specification: its answer to a request, and its state after a list of them.\<close>

definition kvAnswer :: "kvReq \<Rightarrow> kvMap \<Rightarrow> kvRes \<times> kvMap" where
  "kvAnswer q m = (case q of
       ReqGet a \<Rightarrow> (ResGet (KVServer_Get a \<lparr>kvMap = m\<rparr>), m)
     | ReqPut a \<Rightarrow> (let (kv', r) = KVServer_Put a \<lparr>kvMap = m\<rparr> in (ResPut r, kvMap kv'))
     | ReqOther \<Rightarrow> (ResNil, m))"

fun kvAfter :: "kvReq list \<Rightarrow> kvMap \<Rightarrow> kvMap" where
  "kvAfter [] m = m"
| "kvAfter (q # qs) m = kvAfter qs (snd (kvAnswer q m))"

fun applyAll :: "'s KVStore \<Rightarrow> int \<Rightarrow> kvReq list \<Rightarrow> 's \<Rightarrow> 's option" where
  "applyAll S i [] s = Some s"
| "applyAll S i (q # qs) s = do { (_, s') \<leftarrow> DoOp S i q s; applyAll S (i + 1) qs s' }"

lemma Put_failed: "KVServer_Put a kv = (kv', r) \<Longrightarrow> pr_Err r \<noteq> OK \<Longrightarrow> kv' = kv"
  by (auto simp: KVServer_Put_def split: option.splits if_splits)

lemma kvRun_append: "kvRun mark i (qs @ qs') x = kvRun mark (i + int (length qs)) qs' (kvRun mark i qs x)"
  by (induction qs arbitrary: i x) (auto simp: algebra_simps)

lemma kvOp_unchanged: "snd (kvOp mark i q x) = x \<or> snd (snd (kvOp mark i q x)) = mark i"
  by (cases x) (auto simp: kvOp_def split: kvReq.splits prod.splits dest!: Put_failed)

lemma kvRun_unchanged:
  "(\<And>k. k < length qs \<Longrightarrow> snd (kvOp mark (i + int k) (qs ! k) x) = x) \<Longrightarrow> kvRun mark i qs x = x"
proof (induction qs arbitrary: i)
  case (Cons q qs)
  have "snd (kvOp mark i q x) = x" using Cons.prems [of 0] by simp
  moreover have "kvRun mark (i + 1) qs x = x"
    by (rule Cons.IH) (use Cons.prems [of "Suc _"] in \<open>simp add: algebra_simps\<close>)
  ultimately show ?case by simp
qed simp

text \<open>
  A mark below the first index skips nothing on the first run; the map is that of a store without a
  mark.
\<close>

lemma kvRun_first:
  assumes "snd x < i" "0 < i"
  shows "fst (kvRun (\<lambda>j. j) i qs x) = fst (kvRun (\<lambda>_. -1) i qs (fst x, -1)) \<and>
    snd (kvRun (\<lambda>j. j) i qs x) < i + int (length qs)"
  using assms
proof (induction qs arbitrary: i x)
  case (Cons q qs)
  let ?x = "snd (kvOp (\<lambda>j. j) i q x)"
  have "snd ?x < i + 1" using Cons.prems by (auto simp: kvOp_def split: kvReq.splits prod.splits)
  moreover have "snd (kvOp (\<lambda>_. -1) i q (fst x, -1)) = (fst ?x, -1)"
    using Cons.prems by (cases x) (auto simp: kvOp_def split: kvReq.splits prod.splits)
  ultimately show ?case using Cons.IH [of ?x "i + 1"] Cons.prems by auto
qed simp

text \<open>
  Operations that a durable store has executed change nothing when they are executed again: those
  up to its mark are skipped, and those behind it have been rejected and are rejected again.
\<close>

lemma kvRun_stable:
  "snd x < i \<Longrightarrow> k < length qs \<Longrightarrow>
     snd (kvOp (\<lambda>j. j) (i + int k) (qs ! k) (kvRun (\<lambda>j. j) i qs x)) = kvRun (\<lambda>j. j) i qs x"
proof (induction qs arbitrary: k rule: rev_induct)
  case (snoc q qs)
  let ?y = "kvRun (\<lambda>j. j) i qs x" and ?i = "i + int (length qs)"
  have run: "kvRun (\<lambda>j. j) i (qs @ [q]) x = snd (kvOp (\<lambda>j. j) ?i q ?y)" by (simp add: kvRun_append)
  from kvOp_unchanged [of "\<lambda>j. j" ?i q ?y] show ?case
  proof
    assume "snd (kvOp (\<lambda>j. j) ?i q ?y) = ?y"
    then show ?thesis unfolding run using snoc by (cases "k < length qs") (auto simp: nth_append less_Suc_eq)
  next
    assume "snd (snd (kvOp (\<lambda>j. j) ?i q ?y)) = ?i"
    then show ?thesis unfolding run using snoc.prems(2) by (simp add: kvOp_def [of _ "i + int k"])
  qed
qed simp

lemma kvRun_replay:
  assumes "snd x < i" "j \<le> length qs"
  shows "kvRun (\<lambda>j. j) (i + int j) (drop j qs) (kvRun (\<lambda>j. j) i qs x) = kvRun (\<lambda>j. j) i qs x"
proof (rule kvRun_unchanged)
  fix k assume "k < length (drop j qs)"
  then show "snd (kvOp (\<lambda>j. j) (i + int j + int k) (drop j qs ! k) (kvRun (\<lambda>j. j) i qs x)) = kvRun (\<lambda>j. j) i qs x"
    using kvRun_stable [OF assms(1), of "j + k" qs] assms(2) by (simp add: algebra_simps)
qed

text \<open>Without a mark, the index does not matter.\<close>

lemma kvRun_no_mark: "0 \<le> i \<Longrightarrow> kvRun (\<lambda>_. -1) i qs (m, -1) = (fst (kvRun (\<lambda>_. -1) i qs (m, -1)), -1)"
proof (induction qs arbitrary: i m)
  case (Cons q qs)
  have "snd (kvOp (\<lambda>_. -1) i q (m, -1)) = (fst (snd (kvOp (\<lambda>_. -1) i q (m, -1))), -1)"
    by (auto simp: kvOp_def split: kvReq.splits prod.splits)
  then show ?case using Cons.IH [of "i + 1" "fst (snd (kvOp (\<lambda>_. -1) i q (m, -1)))"] Cons.prems by simp
qed simp

lemma kvRun_index: "0 \<le> i \<Longrightarrow> 0 \<le> i' \<Longrightarrow> kvRun (\<lambda>_. -1) i qs (m, -1) = kvRun (\<lambda>_. -1) i' qs (m, -1)"
proof (induction qs arbitrary: i i' m)
  case (Cons q qs)
  have "snd (kvOp (\<lambda>_. -1) i q (m, -1)) = (fst (snd (kvOp (\<lambda>_. -1) i' q (m, -1))), -1)"
    using Cons.prems by (auto simp: kvOp_def split: kvReq.splits prod.splits)
  moreover have "snd (kvOp (\<lambda>_. -1) i' q (m, -1)) = (fst (snd (kvOp (\<lambda>_. -1) i' q (m, -1))), -1)"
    by (auto simp: kvOp_def split: kvReq.splits prod.splits)
  ultimately show ?case
    using Cons.IH [of "i + 1" "i' + 1" "fst (snd (kvOp (\<lambda>_. -1) i' q (m, -1)))"] Cons.prems by (metis add_increasing2 kvRun.simps(2) zero_le_one)
qed simp

locale kv_store =
  fixes S :: "'s KVStore" and inv :: "'s \<Rightarrow> bool" and kv :: "'s \<Rightarrow> kvMap" and applied :: "'s \<Rightarrow> int"
    and mark :: "int \<Rightarrow> int" and index_ok :: "int \<Rightarrow> bool"
  assumes get: "inv s \<Longrightarrow> kv_Get S k s = Some (case kv s k of None \<Rightarrow> ('''', 0, False)
      | Some e \<Rightarrow> (ke_value e, ke_version e, True))"
    and put: "inv s \<Longrightarrow> index_ok i \<Longrightarrow> \<exists>s'. kv_Put S i k v n s = Some s' \<and> inv s' \<and>
      kv s' = (kv s)(k \<mapsto> \<lparr>ke_value = v, ke_version = n\<rparr>) \<and> applied s' = mark i"
    and applied: "inv s \<Longrightarrow> kv_AppliedIndex S s = Some (applied s)"
    and snapshot: "inv s \<Longrightarrow> inv s0 \<Longrightarrow> \<exists>b s'. kv_Snapshot S s = Some b \<and> b \<noteq> [] \<and>
      kv_Restore S (Some b) s0 = Some s' \<and> inv s' \<and> kv s' = kv s \<and> applied s' = applied s"
begin

lemma doGet_kv: "inv s \<Longrightarrow> doGet S a s = Some (KVServer_Get a \<lparr>kvMap = kv s\<rparr>)"
  by (auto simp: doGet_def get KVServer_Get_def split: option.splits)

text \<open>A put through the log acts like a put on the single server.\<close>

lemma doPut_kv:
  assumes "inv s" "index_ok i" "KVServer_Put a \<lparr>kvMap = kv s\<rparr> = (kv', r)"
  shows "\<exists>s'. doPut S i a s = Some (r, s') \<and> inv s' \<and> kvMap kv' = kv s' \<and>
    (if pr_Err r = OK then applied s' = mark i else s' = s)"
proof (cases "kv s (pa_Key a)")
  case None
  then show ?thesis using assms put [OF assms(1,2), of "pa_Key a" "pa_Value a" 1]
    by (auto simp: doPut_def get [OF assms(1)] KVServer_Put_def split: if_splits)
next
  case (Some e)
  then show ?thesis using assms put [OF assms(1,2), of "pa_Key a" "pa_Value a" "ke_version e + 1"]
    by (auto simp: doPut_def get [OF assms(1)] KVServer_Put_def split: if_splits)
qed

text \<open>Every operation returns, with the answer and the effect of the specification.\<close>

lemma DoOp_kv:
  assumes "inv s" "index_ok i"
  shows "\<exists>s'. DoOp S i q s = Some (fst (kvOp mark i q (kv s, applied s)), s') \<and> inv s' \<and>
    (kv s', applied s') = snd (kvOp mark i q (kv s, applied s))"
proof (cases "i \<le> applied s")
  case True
  then show ?thesis using assms by (simp add: DoOp_def applied kvOp_def)
next
  case False
  show ?thesis
  proof (cases q)
    case (ReqGet a)
    then show ?thesis using False assms(1) by (simp add: DoOp_def applied doGet_kv kvOp_def)
  next
    case (ReqPut a)
    obtain kv' r where r: "KVServer_Put a \<lparr>kvMap = kv s\<rparr> = (kv', r)" by fastforce
    show ?thesis using doPut_kv [OF assms r] Put_failed [OF r] ReqPut False assms(1) r
      by (auto simp: DoOp_def applied kvOp_def split: if_splits)
  qed (use False assms(1) in \<open>simp add: DoOp_def applied kvOp_def\<close>)
qed

lemma applyAll_kv:
  assumes "inv s" "\<And>j. i \<le> j \<Longrightarrow> j < i + int (length qs) \<Longrightarrow> index_ok j"
  shows "\<exists>s'. applyAll S i qs s = Some s' \<and> inv s' \<and> (kv s', applied s') = kvRun mark i qs (kv s, applied s)"
  using assms
proof (induction qs arbitrary: i s)
  case (Cons q qs)
  have "index_ok i" by (rule Cons.prems(2)) auto
  from DoOp_kv [OF Cons.prems(1) this, of q] obtain r s1 where s1: "DoOp S i q s = Some (r, s1)" "inv s1"
    "(kv s1, applied s1) = snd (kvOp mark i q (kv s, applied s))" by blast
  have "\<exists>s'. applyAll S (i + 1) qs s1 = Some s' \<and> inv s' \<and>
      (kv s', applied s') = kvRun mark (i + 1) qs (kv s1, applied s1)"
    by (rule Cons.IH [OF s1(2)], rule Cons.prems(2)) auto
  then show ?case using s1 by auto
qed simp

end

section \<open>The map\<close>

record mapGob =
  mg_enc :: "kvMap \<Rightarrow> bytes option"
  mg_dec :: "bytes \<Rightarrow> kvMap option"

definition mapGob_ok :: "mapGob \<Rightarrow> bool" where
  "mapGob_ok g \<longleftrightarrow> (\<forall>m. finite (dom m) \<longrightarrow> (\<exists>b. mg_enc g m = Some b \<and> b \<noteq> [] \<and> mg_dec g b = Some m))"

definition newMapStore :: kvMap where
  "newMapStore = Map.empty"

definition mapStore_Get :: "string \<Rightarrow> kvMap \<Rightarrow> string \<times> Tversion \<times> bool" where
  "mapStore_Get key m = (case m key of None \<Rightarrow> ('''', 0, False) | Some e \<Rightarrow> (ke_value e, ke_version e, True))"

definition mapStore_Put :: "int \<Rightarrow> string \<Rightarrow> string \<Rightarrow> Tversion \<Rightarrow> kvMap \<Rightarrow> kvMap" where
  "mapStore_Put i key value version m = m(key \<mapsto> \<lparr>ke_value = value, ke_version = version\<rparr>)"

definition mapStore_AppliedIndex :: "kvMap \<Rightarrow> int" where
  "mapStore_AppliedIndex m = -1"

definition mapStore_Snapshot :: "mapGob \<Rightarrow> kvMap \<Rightarrow> bytes option" where
  "mapStore_Snapshot g m = mg_enc g m"

definition mapStore_Restore :: "mapGob \<Rightarrow> slice \<Rightarrow> kvMap \<Rightarrow> kvMap option" where
  "mapStore_Restore g data m = mg_dec g (case data of None \<Rightarrow> [] | Some b \<Rightarrow> b)"

definition mapStore :: "mapGob \<Rightarrow> kvMap KVStore" where
  "mapStore g = \<lparr>kv_Get = (\<lambda>k s. Some (mapStore_Get k s)), kv_Put = (\<lambda>i k v n s. Some (mapStore_Put i k v n s)),
     kv_AppliedIndex = (\<lambda>s. Some (mapStore_AppliedIndex s)), kv_Snapshot = mapStore_Snapshot g,
     kv_Restore = mapStore_Restore g\<rparr>"

interpretation ms: kv_store "mapStore g" "\<lambda>m. finite (dom m) \<and> mapGob_ok g" "\<lambda>m. m" "\<lambda>_. -1" "\<lambda>_. -1" "\<lambda>_. True" for g
  by unfold_locales (auto simp: mapStore_def mapStore_Get_def mapStore_Put_def mapStore_AppliedIndex_def
    mapStore_Snapshot_def mapStore_Restore_def mapGob_ok_def)

end
