(* ===== verification/Demo.thy ===== *)
theory Demo
  imports Prelude KvStore "HOL-Library.Countable" "HOL-Library.Char_ord" "HOL-Library.List_Lexorder"
begin

text \<open>
  Encodings that satisfy the hypotheses about gob: a value of a countable type is a number, and the
  number a run of bytes. They instantiate the parameters in the witnesses.
\<close>

definition packed :: "'a::countable \<Rightarrow> bytes" where
  "packed x = replicate (Suc (to_nat x)) 0"

definition unpacked :: "bytes \<Rightarrow> 'a::countable" where
  "unpacked b = from_nat (length b - 1)"

lemma unpacked_packed [simp]: "unpacked (packed x) = x"
  by (simp add: unpacked_def packed_def)

lemma packed_nonempty [simp]: "packed x \<noteq> []"
  by (simp add: packed_def)

definition mapEntries :: "kvMap \<Rightarrow> (string \<times> string \<times> Tversion) list" where
  "mapEntries m = map (\<lambda>k. (k, ke_value (the (m k)), ke_version (the (m k)))) (sorted_list_of_set (dom m))"

definition demo_mapGob :: mapGob where
  "demo_mapGob = \<lparr>mg_enc = (\<lambda>m. Some (packed (mapEntries m))),
     mg_dec = (\<lambda>b. Some (map_of (map (\<lambda>(k, v, n). (k, \<lparr>ke_value = v, ke_version = n\<rparr>)) (unpacked b))))\<rparr>"

lemma kvEntry_eta [simp]: "\<lparr>ke_value = ke_value e, ke_version = ke_version e\<rparr> = e"
  by (cases e) simp

lemma map_of_mapEntries:
  assumes "finite (dom m)"
  shows "map_of (map (\<lambda>(k, v, n). (k, \<lparr>ke_value = v, ke_version = n\<rparr>)) (mapEntries m)) = m"
proof -
  have "map_of (map (\<lambda>(k, v, n). (k, \<lparr>ke_value = v, ke_version = n\<rparr>)) (mapEntries m)) =
      map_of (map (\<lambda>k. (k, the (m k))) (sorted_list_of_set (dom m)))"
    by (simp add: mapEntries_def comp_def)
  also have "\<dots> = m" using assms by (auto simp: map_of_map_keys)
  finally show ?thesis .
qed

lemma demo_mapGob_ok: "mapGob_ok demo_mapGob"
  by (simp add: mapGob_ok_def demo_mapGob_def map_of_mapEntries)

end
