(* ===== verification/Smr.thy ===== *)
theory Smr
  imports RaftApply Rsm Demo
begin

text \<open>
  State machine replication: a group of Raft nodes, each with the replicated state machine of
  \<open>kvraft1/rsm/rsm.go\<close> on top. Calls of \<open>Submit\<close> put operations into the log; the reader of a
  node takes the messages of the apply channel one by one, executes them and gives Raft a snapshot
  when its state is over the limit; a node that starts again restores the snapshot that Raft has
  persisted. \<open>StartServerShardGrp\<close> does so before it starts the reader, \<open>StartKVServer\<close>
  starts the reader first and restores afterwards, so that messages may be read in between.
\<close>

section \<open>The group\<close>

datatype startOrder = RestoreFirst | ReaderFirst

record ('s, 'q, 'r) smr =
  sg_cl :: "bytes cluster"
  sg_rsm :: "NodeID \<Rightarrow> ('s, 'r) RSM"
  sg_ch :: "NodeID \<Rightarrow> bytes ApplyMsg list"
  sg_snap :: "NodeID \<Rightarrow> (int \<times> bytes) option"
  sg_idx :: "NodeID \<Rightarrow> int"
  sg_late :: "NodeID \<Rightarrow> bool"
  sg_done :: "NodeID \<Rightarrow> (int \<times> 'q Op \<times> 'r) list"
  sg_raced :: bool

text \<open>
  \<open>sg_ch\<close> has the messages that Raft has produced and the reader has not taken, \<open>sg_snap\<close>
  the snapshot a reader is about to give to Raft, \<open>sg_idx\<close> the index of the last message the
  reader took. A node is late while its reader runs and its start function has not yet looked for a
  snapshot to restore. The last two fields record what has happened: the operations a reader executed
  with their results, and whether the reader of a late node ever took a message, or the snapshot that
  was restored late was no longer the one the node had started on.
\<close>

text \<open>The restore of a persisted snapshot, if there is one, by a service in state \<open>init0\<close>.\<close>

definition startState :: "('s, 'q, 'r) StateMachine \<Rightarrow> 's \<Rightarrow> slice \<Rightarrow> 's option" where
  "startState M init0 sn = (case sn of None \<Rightarrow> Some init0 | Some b \<Rightarrow> if b = [] then Some init0 else sm_Restore M sn init0)"

text \<open>The start of a service on a persisted snapshot: the state machine, and whether the snapshot is still to be restored.\<close>

definition startRSM :: "startOrder \<Rightarrow> ('s, 'q, 'r) StateMachine \<Rightarrow> 's \<Rightarrow> int \<Rightarrow> slice \<Rightarrow> (('s, 'r) RSM \<times> bool) option" where
  "startRSM ord M init0 maxraftstate sn = (case ord of
       RestoreFirst \<Rightarrow> do { sm \<leftarrow> startState M init0 sn; Some (MakeRSM maxraftstate sm, False) }
     | ReaderFirst \<Rightarrow> Some (MakeRSM maxraftstate init0, True))"

definition lateRestore :: "('s, 'q, 'r) StateMachine \<Rightarrow> slice \<Rightarrow> ('s, 'r) RSM \<Rightarrow> ('s, 'r) RSM option" where
  "lateRestore M sn rsm = do { sm \<leftarrow> startState M (rsm_sm rsm) sn; Some (rsm\<lparr>rsm_sm := sm\<rparr>) }"

definition msgIndex :: "'c ApplyMsg \<Rightarrow> int" where
  "msgIndex m = (if am_CommandValid m then am_CommandIndex m else am_SnapshotIndex m)"

definition executed :: "('s, 'q, 'r) StateMachine \<Rightarrow> 'q opGob \<Rightarrow> bytes ApplyMsg \<Rightarrow> 's \<Rightarrow> (int \<times> 'q Op \<times> 'r) list" where
  "executed M G m sm =
     (case (if am_CommandValid m then do {
         cmd \<leftarrow> am_Command m; op \<leftarrow> decodeOp G cmd;
         (res, _) \<leftarrow> sm_DoOp M (am_CommandIndex m) (op_Opcommad op) sm; Some (am_CommandIndex m, op, res) } else None)
      of None \<Rightarrow> [] | Some x \<Rightarrow> [x])"

definition smr_init :: "startOrder \<Rightarrow> NodeID list \<Rightarrow> int \<Rightarrow> 's \<Rightarrow> ('s, 'q, 'r) smr" where
  "smr_init ord ids maxraftstate init0 = \<lparr>sg_cl = cluster_init ids None, sg_rsm = (\<lambda>_. MakeRSM maxraftstate init0),
     sg_ch = (\<lambda>_. []), sg_snap = (\<lambda>_. None), sg_idx = (\<lambda>_. 0), sg_late = (\<lambda>_. ord = ReaderFirst),
     sg_done = (\<lambda>_. []), sg_raced = False\<rparr>"

text \<open>The inputs of a node that do not come from its service, and those that can be cut short by a crash.\<close>

fun internal :: "'c input \<Rightarrow> bool" where
  "internal (Command c) = False"
| "internal (TakeSnapshot i sn) = False"
| "internal _ = True"

fun possible :: "('s, 'q, 'r) smr \<Rightarrow> NodeID \<Rightarrow> bytes input \<Rightarrow> bool" where
  "possible g n (TakeSnapshot i sn) \<longleftrightarrow> sg_snap g n = Some (i, sn)"
| "possible g n i \<longleftrightarrow> enabled (sg_cl g) n i"

definition acted :: "bytes cluster \<Rightarrow> NodeID \<Rightarrow> bytes msg multiset \<Rightarrow> bytes effect \<Rightarrow> bytes PersistState \<Rightarrow> bytes cluster" where
  "acted c n used eff st = (let (rf', ms, as, ops) = eff in
     c\<lparr>cl_nodes := (cl_nodes c)(n := rf'), cl_disks := (cl_disks c)(n := st),
       cl_net := cl_net c - used + mset ms, cl_out := (cl_out c)(n := cl_out c n @ as)\<rparr>)"

inductive smr_step :: "startOrder \<Rightarrow> ('s, 'q, 'r) StateMachine \<Rightarrow> 'q opGob \<Rightarrow> 's \<Rightarrow> int \<Rightarrow> NodeID list \<Rightarrow>
    ('s, 'q, 'r) smr \<Rightarrow> ('s, 'q, 'r) smr \<Rightarrow> bool" for ord M G init0 maxraftstate ids where
  node: "n \<in> set ids \<Longrightarrow> internal i \<Longrightarrow> enabled (sg_cl g) n i \<Longrightarrow>
     node_step i (cl_nodes (sg_cl g) n) = Some (rf', ms, as, ops) \<Longrightarrow>
     wal_applys ops (cl_disks (sg_cl g) n) = Some st' \<Longrightarrow>
     smr_step ord M G init0 maxraftstate ids g
       (g\<lparr>sg_cl := acted (sg_cl g) n (consumed i) (rf', ms, as, ops) st', sg_ch := (sg_ch g)(n := sg_ch g n @ as)\<rparr>)"
| submit: "n \<in> set ids \<Longrightarrow> Submit_begin G ch h req (cl_nodes (sg_cl g) n) (sg_rsm g n) = Some (rf', ops, rsm', res) \<Longrightarrow>
     wal_applys ops (cl_disks (sg_cl g) n) = Some st' \<Longrightarrow>
     smr_step ord M G init0 maxraftstate ids g
       (g\<lparr>sg_cl := acted (sg_cl g) n {#} (rf', [], [], ops) st', sg_rsm := (sg_rsm g)(n := rsm')\<rparr>)"
| give_up: "smr_step ord M G init0 maxraftstate ids g
       (g\<lparr>sg_rsm := (sg_rsm g)(n := Submit_give_up i (sg_rsm g n))\<rparr>)"
| read: "n \<in> set ids \<Longrightarrow> sg_ch g n = m # ms \<Longrightarrow> sg_snap g n = None \<Longrightarrow>
     readApplyCh M G sz m (sg_rsm g n) = Some (rsm', snap) \<Longrightarrow>
     smr_step ord M G init0 maxraftstate ids g
       (g\<lparr>sg_rsm := (sg_rsm g)(n := rsm'), sg_ch := (sg_ch g)(n := ms), sg_snap := (sg_snap g)(n := snap),
         sg_idx := (sg_idx g)(n := msgIndex m),
         sg_done := (sg_done g)(n := sg_done g n @ executed M G m (rsm_sm (sg_rsm g n))),
         sg_raced := sg_raced g \<or> sg_late g n\<rparr>)"
| restore: "n \<in> set ids \<Longrightarrow> sg_late g n \<Longrightarrow>
     lateRestore M (ps_Snapshot (cl_disks (sg_cl g) n)) (sg_rsm g n) = Some rsm' \<Longrightarrow>
     smr_step ord M G init0 maxraftstate ids g
       (g\<lparr>sg_rsm := (sg_rsm g)(n := rsm'), sg_late := (sg_late g)(n := False),
         sg_raced := sg_raced g \<or> ps_SnapshotIndex (cl_disks (sg_cl g) n) \<noteq> sg_idx g n\<rparr>)"
| snapshot: "n \<in> set ids \<Longrightarrow> sg_snap g n = Some (i, sn) \<Longrightarrow>
     node_step (TakeSnapshot i sn) (cl_nodes (sg_cl g) n) = Some (rf', ms, as, ops) \<Longrightarrow>
     wal_applys ops (cl_disks (sg_cl g) n) = Some st' \<Longrightarrow>
     smr_step ord M G init0 maxraftstate ids g
       (g\<lparr>sg_cl := acted (sg_cl g) n {#} (rf', ms, as, ops) st', sg_snap := (sg_snap g)(n := None)\<rparr>)"
| crash: "n \<in> set ids \<Longrightarrow> possible g n i \<Longrightarrow> node_step i (cl_nodes (sg_cl g) n) = Some (rf', ms, as, ops) \<Longrightarrow>
     wal_crash ops (cl_disks (sg_cl g) n) st' \<Longrightarrow> loads st' ok \<Longrightarrow>
     startRSM ord M init0 maxraftstate (ps_Snapshot st') = Some (rsm', late) \<Longrightarrow>
     smr_step ord M G init0 maxraftstate ids g
       (g\<lparr>sg_cl := (sg_cl g)\<lparr>cl_nodes := (cl_nodes (sg_cl g))(n := MakeWithWAL n ids (st', ok)),
            cl_disks := (cl_disks (sg_cl g))(n := st'), cl_net := cl_net (sg_cl g) - consumed i\<rparr>,
          sg_rsm := (sg_rsm g)(n := rsm'), sg_ch := (sg_ch g)(n := []), sg_snap := (sg_snap g)(n := None),
          sg_idx := (sg_idx g)(n := ps_SnapshotIndex st'), sg_late := (sg_late g)(n := late)\<rparr>)"
| lose: "m \<in># cl_net (sg_cl g) \<Longrightarrow>
     smr_step ord M G init0 maxraftstate ids g (g\<lparr>sg_cl := (sg_cl g)\<lparr>cl_net := cl_net (sg_cl g) - {#m#}\<rparr>\<rparr>)"

inductive smr_reach :: "startOrder \<Rightarrow> ('s, 'q, 'r) StateMachine \<Rightarrow> 'q opGob \<Rightarrow> 's \<Rightarrow> int \<Rightarrow> NodeID list \<Rightarrow> ('s, 'q, 'r) smr \<Rightarrow> bool"
  for ord M G init0 maxraftstate ids where
  init: "smr_reach ord M G init0 maxraftstate ids (smr_init ord ids maxraftstate init0)"
| step: "smr_reach ord M G init0 maxraftstate ids g \<Longrightarrow> smr_step ord M G init0 maxraftstate ids g g' \<Longrightarrow>
     smr_reach ord M G init0 maxraftstate ids g'"

section \<open>The specification\<close>

text \<open>A log as a program: the state after its entries, from index \<open>i\<close> on.\<close>

definition applyCmd :: "('s, 'q, 'r) StateMachine \<Rightarrow> 'q opGob \<Rightarrow> int \<Rightarrow> bytes option \<Rightarrow> 's \<Rightarrow> 's option" where
  "applyCmd M G i c s = do { cmd \<leftarrow> c; op \<leftarrow> decodeOp G cmd; (r, s') \<leftarrow> sm_DoOp M i (op_Opcommad op) s; Some s' }"

fun runLog :: "('s, 'q, 'r) StateMachine \<Rightarrow> 'q opGob \<Rightarrow> int \<Rightarrow> bytes log \<Rightarrow> 's \<Rightarrow> 's option" where
  "runLog M G i [] s = Some s"
| "runLog M G i (e # es) s = do { s' \<leftarrow> applyCmd M G i (le_Command e) s; runLog M G (i + 1) es s' }"

lemma runLog_append:
  "runLog M G i (es @ es') s = do { s' \<leftarrow> runLog M G i es s; runLog M G (i + int (length es)) es' s' }"
proof (induction es arbitrary: i s)
  case (Cons e es)
  then show ?case by (cases "applyCmd M G i (le_Command e) s") (simp_all add: algebra_simps)
qed simp

text \<open>
  In a state \<open>s\<close> of the protocol: the state of a service at an index, a snapshot of an index, and
  an executed operation are those of a committed log.
\<close>

definition state_ok :: "('s, 'q, 'r) StateMachine \<Rightarrow> 'q opGob \<Rightarrow> 's \<Rightarrow> NodeID set \<Rightarrow> bytes spec \<Rightarrow> int \<Rightarrow> 's \<Rightarrow> bool" where
  "state_ok M G init0 N s i sm \<longleftrightarrow>
     (\<exists>T P. committed N s T P \<and> int (length P) = i \<and> runLog M G 1 P init0 = Some sm)"

definition snap_ok :: "('s, 'q, 'r) StateMachine \<Rightarrow> 'q opGob \<Rightarrow> 's \<Rightarrow> NodeID set \<Rightarrow> bytes spec \<Rightarrow> int \<times> slice \<Rightarrow> bool" where
  "snap_ok M G init0 N s x \<longleftrightarrow>
     (if fst x = 0 then snd x = None \<or> snd x = Some []
      else \<exists>sm b. state_ok M G init0 N s (fst x) sm \<and> sm_Snapshot M sm = Some b \<and> snd x = Some b)"

definition done_ok :: "('s, 'q, 'r) StateMachine \<Rightarrow> 'q opGob \<Rightarrow> 's \<Rightarrow> NodeID set \<Rightarrow> bytes spec \<Rightarrow> int \<times> 'q Op \<times> 'r \<Rightarrow> bool" where
  "done_ok M G init0 N s x \<longleftrightarrow> (case x of (i, op, res) \<Rightarrow>
     \<exists>T P e cmd sm sm'. committed N s T (P @ [e]) \<and> int (length P) + 1 = i \<and> le_Command e = Some cmd \<and>
       decodeOp G cmd = Some op \<and> runLog M G 1 P init0 = Some sm \<and> sm_DoOp M i (op_Opcommad op) sm = Some (res, sm'))"

definition node_ok :: "('s, 'q, 'r) StateMachine \<Rightarrow> 'q opGob \<Rightarrow> 's \<Rightarrow> NodeID set \<Rightarrow> bytes spec \<Rightarrow> bytes Raft \<Rightarrow> 's \<Rightarrow>
    bytes ApplyMsg list \<Rightarrow> (int \<times> bytes) option \<Rightarrow> int \<Rightarrow> (int \<times> 'q Op \<times> 'r) list \<Rightarrow> bool" where
  "node_ok M G init0 N s rf sm ch snap i dn \<longleftrightarrow>
     snap_ok M G init0 N s (snapOf rf) \<and> state_ok M G init0 N s i sm \<and>
     stretch N s (snap_ok M G init0 N s) i ch (rf_appliedIndex rf) \<and>
     (\<forall>j b. snap = Some (j, b) \<longrightarrow> 0 < j \<and> j = i \<and> sm_Snapshot M sm = Some b) \<and>
     (\<forall>x \<in> set dn. done_ok M G init0 N s x)"

text \<open>
  The state a service is to be in: it is, unless it is late; then it is in the initial one and its
  reader has not taken anything.
\<close>

definition served :: "'s \<Rightarrow> ('s, 'q, 'r) smr \<Rightarrow> NodeID \<Rightarrow> 's \<Rightarrow> bool" where
  "served init0 g n sm \<longleftrightarrow>
     (if sg_late g n then rsm_sm (sg_rsm g n) = init0 \<and> sg_snap g n = None else rsm_sm (sg_rsm g n) = sm)"

definition slot_ok :: "('s, 'q, 'r) StateMachine \<Rightarrow> 'q opGob \<Rightarrow> 's \<Rightarrow> NodeID set \<Rightarrow> bytes spec \<Rightarrow> ('s, 'q, 'r) smr \<Rightarrow>
    NodeID \<Rightarrow> bytes Raft \<Rightarrow> bool" where
  "slot_ok M G init0 N s g n rf \<longleftrightarrow> (\<exists>sm. served init0 g n sm \<and>
     node_ok M G init0 N s rf sm (sg_ch g n) (sg_snap g n) (sg_idx g n) (sg_done g n))"

definition smr_inv :: "('s, 'q, 'r) StateMachine \<Rightarrow> 'q opGob \<Rightarrow> 's \<Rightarrow> NodeID list \<Rightarrow> bytes spec \<Rightarrow> ('s, 'q, 'r) smr \<Rightarrow> bool" where
  "smr_inv M G init0 ids s g \<longleftrightarrow> spec_reach (set ids) s \<and> csim ids s (sg_cl g) \<and>
     (\<forall>n \<in> set ids. slot_ok M G init0 (set ids) s g n (cl_nodes (sg_cl g) n)) \<and>
     (\<forall>a b args. AppendCall a b args \<in># cl_net (sg_cl g) \<longrightarrow> ae_Snapshot args \<noteq> None \<longrightarrow>
        snap_ok M G init0 (set ids) s (ae_SnapshotIndex args, ae_Snapshot args))"

lemma node_okD:
  assumes "node_ok M G init0 N s rf sm ch snap i dn"
  shows "snap_ok M G init0 N s (snapOf rf)" "state_ok M G init0 N s i sm"
    "stretch N s (snap_ok M G init0 N s) i ch (rf_appliedIndex rf)"
    "snap = Some (j, b) \<Longrightarrow> 0 < j \<and> j = i \<and> sm_Snapshot M sm = Some b"
    "x \<in> set dn \<Longrightarrow> done_ok M G init0 N s x"
  using assms unfolding node_ok_def by blast+

lemma smr_invD:
  assumes "smr_inv M G init0 ids s g"
  shows "spec_reach (set ids) s" "csim ids s (sg_cl g)"
    "n \<in> set ids \<Longrightarrow> slot_ok M G init0 (set ids) s g n (cl_nodes (sg_cl g) n)"
    "AppendCall a b args \<in># cl_net (sg_cl g) \<Longrightarrow> ae_Snapshot args \<noteq> None \<Longrightarrow>
      snap_ok M G init0 (set ids) s (ae_SnapshotIndex args, ae_Snapshot args)"
  using assms unfolding smr_inv_def by blast+

lemma smr_invI:
  assumes "spec_reach (set ids) s" "csim ids s (sg_cl g)"
    "\<And>n. n \<in> set ids \<Longrightarrow> slot_ok M G init0 (set ids) s g n (cl_nodes (sg_cl g) n)"
    "\<And>a b args. AppendCall a b args \<in># cl_net (sg_cl g) \<Longrightarrow> ae_Snapshot args \<noteq> None \<Longrightarrow>
      snap_ok M G init0 (set ids) s (ae_SnapshotIndex args, ae_Snapshot args)"
  shows "smr_inv M G init0 ids s g"
  using assms unfolding smr_inv_def by blast

text \<open>What is committed stays so.\<close>

lemma state_ok_extends:
  "spec_inv N s \<Longrightarrow> extends s s' \<Longrightarrow> state_ok M G init0 N s i sm \<Longrightarrow> state_ok M G init0 N s' i sm"
  unfolding state_ok_def using committed_extends by blast

lemma snap_ok_extends:
  "spec_inv N s \<Longrightarrow> extends s s' \<Longrightarrow> snap_ok M G init0 N s x \<Longrightarrow> snap_ok M G init0 N s' x"
  unfolding snap_ok_def by (cases "fst x = 0") (simp_all, blast intro: state_ok_extends)

lemma done_ok_extends:
  "spec_inv N s \<Longrightarrow> extends s s' \<Longrightarrow> done_ok M G init0 N s x \<Longrightarrow> done_ok M G init0 N s' x"
  unfolding done_ok_def using committed_extends by (cases x) blast

lemma node_ok_extends:
  assumes e: "spec_inv N s" "extends s s'" and n: "node_ok M G init0 N s rf sm ch snap i dn"
  shows "node_ok M G init0 N s' rf sm ch snap i dn"
  unfolding node_ok_def
proof (intro conjI ballI)
  show "snap_ok M G init0 N s' (snapOf rf)" by (rule snap_ok_extends [OF e node_okD(1) [OF n]])
  show "state_ok M G init0 N s' i sm" by (rule state_ok_extends [OF e node_okD(2) [OF n]])
  show "stretch N s' (snap_ok M G init0 N s') i ch (rf_appliedIndex rf)"
    by (rule stretch_mono [OF e snap_ok_extends [OF e] node_okD(3) [OF n]])
  show "done_ok M G init0 N s' x" if "x \<in> set dn" for x by (rule done_ok_extends [OF e node_okD(5) [OF n that]])
qed (use node_okD(4) [OF n] in blast)

lemma slot_ok_extends:
  assumes e: "spec_inv N s" "extends s s'" and ok: "slot_ok M G init0 N s g n rf"
  shows "slot_ok M G init0 N s' g n rf"
  using ok node_ok_extends [OF e] unfolding slot_ok_def by meson

lemma slot_okI:
  "served init0 g n sm \<Longrightarrow> node_ok M G init0 N s rf sm (sg_ch g n) (sg_snap g n) (sg_idx g n) (sg_done g n) \<Longrightarrow>
     slot_ok M G init0 N s g n rf"
  unfolding slot_ok_def by blast

lemma slot_okE:
  assumes "slot_ok M G init0 N s g n rf"
  obtains sm where "served init0 g n sm" "node_ok M G init0 N s rf sm (sg_ch g n) (sg_snap g n) (sg_idx g n) (sg_done g n)"
  using assms unfolding slot_ok_def by blast

lemma state_ok_nonneg: "state_ok M G init0 N s i sm \<Longrightarrow> 0 \<le> i"
  by (auto simp: state_ok_def)

text \<open>Two committed logs agree, so the state of an index is unique.\<close>

lemma committed_same:
  assumes "spec_inv N s" "finite N" "committed N s T P" "committed N s U R" "length P \<le> length R"
  shows "prefix P R"
proof -
  have "prefix P R \<or> prefix R P" by (rule committed_agree [OF assms(1-4)])
  then show ?thesis using assms(5) by (auto simp: prefix_def)
qed

section \<open>Steps\<close>

text \<open>A critical section of a node: what it adds to the channel continues the stretch.\<close>

lemma node_ok_act:
  assumes ns: "nsim N s n rf" and ok: "node_ok M G init0 N s rf sm ch snap i dn"
    and h: "node_step inp rf = Some (rf', ms, as, ops)"
    and off: "\<And>x. offered inp = Some x \<Longrightarrow> snap_ok M G init0 N s x"
  shows "node_ok M G init0 N s rf' sm (ch @ as) snap i dn" "\<And>x. x \<in> set (saves ops) \<Longrightarrow> snap_ok M G init0 N s x"
proof -
  have i: "0 \<le> i" by (rule state_ok_nonneg [OF node_okD(2) [OF ok]])
  have "stretch N s (snap_ok M G init0 N s) (rf_appliedIndex rf) as (rf_appliedIndex rf') \<and>
      snap_ok M G init0 N s (snapOf rf') \<and> (\<forall>x \<in> set (saves ops). snap_ok M G init0 N s x)"
  proof (cases "offered inp")
    case (Some x)
    then show ?thesis using takes_node_step [OF h Some] off [OF Some] node_okD(1) [OF ok] by (auto simp: takes_def)
  next
    case None
    show ?thesis
    proof (cases "inp = ApplyLoop")
      case True
      have s: "0 < rf_snapshotIndex rf \<Longrightarrow> rf_snapshot rf \<noteq> None"
        using node_okD(1) [OF ok] by (auto simp: snap_ok_def snapOf_def)
      have a: "0 \<le> rf_appliedIndex rf" using stretch_le [OF node_okD(3) [OF ok]] i by simp
      have "sendApplyMsg rf = Some (rf', as)" "ops = []" using h True by (auto split: prod.splits)
      then show ?thesis
        using sendApplyMsg_stretch [OF ns _ _ s a, where S = "snap_ok M G init0 N s"] node_okD(1) [OF ok] by auto
    next
      case False
      then show ?thesis using keeps_node_step [OF h None] node_okD(1) [OF ok] by (auto simp: keeps_def)
    qed
  qed
  then show "node_ok M G init0 N s rf' sm (ch @ as) snap i dn" "\<And>x. x \<in> set (saves ops) \<Longrightarrow> snap_ok M G init0 N s x"
    using ok unfolding node_ok_def stretch_append by blast+
qed

text \<open>The parts of the state that belong to the service of a node.\<close>

definition service :: "('s, 'q, 'r) smr \<Rightarrow> NodeID \<Rightarrow>
    's \<times> bool \<times> bytes ApplyMsg list \<times> (int \<times> bytes) option \<times> int \<times> (int \<times> 'q Op \<times> 'r) list" where
  "service g n = (rsm_sm (sg_rsm g n), sg_late g n, sg_ch g n, sg_snap g n, sg_idx g n, sg_done g n)"

lemma slot_ok_service: "service g' n = service g n \<Longrightarrow> slot_ok M G init0 N s g' n rf \<longleftrightarrow> slot_ok M G init0 N s g n rf"
  by (simp add: slot_ok_def served_def service_def)

lemma smr_inv_node:
  assumes inv: "smr_inv M G init0 ids s g" and n: "n \<in> set ids"
    and r: "spec_reach (set ids) s'" and ex: "extends s s'" and c: "csim ids s' (sg_cl g')"
    and nodes: "\<And>m. m \<noteq> n \<Longrightarrow> cl_nodes (sg_cl g') m = cl_nodes (sg_cl g) m"
    and others: "\<And>m. m \<noteq> n \<Longrightarrow> service g' m = service g m"
    and new: "slot_ok M G init0 (set ids) s g' n (cl_nodes (sg_cl g') n)"
    and net: "\<And>a b args. AppendCall a b args \<in># cl_net (sg_cl g') \<Longrightarrow> ae_Snapshot args \<noteq> None \<Longrightarrow>
      AppendCall a b args \<in># cl_net (sg_cl g) \<or> (ae_SnapshotIndex args, ae_Snapshot args) = snapOf (cl_nodes (sg_cl g) n)"
  shows "smr_inv M G init0 ids s' g'"
proof (rule smr_invI [OF r c])
  note e = spec_reach_inv [OF smr_invD(1) [OF inv]] ex
  fix m assume m: "m \<in> set ids"
  show "slot_ok M G init0 (set ids) s' g' m (cl_nodes (sg_cl g') m)"
  proof (cases "m = n")
    case True
    then show ?thesis using slot_ok_extends [OF e new] by simp
  next
    case False
    then show ?thesis
      using slot_ok_extends [OF e smr_invD(3) [OF inv m]] nodes [OF False] slot_ok_service [OF others [OF False]] by metis
  qed
next
  note e = spec_reach_inv [OF smr_invD(1) [OF inv]] ex
  fix a b args assume a: "AppendCall a b args \<in># cl_net (sg_cl g')" "ae_Snapshot args \<noteq> None"
  then show "snap_ok M G init0 (set ids) s' (ae_SnapshotIndex args, ae_Snapshot args)"
    using net [OF a] snap_ok_extends [OF e] smr_invD(4) [OF inv] slot_okE [OF smr_invD(3) [OF inv n]] node_okD(1) by metis
qed

lemma smr_inv_act:
  assumes inv: "smr_inv M G init0 ids s g" and ids: "distinct ids" "'''' \<notin> set ids" and n: "n \<in> set ids"
    and en: "enabled (sg_cl g) n i" and h: "node_step i (cl_nodes (sg_cl g) n) = Some (rf', ms, as, ops)"
    and w: "wal_applys ops (cl_disks (sg_cl g) n) = Some st'"
    and g': "sg_cl g' = acted (sg_cl g) n (consumed i) (rf', ms, as, ops) st'"
    and others: "\<And>m. m \<noteq> n \<Longrightarrow> service g' m = service g m"
    and new: "slot_ok M G init0 (set ids) s g' n rf'"
  shows "\<exists>s'. smr_inv M G init0 ids s' g'"
proof -
  note s = smr_invD(1,2) [OF inv]
  obtain s' where s': "moves (set ids) n s s'" "csim ids s' (sg_cl g')"
    using csim_act [OF spec_reach_inv [OF s(1)] s(2) ids n en h w] by (auto simp: g' acted_def)
  have "smr_inv M G init0 ids s' g'"
  proof (rule smr_inv_node [OF inv n moves_reach [OF s'(1) s(1)] moves_extends [OF s'(1)] s'(2) _ others])
    show "slot_ok M G init0 (set ids) s g' n (cl_nodes (sg_cl g') n)" using new by (simp add: g' acted_def)
  next
    fix a b args assume a: "AppendCall a b args \<in># cl_net (sg_cl g')" "ae_Snapshot args \<noteq> None"
    show "AppendCall a b args \<in># cl_net (sg_cl g) \<or> (ae_SnapshotIndex args, ae_Snapshot args) = snapOf (cl_nodes (sg_cl g) n)"
      using a(1) sent_snapshot(1) [OF h _ a(2)] by (auto simp: g' acted_def dest: in_diffD)
  qed (simp add: g' acted_def)
  then show ?thesis by blast
qed

lemma Submit_begin_cases:
  assumes "Submit_begin G ch h req rf rsm = Some (rf', ops, rsm', res)"
  shows "rsm_sm rsm' = rsm_sm rsm \<and> (rf' = rf \<and> ops = [] \<or> (\<exists>c. node_step (Command c) rf = Some (rf', [], [], ops)))"
proof -
  have "rsm_sm r' = rsm_sm rsm" if "Submit_register ch h start rsm = Some (r', l)" for start r' l
    using that by (auto simp: Submit_register_def Let_def split: prod.splits if_splits option.splits)
  note reg = this
  show ?thesis
  proof (cases "snd (GetState rf)")
    case True
    then obtain cmd start l where "Start (Some cmd) rf = (rf', start, ops)" "Submit_register ch h start rsm = Some (rsm', l)"
      using assms by (fastforce simp: Submit_begin_def Let_def split: prod.splits)
    then have "node_step (Command (Some cmd)) rf = Some (rf', [], [], ops)" "rsm_sm rsm' = rsm_sm rsm"
      using reg by simp_all
    then show ?thesis by blast
  qed (use assms in \<open>simp add: Submit_begin_def\<close>)
qed

lemma smr_inv_same_cluster:
  assumes inv: "smr_inv M G init0 ids s g" and n: "n \<in> set ids" and g': "sg_cl g' = sg_cl g"
    and others: "\<And>m. m \<noteq> n \<Longrightarrow> service g' m = service g m"
    and new: "slot_ok M G init0 (set ids) s g' n (cl_nodes (sg_cl g) n)"
  shows "smr_inv M G init0 ids s g'"
  by (rule smr_inv_node [OF inv n smr_invD(1) [OF inv] extends_refl _ _ others])
    (use smr_invD(2) [OF inv] new g' in simp_all)

lemma acted_nothing: "cl_disks c n = st \<Longrightarrow> acted c n {#} (cl_nodes c n, [], [], []) st = c"
  by (auto simp: acted_def)

lemma signal_sm: "signal i h res rsm = Some rsm' \<Longrightarrow> rsm_sm rsm' = rsm_sm rsm"
  by (auto simp: signal_def split: option.splits if_splits bind_splits)

lemma readApplyCh_command:
  assumes h: "readApplyCh M G sz m rsm = Some (rsm', snap)" and v: "am_CommandValid m"
  obtains cmd op res sm where "am_Command m = Some cmd" "decodeOp G cmd = Some op"
    "sm_DoOp M (am_CommandIndex m) (op_Opcommad op) (rsm_sm rsm) = Some (res, sm)" "rsm_sm rsm' = sm"
    "snap = None \<or> (\<exists>b. snap = Some (am_CommandIndex m, b) \<and> sm_Snapshot M sm = Some b)"
proof -
  obtain cmd op res sm rsm1 where c: "am_Command m = Some cmd" "decodeOp G cmd = Some op"
    "sm_DoOp M (am_CommandIndex m) (op_Opcommad op) (rsm_sm rsm) = Some (res, sm)"
    "signal (am_CommandIndex m) (op_HashNum op) res (rsm\<lparr>rsm_sm := sm\<rparr>) = Some rsm1"
    using h v by (auto simp: readApplyCh_def split: bind_splits)
  then have "rsm_sm rsm1 = sm" using signal_sm by fastforce
  then show ?thesis using that [OF c(1-3)] h v c by (auto simp: readApplyCh_def split: if_splits bind_splits)
qed

section \<open>One log\<close>

definition explains :: "('s, 'q, 'r) StateMachine \<Rightarrow> 'q opGob \<Rightarrow> 's \<Rightarrow> bytes log \<Rightarrow> int \<Rightarrow> 's \<Rightarrow> bool" where
  "explains M G init0 L i sm \<longleftrightarrow> 0 \<le> i \<and> i \<le> int (length L) \<and> runLog M G 1 (take (nat i) L) init0 = Some sm"

definition answers :: "('s, 'q, 'r) StateMachine \<Rightarrow> 'q opGob \<Rightarrow> 's \<Rightarrow> bytes log \<Rightarrow> int \<times> 'q Op \<times> 'r \<Rightarrow> bool" where
  "answers M G init0 L x \<longleftrightarrow> (case x of (i, op, res) \<Rightarrow> 0 < i \<and> i \<le> int (length L) \<and>
     (\<exists>cmd sm sm'. le_Command (L ! (nat i - 1)) = Some cmd \<and> decodeOp G cmd = Some op \<and>
       runLog M G 1 (take (nat i - 1) L) init0 = Some sm \<and> sm_DoOp M i (op_Opcommad op) sm = Some (res, sm')))"

lemma explains_prefix: "explains M G init0 P i sm \<Longrightarrow> prefix P L \<Longrightarrow> explains M G init0 L i sm"
  by (auto simp: explains_def prefix_def)

lemma answers_prefix: "answers M G init0 P x \<Longrightarrow> prefix P L \<Longrightarrow> answers M G init0 L x"
  by (cases x) (auto simp: answers_def prefix_def nth_append)

lemma state_ok_explains:
  assumes "state_ok M G init0 N s i sm"
  shows "\<exists>T P. committed N s T P \<and> runLog M G 1 P init0 \<noteq> None \<and> explains M G init0 P i sm"
  using assms unfolding state_ok_def explains_def by fastforce

lemma done_ok_answers:
  assumes "done_ok M G init0 N s x"
  shows "\<exists>T P. committed N s T P \<and> runLog M G 1 P init0 \<noteq> None \<and> answers M G init0 P x"
proof -
  obtain i op res where x: "x = (i, op, res)" by (cases x)
  obtain T P e cmd sm sm' where P: "committed N s T (P @ [e])" "int (length P) + 1 = i" "le_Command e = Some cmd"
    "decodeOp G cmd = Some op" "runLog M G 1 P init0 = Some sm" "sm_DoOp M i (op_Opcommad op) sm = Some (res, sm')"
    using assms unfolding done_ok_def x prod.case by blast
  have "runLog M G 1 (P @ [e]) init0 = Some sm'"
    using P by (simp add: runLog_append applyCmd_def add.commute)
  moreover have "nat i - 1 = length P" using P(2) by auto
  ultimately show ?thesis using P by (intro exI [of _ T] exI [of _ "P @ [e]"]) (auto simp: answers_def x)
qed

text \<open>Of finitely many committed logs the longest has all others as prefixes.\<close>

lemma committed_longest:
  assumes s: "spec_inv N s" "finite N" and A: "finite A"
    and Q: "\<And>x. x \<in> A \<Longrightarrow> \<exists>T P. committed N s T P \<and> Q x P"
  shows "\<exists>T L. committed N s T L \<and> (L = [] \<or> (\<exists>x. Q x L)) \<and> (\<forall>x \<in> A. \<exists>P. Q x P \<and> prefix P L)"
  using A Q
proof (induction rule: finite_induct)
  case empty
  show ?case by (intro exI [of _ 0] exI [of _ "[]"]) simp
next
  case (insert x A)
  obtain T L where L: "committed N s T L" "L = [] \<or> (\<exists>x. Q x L)" "\<forall>x \<in> A. \<exists>P. Q x P \<and> prefix P L"
    using insert by blast
  obtain U P where P: "committed N s U P" "Q x P" using insert.prems by blast
  show ?case
  proof (cases "prefix P L")
    case True
    then show ?thesis using L P by blast
  next
    case False
    then have "prefix L P" using committed_agree [OF s L(1) P(1)] by blast
    then have "\<forall>y \<in> A. \<exists>R. Q y R \<and> prefix R P" using L(3) prefix_order.trans by blast
    then show ?thesis using P by blast
  qed
qed

section \<open>Histories of requests\<close>

fun smRun :: "('s, 'q, 'r) StateMachine \<Rightarrow> int \<Rightarrow> 'q list \<Rightarrow> 's \<Rightarrow> 's option" where
  "smRun M i [] sm = Some sm"
| "smRun M i (q # qs) sm = do { (_, sm') \<leftarrow> sm_DoOp M i q sm; smRun M (i + 1) qs sm' }"

definition logReqs :: "'q opGob \<Rightarrow> bytes log \<Rightarrow> 'q list" where
  "logReqs G L = map (\<lambda>e. op_Opcommad (the (decodeOp G (the (le_Command e))))) L"

definition smAt :: "('s, 'q, 'r) StateMachine \<Rightarrow> 's \<Rightarrow> 'q list \<Rightarrow> int \<Rightarrow> 's \<Rightarrow> bool" where
  "smAt M init0 qs i sm \<longleftrightarrow> 0 \<le> i \<and> i \<le> int (length qs) \<and> smRun M 1 (take (nat i) qs) init0 = Some sm"

definition smAnswered :: "('s, 'q, 'r) StateMachine \<Rightarrow> 's \<Rightarrow> 'q list \<Rightarrow> int \<times> 'q Op \<times> 'r \<Rightarrow> bool" where
  "smAnswered M init0 qs x \<longleftrightarrow> (case x of (i, op, res) \<Rightarrow> 0 < i \<and> i \<le> int (length qs) \<and> op_Opcommad op = qs ! (nat i - 1) \<and>
     (\<exists>sm sm'. smRun M 1 (take (nat i - 1) qs) init0 = Some sm \<and> sm_DoOp M i (qs ! (nat i - 1)) sm = Some (res, sm')))"

lemma runLog_smRun: "runLog M G i L sm = Some sm' \<Longrightarrow> smRun M i (logReqs G L) sm = Some sm'"
proof (induction L arbitrary: i sm)
  case (Cons e L)
  then obtain sm1 where "applyCmd M G i (le_Command e) sm = Some sm1" "runLog M G (i + 1) L sm1 = Some sm'"
    by (auto split: bind_splits)
  then show ?case using Cons.IH by (auto simp: applyCmd_def logReqs_def split: bind_splits)
qed (simp add: logReqs_def)

lemma explains_smAt: "explains M G init0 L i sm \<Longrightarrow> smAt M init0 (logReqs G L) i sm"
  using runLog_smRun [of M G 1 "take (nat i) L" init0] by (simp add: explains_def smAt_def logReqs_def take_map)

lemma answers_smAnswered:
  assumes "answers M G init0 L x"
  shows "smAnswered M init0 (logReqs G L) x"
proof -
  obtain i op res where x: "x = (i, op, res)" by (cases x)
  obtain cmd sm sm' where c: "0 < i" "i \<le> int (length L)" "le_Command (L ! (nat i - 1)) = Some cmd" "decodeOp G cmd = Some op"
      "runLog M G 1 (take (nat i - 1) L) init0 = Some sm" "sm_DoOp M i (op_Opcommad op) sm = Some (res, sm')"
    using assms by (auto simp: answers_def x)
  have "nat i - 1 < length L" using c(1,2) by auto
  then have q: "logReqs G L ! (nat i - 1) = op_Opcommad op" unfolding logReqs_def by (simp only: nth_map c(3,4) option.sel)
  have "smRun M 1 (take (nat i - 1) (logReqs G L)) init0 = Some sm"
    using runLog_smRun [OF c(5)] by (simp add: logReqs_def take_map)
  then show ?thesis using c(1,2,6) q by (simp add: smAnswered_def x logReqs_def)
qed

section \<open>State machines\<close>

text \<open>
  What replication needs of a state machine: operations keep its invariant, and a snapshot is not
  empty and restores the state it was taken of.
\<close>

locale state_machine =
  fixes M :: "('s, 'q, 'r) StateMachine" and inv :: "'s \<Rightarrow> bool"
  assumes DoOp: "inv sm \<Longrightarrow> sm_DoOp M i q sm = Some (r, sm') \<Longrightarrow> inv sm'"
    and Restore: "inv sm \<Longrightarrow> inv sm0 \<Longrightarrow> sm_Snapshot M sm = Some b \<Longrightarrow> b \<noteq> [] \<and> sm_Restore M (Some b) sm0 = Some sm"
begin

lemma runLog_inv: "inv sm \<Longrightarrow> runLog M G i es sm = Some sm' \<Longrightarrow> inv sm'"
proof (induction es arbitrary: i sm)
  case (Cons e es)
  then obtain sm1 where "applyCmd M G i (le_Command e) sm = Some sm1" "runLog M G (i + 1) es sm1 = Some sm'"
    by (auto split: bind_splits)
  moreover have "inv sm1" using calculation(1) Cons.prems(1) DoOp by (auto simp: applyCmd_def split: bind_splits)
  ultimately show ?case using Cons.IH by blast
qed simp

lemma state_ok_inv: "inv init0 \<Longrightarrow> state_ok M G init0 N s i sm \<Longrightarrow> inv sm"
  unfolding state_ok_def using runLog_inv by blast

lemma smRun_inv: "inv sm \<Longrightarrow> smRun M i qs sm = Some sm' \<Longrightarrow> inv sm'"
proof (induction qs arbitrary: i sm)
  case (Cons q qs)
  then obtain r sm1 where "sm_DoOp M i q sm = Some (r, sm1)" "smRun M (i + 1) qs sm1 = Some sm'"
    by (auto split: bind_splits)
  then show ?case using Cons DoOp by blast
qed simp

text \<open>A snapshot that may be taken over restores the state of its index.\<close>

lemma snap_ok_restore:
  assumes "inv init0" "snap_ok M G init0 N s (i, sn)" "0 < i" "inv sm0"
  obtains b sm where "sn = Some b" "b \<noteq> []" "sm_Restore M sn sm0 = Some sm" "state_ok M G init0 N s i sm"
proof -
  obtain sm b where sm: "state_ok M G init0 N s i sm" "sm_Snapshot M sm = Some b" "sn = Some b"
    using assms(2,3) by (auto simp: snap_ok_def)
  then show ?thesis using Restore [OF state_ok_inv [OF assms(1) sm(1)] assms(4) sm(2)] that by blast
qed

lemma startState_ok:
  assumes "inv init0" "snap_ok M G init0 N s (i, sn)" "0 \<le> i"
  shows "\<exists>sm. startState M init0 sn = Some sm \<and> state_ok M G init0 N s i sm"
proof (cases "i = 0")
  case True
  then have "startState M init0 sn = Some init0" using assms(2) by (auto simp: snap_ok_def startState_def)
  moreover have "state_ok M G init0 N s 0 init0" unfolding state_ok_def by (intro exI [of _ 0] exI [of _ "[]"]) simp
  ultimately show ?thesis using True by simp
next
  case False
  then have "0 < i" using assms(3) by simp
  then obtain b sm' where "sn = Some b" "b \<noteq> []" "sm_Restore M sn init0 = Some sm'" "state_ok M G init0 N s i sm'"
    by (rule snap_ok_restore [OF assms(1,2) _ assms(1)])
  then show ?thesis by (simp add: startState_def)
qed

text \<open>The reader takes a message: its state moves on along the committed log.\<close>

lemma read_command:
  assumes r: "spec_inv N s" "finite N" and st: "state_ok M G init0 N s i sm" and a: "apply_ok N s m"
    and m: "am_CommandValid m" "am_CommandIndex m = i + 1" and c: "am_Command m = Some cmd" "decodeOp G cmd = Some op"
      "sm_DoOp M (i + 1) (op_Opcommad op) sm = Some (res, sm')"
  shows "state_ok M G init0 N s (i + 1) sm'" "done_ok M G init0 N s (i + 1, op, res)"
proof -
  obtain T P where P: "committed N s T P" "int (length P) = i" "runLog M G 1 P init0 = Some sm"
    using st by (auto simp: state_ok_def)
  obtain U R where R: "committed N s U R" "i + 1 \<le> int (length R)" "am_Command m = le_Command (R ! (nat (i + 1) - 1))"
    using a m by (auto simp: apply_ok_def)
  define e where "e = R ! length P"
  have "nat (i + 1) - 1 = length P" "length P < length R" using P(2) R(2) by auto
  then have e: "le_Command e = Some cmd" using R(3) c(1) by (simp add: e_def)
  have "prefix P R" by (rule committed_same [OF r P(1) R(1)]) (use P(2) R(2) in simp)
  then have "prefix (P @ [e]) R" using \<open>length P < length R\<close> unfolding e_def by (metis append_one_prefix)
  then have Pe: "committed N s U (P @ [e])" by (rule committed_prefix [OF R(1)])
  have "applyCmd M G (i + 1) (le_Command e) sm = Some sm'" using e c by (simp add: applyCmd_def)
  then have "runLog M G 1 (P @ [e]) init0 = Some sm'" using P(2,3) by (simp add: runLog_append add.commute)
  then show "state_ok M G init0 N s (i + 1) sm'" unfolding state_ok_def using Pe P(2) by fastforce
  show "done_ok M G init0 N s (i + 1, op, res)"
    unfolding done_ok_def prod.case using Pe P(2,3) e c(2,3) by blast
qed

lemma read_ok:
  assumes r: "spec_inv N s" "finite N" "inv init0"
    and ok: "node_ok M G init0 N s rf (rsm_sm rsm) (m # ms) None i dn"
    and h: "readApplyCh M G sz m rsm = Some (rsm', snap)"
  shows "node_ok M G init0 N s rf (rsm_sm rsm') ms snap (msgIndex m) (dn @ executed M G m (rsm_sm rsm))"
proof (cases "am_CommandValid m")
  case True
  then have m: "am_CommandIndex m = i + 1" "apply_ok N s m" "stretch N s (snap_ok M G init0 N s) (i + 1) ms (rf_appliedIndex rf)"
    using node_okD(3) [OF ok] by auto
  obtain cmd op res sm where c: "am_Command m = Some cmd" "decodeOp G cmd = Some op"
    "sm_DoOp M (i + 1) (op_Opcommad op) (rsm_sm rsm) = Some (res, sm)" "rsm_sm rsm' = sm"
    "snap = None \<or> (\<exists>b. snap = Some (i + 1, b) \<and> sm_Snapshot M sm = Some b)"
    by (rule readApplyCh_command [OF h True, unfolded m(1)])
  note new = read_command [OF r(1,2) node_okD(2) [OF ok] m(2) True m(1) c(1-3)]
  have "executed M G m (rsm_sm rsm) = [(i + 1, op, res)]" using True m(1) c by (simp add: executed_def)
  moreover have "0 < i + 1" using state_ok_nonneg [OF node_okD(2) [OF ok]] by simp
  ultimately show ?thesis using ok new c(4,5) m(3) True m(1) by (auto simp: node_ok_def msgIndex_def)
next
  case False
  then have m: "am_SnapshotValid m" "i < am_SnapshotIndex m" "snap_ok M G init0 N s (am_SnapshotIndex m, am_Snapshot m)"
    "stretch N s (snap_ok M G init0 N s) (am_SnapshotIndex m) ms (rf_appliedIndex rf)"
    using node_okD(3) [OF ok] by auto
  have i: "0 < am_SnapshotIndex m" using state_ok_nonneg [OF node_okD(2) [OF ok]] m(2) by simp
  have "inv (rsm_sm rsm)" by (rule state_ok_inv [OF r(3) node_okD(2) [OF ok]])
  then obtain b sm where "sm_Restore M (am_Snapshot m) (rsm_sm rsm) = Some sm" "state_ok M G init0 N s (am_SnapshotIndex m) sm"
    by (rule snap_ok_restore [OF r(3) m(3) i])
  moreover have "executed M G m (rsm_sm rsm) = []" using False by (simp add: executed_def)
  ultimately show ?thesis using ok h m False by (auto simp: node_ok_def msgIndex_def readApplyCh_def)
qed

text \<open>A crash: the service starts again on the snapshot that was persisted.\<close>

lemma crash_ok_service:
  assumes "inv init0" and ok: "node_ok M G init0 N s rf sm ch snap i dn"
    and sv: "\<And>x. x \<in> set (saves ops) \<Longrightarrow> snap_ok M G init0 N s x"
    and w: "wal_crash ops (persistent rf) st'" and l: "loads st' ok'" "0 \<le> ps_SnapshotIndex st'"
  shows "\<exists>sm'. startState M init0 (ps_Snapshot st') = Some sm' \<and>
    node_ok M G init0 N s (MakeWithWAL n ids (st', ok')) sm' [] None (ps_SnapshotIndex st') dn"
proof -
  have "snapOf (MakeWithWAL n ids (st', ok')) = (ps_SnapshotIndex st', ps_Snapshot st')"
    using arg_cong [OF persistent_MakeWithWAL [OF l(1), of n ids], of ps_SnapshotIndex]
      arg_cong [OF persistent_MakeWithWAL [OF l(1), of n ids], of ps_Snapshot] by (simp add: snapOf_def)
  moreover have "rf_appliedIndex (MakeWithWAL n ids (st', ok')) = ps_SnapshotIndex st'"
    using calculation by (auto simp: MakeWithWAL_def Let_def snapOf_def)
  moreover have "snap_ok M G init0 N s (ps_SnapshotIndex st', ps_Snapshot st')"
    using wal_crash_snapshot [OF w] sv node_okD(1) [OF ok] by (auto simp: snapOf_def)
  ultimately show ?thesis
    using startState_ok [OF assms(1) _ l(2), of G N s] node_okD(5) [OF ok] by (auto simp: node_ok_def)
qed

lemma smr_inv_init:
  assumes "inv init0"
  shows "smr_inv M G init0 ids spec_init (smr_init ord ids maxraftstate init0)"
proof (rule smr_invI)
  fix n
  have "state_ok M G init0 (set ids) spec_init 0 init0"
    unfolding state_ok_def by (intro exI [of _ 0] exI [of _ "[]"]) simp
  then show "slot_ok M G init0 (set ids) spec_init (smr_init ord ids maxraftstate init0) n
      (cl_nodes (sg_cl (smr_init ord ids maxraftstate init0)) n)"
    by (intro slot_okI [of _ _ _ init0]) (simp_all add: served_def node_ok_def smr_init_def snap_ok_def snapOf_def
      cluster_init_def MakeWithWAL_def Let_def PersistState0_def MakeRSM_def)
qed (simp_all add: spec_reach.init smr_init_def csim_init, simp add: cluster_init_def)

lemma offered_net:
  assumes "smr_inv M G init0 ids s g" "enabled (sg_cl g) n i" "internal i \<or> (\<exists>c. i = Command c)" "offered i = Some x"
  shows "snap_ok M G init0 (set ids) s x"
  using assms smr_invD(4) [OF assms(1)]
  by (cases i rule: offered.cases) (auto split: if_splits)

lemma offered_pending:
  assumes r: "inv init0" "smr_inv M G init0 ids s g" "n \<in> set ids" and p: "sg_snap g n = Some (i, sn)"
  shows "enabled (sg_cl g) n (TakeSnapshot i sn)" "snap_ok M G init0 (set ids) s (i, Some sn)"
proof -
  obtain sm where ok: "node_ok M G init0 (set ids) s (cl_nodes (sg_cl g) n) sm (sg_ch g n) (sg_snap g n) (sg_idx g n) (sg_done g n)"
    by (rule slot_okE [OF smr_invD(3) [OF r(2,3)]])
  have i: "0 < i" "i = sg_idx g n" "sm_Snapshot M sm = Some sn" using node_okD(4) [OF ok p] by auto
  have "inv sm" by (rule state_ok_inv [OF r(1) node_okD(2) [OF ok]])
  then have "sn \<noteq> []" using Restore [OF _ r(1) i(3)] by blast
  then show "enabled (sg_cl g) n (TakeSnapshot i sn)" using stretch_le [OF node_okD(3) [OF ok]] i(2) by simp
  show "snap_ok M G init0 (set ids) s (i, Some sn)"
    unfolding snap_ok_def using i node_okD(2) [OF ok] by auto
qed

lemma possible_enabled:
  assumes "inv init0" "smr_inv M G init0 ids s g" "n \<in> set ids" "possible g n i"
  shows "enabled (sg_cl g) n i" "offered i = Some x \<Longrightarrow> snap_ok M G init0 (set ids) s x"
proof -
  have "enabled (sg_cl g) n i \<and> (offered i = Some x \<longrightarrow> snap_ok M G init0 (set ids) s x)" for x
  proof (cases "\<exists>j sn. i = TakeSnapshot j sn")
    case True
    then show ?thesis using assms(4) offered_pending [OF assms(1-3)] by auto
  next
    case False
    then have "enabled (sg_cl g) n i" "internal i \<or> (\<exists>c. i = Command c)" using assms(4) by (cases i; simp)+
    then show ?thesis using offered_net [OF assms(2)] by blast
  qed
  then show "enabled (sg_cl g) n i" "offered i = Some x \<Longrightarrow> snap_ok M G init0 (set ids) s x" by blast+
qed

lemma smr_inv_crash:
  assumes r: "inv init0" "smr_inv M G init0 ids s g" "n \<in> set ids" and ids: "distinct ids" "'''' \<notin> set ids"
    and p: "possible g n i" and h: "node_step i (cl_nodes (sg_cl g) n) = Some (rf', ms, as, ops)"
    and w: "wal_crash ops (cl_disks (sg_cl g) n) st'" and l: "loads st' ok"
    and start: "startRSM ord M init0 maxraftstate (ps_Snapshot st') = Some (rsm', late)"
  shows "\<exists>s'. smr_inv M G init0 ids s' (g\<lparr>sg_cl := (sg_cl g)\<lparr>cl_nodes := (cl_nodes (sg_cl g))(n := MakeWithWAL n ids (st', ok)),
            cl_disks := (cl_disks (sg_cl g))(n := st'), cl_net := cl_net (sg_cl g) - consumed i\<rparr>,
          sg_rsm := (sg_rsm g)(n := rsm'), sg_ch := (sg_ch g)(n := []), sg_snap := (sg_snap g)(n := None),
          sg_idx := (sg_idx g)(n := ps_SnapshotIndex st'), sg_late := (sg_late g)(n := late)\<rparr>)" (is "\<exists>s'. smr_inv M G init0 ids s' ?g")
proof -
  note s = smr_invD(1,2) [OF r(2)] and en = possible_enabled [OF r p]
  obtain sm where ok: "node_ok M G init0 (set ids) s (cl_nodes (sg_cl g) n) sm (sg_ch g n) (sg_snap g n) (sg_idx g n) (sg_done g n)"
    by (rule slot_okE [OF smr_invD(3) [OF r(2,3)]])
  have d: "cl_disks (sg_cl g) n = persistent (cl_nodes (sg_cl g) n)" by (rule csimD(3) [OF s(2) r(3)])
  have "crash_ok (set ids) s n ops (persistent (cl_nodes (sg_cl g) n))"
    using enabled_step_ok [OF spec_reach_inv [OF s(1)] s(2) ids r(3) en(1)] h unfolding step_ok_def by auto
  then obtain s' where s': "moves (set ids) n s s'" "psim (set ids) s' n st'" using w d unfolding crash_ok_def by auto
  have "0 \<le> ps_SnapshotIndex st'" using psimD(2) [OF s'(2)] by (simp add: repr_def)
  from crash_ok_service [OF r(1) ok node_ok_act(2) [OF csimD(1) [OF s(2) r(3)] ok h en(2)] w [unfolded d] l this]
  obtain sm' where sm': "startState M init0 (ps_Snapshot st') = Some sm'"
    "node_ok M G init0 (set ids) s (MakeWithWAL n ids (st', ok)) sm' [] None (ps_SnapshotIndex st') (sg_done g n)" by blast
  have "slot_ok M G init0 (set ids) s ?g n (MakeWithWAL n ids (st', ok))"
    by (rule slot_okI [of _ _ _ sm']) (use start sm' in \<open>auto simp: served_def startRSM_def MakeRSM_def split: startOrder.splits\<close>)
  note new = this
  have "smr_inv M G init0 ids s' ?g"
  proof (rule smr_inv_node [OF r(2,3) moves_reach [OF s'(1) s(1)] moves_extends [OF s'(1)]])
    show "csim ids s' (sg_cl ?g)" using csim_shrink [OF spec_reach_inv [OF s(1)] s(2) r(3) s' l] by simp
  qed (use new in \<open>auto simp: service_def dest: in_diffD\<close>)
  then show ?thesis by blast
qed

text \<open>The steps one by one; a step of the reader of a late node, and the late restore of another snapshot, are excluded.\<close>

lemma smr_inv_internal:
  assumes inv: "smr_inv M G init0 ids s g" and ids: "distinct ids" "'''' \<notin> set ids" and n: "n \<in> set ids" "internal i"
    and en: "enabled (sg_cl g) n i" and h: "node_step i (cl_nodes (sg_cl g) n) = Some (rf', ms, as, ops)"
    and w: "wal_applys ops (cl_disks (sg_cl g) n) = Some st'"
  shows "\<exists>s'. smr_inv M G init0 ids s' (g\<lparr>sg_cl := acted (sg_cl g) n (consumed i) (rf', ms, as, ops) st',
    sg_ch := (sg_ch g)(n := sg_ch g n @ as)\<rparr>)"
proof -
  obtain sm where sm: "served init0 g n sm"
    "node_ok M G init0 (set ids) s (cl_nodes (sg_cl g) n) sm (sg_ch g n) (sg_snap g n) (sg_idx g n) (sg_done g n)"
    by (rule slot_okE [OF smr_invD(3) [OF inv n(1)]])
  have "\<And>x. offered i = Some x \<Longrightarrow> snap_ok M G init0 (set ids) s x" using offered_net [OF inv en] n(2) by blast
  note new = node_ok_act(1) [OF csimD(1) [OF smr_invD(2) [OF inv] n(1)] sm(2) h this]
  show ?thesis
    by (rule smr_inv_act [OF inv ids n(1) en h w], simp, simp add: service_def, rule slot_okI [of _ _ _ sm])
      (use new sm(1) in \<open>simp_all add: served_def\<close>)
qed

lemma smr_inv_submit:
  assumes inv: "smr_inv M G init0 ids s g" and ids: "distinct ids" "'''' \<notin> set ids" and n: "n \<in> set ids"
    and sub: "Submit_begin G ch h req (cl_nodes (sg_cl g) n) (sg_rsm g n) = Some (rf', ops, rsm', res)"
    and w: "wal_applys ops (cl_disks (sg_cl g) n) = Some st'"
  shows "\<exists>s'. smr_inv M G init0 ids s' (g\<lparr>sg_cl := acted (sg_cl g) n {#} (rf', [], [], ops) st', sg_rsm := (sg_rsm g)(n := rsm')\<rparr>)"
    (is "\<exists>s'. smr_inv M G init0 ids s' ?g")
proof -
  note s = smr_invD(1,2) [OF inv] and c = Submit_begin_cases [OF sub]
  obtain sm where sm: "served init0 g n sm"
    "node_ok M G init0 (set ids) s (cl_nodes (sg_cl g) n) sm (sg_ch g n) (sg_snap g n) (sg_idx g n) (sg_done g n)"
    by (rule slot_okE [OF smr_invD(3) [OF inv n]])
  show ?thesis
  proof (cases "\<exists>c. node_step (Command c) (cl_nodes (sg_cl g) n) = Some (rf', [], [], ops)")
    case True
    then obtain c' where h: "node_step (Command c') (cl_nodes (sg_cl g) n) = Some (rf', [], [], ops)" by blast
    note new = node_ok_act(1) [OF csimD(1) [OF s(2) n] sm(2) h]
    show ?thesis
      by (rule smr_inv_act [OF inv ids n _ h w], simp, simp, simp add: service_def, rule slot_okI [of _ _ _ sm])
        (use new sm(1) c in \<open>simp_all add: served_def\<close>)
  next
    case False
    then have cl: "sg_cl ?g = sg_cl g" using c w by (simp add: acted_nothing)
    have "smr_inv M G init0 ids s ?g"
      by (rule smr_inv_same_cluster [OF inv n cl], simp add: service_def, rule slot_okI [of _ _ _ sm])
        (use sm c in \<open>simp_all add: served_def\<close>)
    then show ?thesis by blast
  qed
qed

lemma smr_inv_read:
  assumes r: "inv init0" "smr_inv M G init0 ids s g" "n \<in> set ids" and ch: "sg_ch g n = m # ms" "sg_snap g n = None"
    and h: "readApplyCh M G sz m (sg_rsm g n) = Some (rsm', snap)" and late: "\<not> sg_late g n"
  shows "smr_inv M G init0 ids s (g\<lparr>sg_rsm := (sg_rsm g)(n := rsm'), sg_ch := (sg_ch g)(n := ms), sg_snap := (sg_snap g)(n := snap),
         sg_idx := (sg_idx g)(n := msgIndex m),
         sg_done := (sg_done g)(n := sg_done g n @ executed M G m (rsm_sm (sg_rsm g n))), sg_raced := rc\<rparr>)"
proof -
  obtain sm where sm: "served init0 g n sm"
    "node_ok M G init0 (set ids) s (cl_nodes (sg_cl g) n) sm (sg_ch g n) (sg_snap g n) (sg_idx g n) (sg_done g n)"
    by (rule slot_okE [OF smr_invD(3) [OF r(2,3)]])
  have "node_ok M G init0 (set ids) s (cl_nodes (sg_cl g) n) (rsm_sm rsm') ms snap (msgIndex m)
      (sg_done g n @ executed M G m (rsm_sm (sg_rsm g n)))"
    by (rule read_ok [OF spec_reach_inv [OF smr_invD(1) [OF r(2)]] _ r(1) _ h])
      (use sm late in \<open>simp_all add: served_def flip: ch\<close>)
  note new = this
  show ?thesis
    by (rule smr_inv_same_cluster [OF r(2,3)], simp, simp add: service_def, rule slot_okI [of _ _ _ "rsm_sm rsm'"])
      (use new late in \<open>simp_all add: served_def\<close>)
qed

text \<open>The late restore finds the snapshot the node has started on, and gives the state of its index.\<close>

lemma smr_inv_restore:
  assumes r: "inv init0" "smr_inv M G init0 ids s g" "n \<in> set ids" and late: "sg_late g n"
    and h: "lateRestore M (ps_Snapshot (cl_disks (sg_cl g) n)) (sg_rsm g n) = Some rsm'"
    and same: "ps_SnapshotIndex (cl_disks (sg_cl g) n) = sg_idx g n"
  shows "smr_inv M G init0 ids s (g\<lparr>sg_rsm := (sg_rsm g)(n := rsm'), sg_late := (sg_late g)(n := False), sg_raced := rc\<rparr>)"
proof -
  let ?rf = "cl_nodes (sg_cl g) n" and ?st = "cl_disks (sg_cl g) n"
  obtain sm where sm: "served init0 g n sm"
    "node_ok M G init0 (set ids) s ?rf sm (sg_ch g n) (sg_snap g n) (sg_idx g n) (sg_done g n)"
    by (rule slot_okE [OF smr_invD(3) [OF r(2,3)]])
  have rsm: "rsm_sm (sg_rsm g n) = init0" "sg_snap g n = None" using sm(1) late by (simp_all add: served_def)
  have "?st = persistent ?rf" by (rule csimD(3) [OF smr_invD(2) [OF r(2)] r(3)])
  then have "snapOf ?rf = (sg_idx g n, ps_Snapshot ?st)" using same by (simp add: snapOf_def)
  then have "snap_ok M G init0 (set ids) s (sg_idx g n, ps_Snapshot ?st)" using node_okD(1) [OF sm(2)] by simp
  from startState_ok [OF r(1) this state_ok_nonneg [OF node_okD(2) [OF sm(2)]]] obtain sm' where
    sm': "startState M init0 (ps_Snapshot ?st) = Some sm'" "state_ok M G init0 (set ids) s (sg_idx g n) sm'" by blast
  have rsm': "rsm_sm rsm' = sm'" using h sm'(1) rsm(1) by (auto simp: lateRestore_def)
  have "node_ok M G init0 (set ids) s ?rf sm' (sg_ch g n) None (sg_idx g n) (sg_done g n)"
    using sm(2) sm'(2) by (simp add: node_ok_def)
  then show ?thesis
    by (intro smr_inv_same_cluster [OF r(2,3)] slot_okI [of _ _ _ sm']) (simp_all add: service_def served_def rsm' rsm)
qed

lemma smr_inv_snapshot:
  assumes r: "inv init0" "smr_inv M G init0 ids s g" "n \<in> set ids" and ids: "distinct ids" "'''' \<notin> set ids"
    and p: "sg_snap g n = Some (i, sn)" and h: "node_step (TakeSnapshot i sn) (cl_nodes (sg_cl g) n) = Some (rf', ms, as, ops)"
    and w: "wal_applys ops (cl_disks (sg_cl g) n) = Some st'"
  shows "\<exists>s'. smr_inv M G init0 ids s' (g\<lparr>sg_cl := acted (sg_cl g) n {#} (rf', ms, as, ops) st', sg_snap := (sg_snap g)(n := None)\<rparr>)"
proof -
  obtain sm where sm: "served init0 g n sm"
    "node_ok M G init0 (set ids) s (cl_nodes (sg_cl g) n) sm (sg_ch g n) (sg_snap g n) (sg_idx g n) (sg_done g n)"
    by (rule slot_okE [OF smr_invD(3) [OF r(2,3)]])
  note en = offered_pending [OF r p]
  have o: "\<And>x. offered (TakeSnapshot i sn) = Some x \<Longrightarrow> snap_ok M G init0 (set ids) s x" using en(2) by simp
  have "as = []" using h by auto
  then have "node_ok M G init0 (set ids) s rf' sm (sg_ch g n) None (sg_idx g n) (sg_done g n)"
    using node_ok_act(1) [OF csimD(1) [OF smr_invD(2) [OF r(2)] r(3)] sm(2) h o] by (simp add: node_ok_def)
  note new = this
  show ?thesis
    by (rule smr_inv_act [OF r(2) ids r(3) en(1) h w], simp, simp add: service_def, rule slot_okI [of _ _ _ sm])
      (use new sm(1) p in \<open>auto simp: served_def split: if_splits\<close>)
qed

lemma smr_inv_lose:
  assumes inv: "smr_inv M G init0 ids s g"
  shows "smr_inv M G init0 ids s (g\<lparr>sg_cl := (sg_cl g)\<lparr>cl_net := cl_net (sg_cl g) - {#m#}\<rparr>\<rparr>)" (is "smr_inv M G init0 ids s ?g")
proof (rule smr_invI [OF smr_invD(1) [OF inv]])
  show "csim ids s (sg_cl ?g)" using csim_lose [OF smr_invD(2) [OF inv]] by simp
  fix a b args assume a: "AppendCall a b args \<in># cl_net (sg_cl ?g)" "ae_Snapshot args \<noteq> None"
  have "AppendCall a b args \<in># cl_net (sg_cl g)" by (rule in_diffD) (use a(1) in simp)
  then show "snap_ok M G init0 (set ids) s (ae_SnapshotIndex args, ae_Snapshot args)" by (rule smr_invD(4) [OF inv _ a(2)])
qed (use smr_invD(3) [OF inv] slot_ok_service [of ?g _ g] in \<open>simp add: service_def\<close>)

lemma smr_inv_step:
  assumes r: "inv init0" and ids: "distinct ids" "'''' \<notin> set ids" and inv: "smr_inv M G init0 ids s g"
    and st: "smr_step ord M G init0 maxraftstate ids g g'" and nr: "\<not> sg_raced g'"
  shows "\<exists>s'. smr_inv M G init0 ids s' g'"
  using st
proof cases
  case (node n i rf' ms as ops st')
  show ?thesis unfolding node(1) by (rule smr_inv_internal [OF inv ids node(2-)])
next
  case (submit n ch h req rf' ops rsm' res st')
  show ?thesis unfolding submit(1) by (rule smr_inv_submit [OF inv ids submit(2-)])
next
  case (give_up n i)
  then have "service g' m = service g m" for m by (simp add: service_def Submit_give_up_def)
  note same = slot_ok_service [OF this]
  have cl: "sg_cl g' = sg_cl g" by (simp add: give_up)
  have "smr_inv M G init0 ids s g'" using inv unfolding smr_inv_def same cl .
  then show ?thesis by blast
next
  case (read n m ms sz rsm' snap)
  then have "\<not> sg_late g n" using nr by simp
  then show ?thesis unfolding read(1) using smr_inv_read [OF r inv read(2-5)] by blast
next
  case (restore n rsm')
  then have "ps_SnapshotIndex (cl_disks (sg_cl g) n) = sg_idx g n" using nr by simp
  then show ?thesis unfolding restore(1) using smr_inv_restore [OF r inv restore(2-4)] by blast
next
  case (snapshot n i sn rf' ms as ops st')
  show ?thesis unfolding snapshot(1) by (rule smr_inv_snapshot [OF r inv snapshot(2) ids snapshot(3-)])
next
  case (crash n i rf' ms as ops st' ok rsm' late)
  show ?thesis unfolding crash(1) by (rule smr_inv_crash [OF r inv crash(2) ids crash(3-)])
next
  case (lose m)
  show ?thesis unfolding lose(1) using smr_inv_lose [OF inv] by blast
qed

lemma smr_inv_reach:
  assumes r: "inv init0" and ids: "distinct ids" "'''' \<notin> set ids" and g: "smr_reach ord M G init0 maxraftstate ids g" "\<not> sg_raced g"
  shows "\<exists>s. smr_inv M G init0 ids s g"
  using g
proof (induction rule: smr_reach.induct)
  case init
  then show ?case using smr_inv_init [OF r] by blast
next
  case (step g g')
  have "\<not> sg_raced g" using step.hyps(2) step.prems by cases auto
  then show ?case using step.IH smr_inv_step [OF r ids _ step.hyps(2) step.prems] by blast
qed

text \<open>
  One log explains the whole group: every replica that is not late is in the state after a prefix of
  it, and every executed operation stands in it at its index and had the result it has there.
\<close>

lemma one_log:
  assumes r: "inv init0" and ids: "distinct ids" "'''' \<notin> set ids" and g: "smr_reach ord M G init0 maxraftstate ids g" "\<not> sg_raced g"
  shows "\<exists>L. runLog M G 1 L init0 \<noteq> None \<and>
    (\<forall>n \<in> set ids. (\<not> sg_late g n \<longrightarrow> explains M G init0 L (sg_idx g n) (rsm_sm (sg_rsm g n))) \<and>
      (\<forall>x \<in> set (sg_done g n). answers M G init0 L x))"
proof -
  obtain s where inv: "smr_inv M G init0 ids s g" using smr_inv_reach [OF assms] by blast
  let ?N = "set ids" and ?D = "\<Union>n \<in> set ids. set (sg_done g n)"
  note si = spec_reach_inv [OF smr_invD(1) [OF inv]] finite_set [of ids]
  let ?Q = "\<lambda>x P. runLog M G 1 P init0 \<noteq> None \<and> (case x of
    Inl n \<Rightarrow> explains M G init0 P (sg_idx g n) (rsm_sm (sg_rsm g n)) | Inr x \<Rightarrow> answers M G init0 P x)"
  define A where "A = Inl ` {n \<in> ?N. \<not> sg_late g n} \<union> Inr ` ?D"
  have ex: "\<exists>T P. committed ?N s T P \<and> ?Q x P" if "x \<in> A" for x
  proof (cases x)
    case (Inl n)
    then have n: "n \<in> ?N" "\<not> sg_late g n" using that by (auto simp: A_def)
    then have "state_ok M G init0 ?N s (sg_idx g n) (rsm_sm (sg_rsm g n))"
      using smr_invD(3) [OF inv n(1)] by (auto simp: slot_ok_def served_def node_ok_def)
    from state_ok_explains [OF this] show ?thesis using Inl by simp
  next
    case (Inr y)
    then have "\<exists>n. n \<in> ?N \<and> y \<in> set (sg_done g n)" using that by (auto simp: A_def)
    then obtain n where "n \<in> ?N" "y \<in> set (sg_done g n)" by blast
    then have "done_ok M G init0 ?N s y" using smr_invD(3) [OF inv, of n] by (auto simp: slot_ok_def node_ok_def)
    from done_ok_answers [OF this] show ?thesis using Inr by simp
  qed
  have "finite A" by (simp add: A_def)
  then have "\<exists>T L. committed ?N s T L \<and> (L = [] \<or> (\<exists>x. ?Q x L)) \<and> (\<forall>x \<in> A. \<exists>P. ?Q x P \<and> prefix P L)"
    by (rule committed_longest [OF si]) (rule ex)
  then obtain L where L: "L = [] \<or> (\<exists>x. ?Q x L)" "\<forall>x \<in> A. \<exists>P. ?Q x P \<and> prefix P L"
    by (elim exE conjE)
  have "explains M G init0 L (sg_idx g n) (rsm_sm (sg_rsm g n))" if "n \<in> ?N" "\<not> sg_late g n" for n
  proof -
    have "Inl n \<in> A" using that by (simp add: A_def)
    then obtain P where P: "?Q (Inl n) P" "prefix P L" using L(2) by blast
    show ?thesis by (rule explains_prefix [OF _ P(2)]) (use P(1) in simp)
  qed
  moreover have "answers M G init0 L x" if "n \<in> ?N" "x \<in> set (sg_done g n)" for n x
  proof -
    have "Inr x \<in> A" using that by (auto simp: A_def)
    then obtain P where P: "?Q (Inr x) P" "prefix P L" using L(2) by blast
    show ?thesis by (rule answers_prefix [OF _ P(2)]) (use P(1) in simp)
  qed
  moreover have "runLog M G 1 L init0 \<noteq> None" using L(1) by auto
  ultimately show ?thesis by blast
qed

text \<open>The same over requests: one history of requests explains every replica and every answer.\<close>

lemma one_history:
  assumes "inv init0" "distinct ids" "'''' \<notin> set ids" "smr_reach ord M G init0 maxraftstate ids g" "\<not> sg_raced g"
  shows "\<exists>qs. \<forall>n \<in> set ids. (\<not> sg_late g n \<longrightarrow> smAt M init0 qs (sg_idx g n) (rsm_sm (sg_rsm g n))) \<and>
    (\<forall>x \<in> set (sg_done g n). smAnswered M init0 qs x)"
proof -
  obtain L where L: "\<And>n. n \<in> set ids \<Longrightarrow> \<not> sg_late g n \<Longrightarrow> explains M G init0 L (sg_idx g n) (rsm_sm (sg_rsm g n))"
    "\<And>n x. n \<in> set ids \<Longrightarrow> x \<in> set (sg_done g n) \<Longrightarrow> answers M G init0 L x"
    using one_log [OF assms] by blast
  show ?thesis
    by (intro exI [of _ "logReqs G L"] ballI conjI impI explains_smAt answers_smAnswered) (use L in blast)+
qed

end

text \<open>Where the snapshot is restored first, no node is ever late.\<close>

lemma restore_first: "smr_reach RestoreFirst M G init0 maxraftstate ids g \<Longrightarrow> \<not> sg_raced g \<and> (\<forall>n. \<not> sg_late g n)"
proof (induction rule: smr_reach.induct)
  case (step g g')
  from step.hyps(2) show ?case by cases (use step.IH in \<open>auto simp: startRSM_def split: bind_splits\<close>)
qed (simp add: smr_init_def)

section \<open>Executions\<close>

text \<open>A run of the group without crashes, as a list of actions.\<close>

datatype 'q smrAct = ANode NodeID "bytes input" | ASubmit NodeID nat "64 word" 'q | ARead NodeID int | ARestore NodeID

fun smr_do :: "('s, 'q, 'r) StateMachine \<Rightarrow> 'q opGob \<Rightarrow> NodeID list \<Rightarrow> 'q smrAct \<Rightarrow> ('s, 'q, 'r) smr \<Rightarrow> ('s, 'q, 'r) smr option" where
  "smr_do M G ids (ANode n i) g =
     (if n \<in> set ids \<and> internal i \<and> enabled (sg_cl g) n i then do {
        (rf', ms, as, ops) \<leftarrow> node_step i (cl_nodes (sg_cl g) n);
        st' \<leftarrow> wal_applys ops (cl_disks (sg_cl g) n);
        Some (g\<lparr>sg_cl := acted (sg_cl g) n (consumed i) (rf', ms, as, ops) st', sg_ch := (sg_ch g)(n := sg_ch g n @ as)\<rparr>) }
      else None)"
| "smr_do M G ids (ASubmit n ch h req) g =
     (if n \<in> set ids then do {
        (rf', ops, rsm', res) \<leftarrow> Submit_begin G ch h req (cl_nodes (sg_cl g) n) (sg_rsm g n);
        st' \<leftarrow> wal_applys ops (cl_disks (sg_cl g) n);
        Some (g\<lparr>sg_cl := acted (sg_cl g) n {#} (rf', [], [], ops) st', sg_rsm := (sg_rsm g)(n := rsm')\<rparr>) }
      else None)"
| "smr_do M G ids (ARead n sz) g =
     (if n \<in> set ids \<and> sg_snap g n = None then
        (case sg_ch g n of [] \<Rightarrow> None
         | m # ms \<Rightarrow> do {
            (rsm', snap) \<leftarrow> readApplyCh M G sz m (sg_rsm g n);
            Some (g\<lparr>sg_rsm := (sg_rsm g)(n := rsm'), sg_ch := (sg_ch g)(n := ms), sg_snap := (sg_snap g)(n := snap),
              sg_idx := (sg_idx g)(n := msgIndex m),
              sg_done := (sg_done g)(n := sg_done g n @ executed M G m (rsm_sm (sg_rsm g n))),
              sg_raced := sg_raced g \<or> sg_late g n\<rparr>) })
      else None)"
| "smr_do M G ids (ARestore n) g =
     (if n \<in> set ids \<and> sg_late g n then do {
        rsm' \<leftarrow> lateRestore M (ps_Snapshot (cl_disks (sg_cl g) n)) (sg_rsm g n);
        Some (g\<lparr>sg_rsm := (sg_rsm g)(n := rsm'), sg_late := (sg_late g)(n := False),
          sg_raced := sg_raced g \<or> ps_SnapshotIndex (cl_disks (sg_cl g) n) \<noteq> sg_idx g n\<rparr>) }
      else None)"

fun smr_run :: "('s, 'q, 'r) StateMachine \<Rightarrow> 'q opGob \<Rightarrow> NodeID list \<Rightarrow> 'q smrAct list \<Rightarrow> ('s, 'q, 'r) smr \<Rightarrow> ('s, 'q, 'r) smr option" where
  "smr_run M G ids [] g = Some g"
| "smr_run M G ids (a # as) g = do { g' \<leftarrow> smr_do M G ids a g; smr_run M G ids as g' }"

lemma smr_do_step: "smr_do M G ids a g = Some g' \<Longrightarrow> smr_step ord M G init0 maxraftstate ids g g'"
  by (cases "(M, G, ids, a, g)" rule: smr_do.cases)
    (auto split: if_splits list.splits prod.splits bind_splits intro: smr_step.node smr_step.submit smr_step.read smr_step.restore)

lemma smr_run_reach:
  "smr_run M G ids as g = Some g' \<Longrightarrow> smr_reach ord M G init0 maxraftstate ids g \<Longrightarrow> smr_reach ord M G init0 maxraftstate ids g'"
proof (induction as arbitrary: g)
  case (Cons a as)
  then obtain g1 where "smr_do M G ids a g = Some g1" "smr_run M G ids as g1 = Some g'" by (auto split: bind_splits)
  then show ?case using Cons.IH Cons.prems(2) smr_reach.step [OF Cons.prems(2) smr_do_step] by blast
qed simp

text \<open>An execution on two nodes: an election, and a request that is replicated and executed on both.\<close>

definition demo_op :: "'q \<Rightarrow> 'q Op" where
  "demo_op q = \<lparr>op_Opcommad = q, op_HashNum = 9\<rparr>"

definition demo_opGob :: "'q \<Rightarrow> 'q opGob" where
  "demo_opGob q = \<lparr>og_enc = (\<lambda>op. Some [1]), og_dec = (\<lambda>b. Some (demo_op q))\<rparr>"

definition demo_acts :: "startOrder \<Rightarrow> 'q \<Rightarrow> 'q smrAct list" where
  "demo_acts ord q =
     (let ok = \<lparr>aer_Term = 1, aer_Success = True, aer_LastMatchIndex = 0\<rparr>;
          e = \<lparr>le_Command = Some [1], le_Term = 1\<rparr>
      in (if ord = ReaderFirst then [ARestore ''a'', ARestore ''b''] else []) @
       map (\<lambda>(n, i). ANode n i) demo_election @
       [ASubmit ''a'' 0 9 q, ANode ''a'' Heartbeat,
        ANode ''b'' (Deliver (AppendCall ''a'' ''b'' (demo_append 0 0 [e] 0))),
        ANode ''a'' (Deliver (AppendRet ''a'' ''b'' (demo_append 0 0 [e] 0) ok)), ANode ''a'' ApplyLoop, ARead ''a'' 0,
        ANode ''a'' Heartbeat, ANode ''b'' (Deliver (AppendCall ''a'' ''b'' (demo_append 1 1 [] 1))),
        ANode ''b'' ApplyLoop, ARead ''b'' 0])"

definition demo_end :: "'q \<Rightarrow> 'r \<Rightarrow> ('s, 'q, 'r) smr \<Rightarrow> bool" where
  "demo_end q res x \<longleftrightarrow> sg_idx x ''a'' = 1 \<and> sg_idx x ''b'' = 1 \<and> sg_done x ''a'' = [(1, demo_op q, res)] \<and>
     sg_done x ''b'' = [(1, demo_op q, res)] \<and> \<not> sg_late x ''a'' \<and> \<not> sg_late x ''b'' \<and> \<not> sg_raced x"

lemma demo_smr_run:
  assumes d: "sm_DoOp M 1 q s0 = Some (res, s1)"
  shows "\<exists>x. smr_run M (demo_opGob q) [''a'', ''b''] (demo_acts ord q) (smr_init ord [''a'', ''b''] (-1) s0) = Some x \<and> demo_end q res x"
  by (cases ord) (simp_all add: d demo_acts_def demo_end_def smr_init_def demo_defs acted_def Submit_begin_def GetState_def encodeOp_def decodeOp_def
    demo_opGob_def demo_op_def Submit_register_def MakeRSM_def readApplyCh_def signal_def chan_send_def msgIndex_def executed_def
    lateRestore_def startState_def)

lemma demo_smr:
  assumes "sm_DoOp M 1 q s0 = Some (res, s1)"
  obtains x where "smr_reach ord M (demo_opGob q) s0 (-1) [''a'', ''b''] x" "sg_idx x ''a'' = 1" "sg_idx x ''b'' = 1"
    "sg_done x ''a'' = [(1, demo_op q, res)]" "sg_done x ''b'' = [(1, demo_op q, res)]"
    "\<not> sg_late x ''a''" "\<not> sg_late x ''b''" "\<not> sg_raced x"
proof -
  obtain x where x: "smr_run M (demo_opGob q) [''a'', ''b''] (demo_acts ord q) (smr_init ord [''a'', ''b''] (-1) s0) = Some x"
    "demo_end q res x"
    using demo_smr_run [OF assms, of ord] by (elim exE conjE)
  show ?thesis by (rule that [OF smr_run_reach [OF x(1) smr_reach.init]]) (use x(2) in \<open>simp_all add: demo_end_def\<close>)
qed

end
