(* ===== verification/ShardCfg.thy ===== *)
theory ShardCfg
  imports Prelude
begin

text \<open>
  Shard configurations, \<open>shardkv1/shardcfg/shardcfg.go\<close>: the hash that assigns keys to shards, and
  the changes of a configuration with the balancing of the shards over the groups. The map of the
  groups is an association list, since it is only looked up, extended, shrunk and sorted; the map
  that \<open>Join\<close> gets is the list of its entries in the order in which the loop meets them. A shard
  number is a natural number. \<open>encoding/json\<close> is a parameter.
\<close>

unbundle bit_operations_syntax

definition NShards :: nat where
  "NShards = 12"

definition NumFirst :: int where
  "NumFirst = 1"

definition Gid1 :: int where
  "Gid1 = 1"

section \<open>Keys and shards\<close>

text \<open>\<open>fnv.New32a\<close> and \<open>Sum32\<close>: FNV-1a on 32 bits\<close>

fun fnv32a :: "32 word \<Rightarrow> bytes \<Rightarrow> 32 word" where
  "fnv32a h [] = h"
| "fnv32a h (b # bs) = fnv32a ((h XOR ucast b) * 16777619) bs"

definition Key2Shard :: "string \<Rightarrow> nat" where
  "Key2Shard key = unat (fnv32a 2166136261 (goBytes key)) mod NShards"

lemma Key2Shard_less [simp]: "Key2Shard key < NShards"
  by (simp add: Key2Shard_def NShards_def)

section \<open>Configurations\<close>

record ShardConfig =
  sc_Num :: int
  sc_Shards :: "int list"
  sc_Groups :: "(int \<times> string list) list"

definition MakeShardConfig :: ShardConfig where
  "MakeShardConfig = \<lparr>sc_Num = 0, sc_Shards = replicate NShards 0, sc_Groups = []\<rparr>"

definition Copy :: "ShardConfig \<Rightarrow> ShardConfig" where
  "Copy cfg = MakeShardConfig\<lparr>sc_Num := sc_Num cfg, sc_Shards := sc_Shards cfg,
     sc_Groups := map (\<lambda>(k, srvs). (k, map (\<lambda>s. s) srvs)) (sc_Groups cfg)\<rparr>"

record jsonCodec =
  js_Marshal :: "ShardConfig \<Rightarrow> string option"
  js_Unmarshal :: "string \<Rightarrow> ShardConfig option"

definition String :: "jsonCodec \<Rightarrow> ShardConfig \<Rightarrow> string option" where
  "String J cfg = js_Marshal J cfg"

definition FromString :: "jsonCodec \<Rightarrow> string \<Rightarrow> ShardConfig option" where
  "FromString J s = js_Unmarshal J s"

text \<open>
  What \<open>encoding/json\<close> documents: a configuration decodes to the same number, shards and map of
  groups, whatever the order of the groups was, if the names of the servers are valid UTF-8 (here: ASCII).
\<close>

definition sameCfg :: "ShardConfig \<Rightarrow> ShardConfig \<Rightarrow> bool" where
  "sameCfg c d \<longleftrightarrow> sc_Num c = sc_Num d \<and> sc_Shards c = sc_Shards d \<and> map_of (sc_Groups c) = map_of (sc_Groups d)"

definition asciiCfg :: "ShardConfig \<Rightarrow> bool" where
  "asciiCfg cfg \<longleftrightarrow> (\<forall>g \<in> fst ` set (sc_Groups cfg). \<forall>s \<in> set (the (map_of (sc_Groups cfg) g)). \<forall>ch \<in> set s. (of_char ch :: nat) < 128)"

definition json_ok :: "jsonCodec \<Rightarrow> bool" where
  "json_ok J \<longleftrightarrow> (\<forall>cfg. asciiCfg cfg \<longrightarrow>
     (\<exists>s cfg'. js_Marshal J cfg = Some s \<and> s \<noteq> '''' \<and> js_Unmarshal J s = Some cfg' \<and> sameCfg cfg' cfg))"

definition GidServers :: "nat \<Rightarrow> ShardConfig \<Rightarrow> (int \<times> string list \<times> bool) option" where
  "GidServers sh cfg =
     (if sh < length (sc_Shards cfg) then
        let gid = sc_Shards cfg ! sh in
        Some (case map_of (sc_Groups cfg) gid of None \<Rightarrow> (gid, [], False) | Some srvs \<Rightarrow> (gid, srvs, True))
      else None)"

fun IsMemberLoop :: "int \<Rightarrow> int list \<Rightarrow> bool" where
  "IsMemberLoop gid [] = False"
| "IsMemberLoop gid (g # gs) = (if g = gid then True else IsMemberLoop gid gs)"

definition IsMember :: "int \<Rightarrow> ShardConfig \<Rightarrow> bool" where
  "IsMember gid cfg = IsMemberLoop gid (sc_Shards cfg)"

section \<open>Balancing\<close>

text \<open>
  The groups in ascending order, with the most and the least loaded one; \<open>count_list\<close> is the map of
  counts that \<open>analyze\<close> builds first.
\<close>

definition counts :: "ShardConfig \<Rightarrow> int \<Rightarrow> int" where
  "counts c g = int (count_list (sc_Shards c) g)"

fun analyzeLoop :: "(int \<Rightarrow> int) \<Rightarrow> int list \<Rightarrow> int \<times> int \<times> int \<times> int \<Rightarrow> int \<times> int \<times> int \<times> int" where
  "analyzeLoop cnt [] r = r"
| "analyzeLoop cnt (g # gs) (mg, mn, lg, ln) =
     (let (ln', lg') = (if cnt g < ln then (cnt g, g) else (ln, lg));
          (mn', mg') = (if cnt g > mn then (cnt g, g) else (mn, mg))
      in analyzeLoop cnt gs (mg', mn', lg', ln'))"

definition analyze :: "ShardConfig \<Rightarrow> int \<times> int \<times> int \<times> int" where
  "analyze c = analyzeLoop (counts c) (sort (map fst (sc_Groups c))) (-1, -1, -1, 257)"

definition least :: "ShardConfig \<Rightarrow> int" where
  "least c = (let (mg, mn, lg, ln) = analyze c in lg)"

fun assignLoop :: "nat list \<Rightarrow> ShardConfig \<Rightarrow> ShardConfig" where
  "assignLoop [] c = c"
| "assignLoop (s # ss) c =
     (case map_of (sc_Groups c) (sc_Shards c ! s) of
        Some _ \<Rightarrow> assignLoop ss c
      | None \<Rightarrow> assignLoop ss (c\<lparr>sc_Shards := (sc_Shards c)[s := least c]\<rparr>))"

fun moveOne :: "int \<Rightarrow> int \<Rightarrow> int list \<Rightarrow> int list" where
  "moveOne mg lg [] = []"
| "moveOne mg lg (g # gs) = (if g = mg then lg # gs else g # moveOne mg lg gs)"

partial_function (option) balanceLoop :: "ShardConfig \<Rightarrow> ShardConfig option" where
  "balanceLoop c =
     (case analyze c of (mg, mn, lg, ln) \<Rightarrow>
        if mn < ln + 2 then Some c
        else balanceLoop (c\<lparr>sc_Shards := moveOne mg lg (sc_Shards c)\<rparr>))"

definition Rebalance :: "ShardConfig \<Rightarrow> ShardConfig option" where
  "Rebalance c =
     (if length (sc_Groups c) < 1 then Some (c\<lparr>sc_Shards := map (\<lambda>_. 0) (sc_Shards c)\<rparr>)
      else balanceLoop (assignLoop [0..<length (sc_Shards c)] c))"

section \<open>Joining and leaving\<close>

text \<open>The servers that two groups share end the process; a group that exists ends the loop.\<close>

fun joinLoop :: "(int \<times> string list) list \<Rightarrow> bool \<Rightarrow> ShardConfig \<Rightarrow> (ShardConfig + bool \<times> ShardConfig) option" where
  "joinLoop [] changed cfg = Some (Inr (changed, cfg))"
| "joinLoop ((gid, servers) # rest) changed cfg =
     (if map_of (sc_Groups cfg) gid \<noteq> None then Some (Inl cfg)
      else if list_ex (\<lambda>(xgid, xservers). list_ex (\<lambda>s1. list_ex (\<lambda>s2. s1 = s2) servers) xservers) (sc_Groups cfg) then None
      else joinLoop rest True (cfg\<lparr>sc_Groups := sc_Groups cfg @ [(gid, servers)]\<rparr>))"

definition Join :: "(int \<times> string list) list \<Rightarrow> ShardConfig \<Rightarrow> (bool \<times> ShardConfig) option" where
  "Join servers cfg =
     do { r \<leftarrow> joinLoop servers False cfg;
          case r of Inl cfg' \<Rightarrow> Some (False, cfg')
          | Inr (changed, cfg') \<Rightarrow> if \<not> changed then None else Some (True, cfg'\<lparr>sc_Num := sc_Num cfg' + 1\<rparr>) }"

fun leaveLoop :: "int list \<Rightarrow> bool \<Rightarrow> ShardConfig \<Rightarrow> ShardConfig + bool \<times> ShardConfig" where
  "leaveLoop [] changed cfg = Inr (changed, cfg)"
| "leaveLoop (gid # gids) changed cfg =
     (if map_of (sc_Groups cfg) gid = None then Inl cfg
      else leaveLoop gids True (cfg\<lparr>sc_Groups := filter (\<lambda>(g, _). g \<noteq> gid) (sc_Groups cfg)\<rparr>))"

definition Leave :: "int list \<Rightarrow> ShardConfig \<Rightarrow> (bool \<times> ShardConfig) option" where
  "Leave gids cfg =
     (case leaveLoop gids False cfg of
        Inl cfg' \<Rightarrow> Some (False, cfg')
      | Inr (changed, cfg') \<Rightarrow> if \<not> changed then None else Some (True, cfg'\<lparr>sc_Num := sc_Num cfg' + 1\<rparr>))"

definition JoinBalance :: "(int \<times> string list) list \<Rightarrow> ShardConfig \<Rightarrow> (bool \<times> ShardConfig) option" where
  "JoinBalance servers cfg =
     do { (ok, cfg') \<leftarrow> Join servers cfg;
          if \<not> ok then Some (False, cfg') else do { cfg'' \<leftarrow> Rebalance cfg'; Some (True, cfg'') } }"

definition LeaveBalance :: "int list \<Rightarrow> ShardConfig \<Rightarrow> (bool \<times> ShardConfig) option" where
  "LeaveBalance gids cfg =
     do { (ok, cfg') \<leftarrow> Leave gids cfg;
          if \<not> ok then Some (False, cfg') else do { cfg'' \<leftarrow> Rebalance cfg'; Some (True, cfg'') } }"

text \<open>The check of the tests, which fails the test where this is false.\<close>

fun checkLoop :: "(int \<Rightarrow> int) \<Rightarrow> int list \<Rightarrow> int \<times> int \<Rightarrow> int \<times> int" where
  "checkLoop cnt [] r = r"
| "checkLoop cnt (g # gs) (mx, mi) =
     checkLoop cnt gs (if cnt g > mx then cnt g else mx, if cnt g < mi then cnt g else mi)"

definition CheckConfig :: "int list \<Rightarrow> ShardConfig \<Rightarrow> bool" where
  "CheckConfig groups cfg \<longleftrightarrow>
     length (sc_Groups cfg) = length groups \<and>
     list_all (\<lambda>g. map_of (sc_Groups cfg) g \<noteq> None) groups \<and>
     (length groups > 0 \<longrightarrow> list_all (\<lambda>g. map_of (sc_Groups cfg) g \<noteq> None) (sc_Shards cfg)) \<and>
     (case checkLoop (counts cfg) (map fst (sc_Groups cfg)) (0, 257) of (mx, mi) \<Rightarrow> \<not> mx > mi + 1)"

section \<open>The most and the least loaded group\<close>

abbreviation gids :: "ShardConfig \<Rightarrow> int set" where
  "gids c \<equiv> fst ` set (sc_Groups c)"

definition best :: "(int \<Rightarrow> int) \<Rightarrow> int set \<Rightarrow> int \<times> int \<times> int \<times> int \<Rightarrow> bool" where
  "best cnt P r \<longleftrightarrow> (case r of (mg, mn, lg, ln) \<Rightarrow>
     if P = {} then mn = -1 \<and> ln = 257
     else mg \<in> P \<and> lg \<in> P \<and> mn = cnt mg \<and> ln = cnt lg \<and> (\<forall>g \<in> P. ln \<le> cnt g \<and> cnt g \<le> mn))"

lemma analyzeLoop_best:
  "best cnt P r \<Longrightarrow> \<forall>g \<in> set gs. 0 \<le> cnt g \<and> cnt g < 257 \<Longrightarrow> best cnt (P \<union> set gs) (analyzeLoop cnt gs r)"
proof (induction gs arbitrary: P r)
  case (Cons g gs)
  obtain mg mn lg ln where r: "r = (mg, mn, lg, ln)" by (cases r)
  let ?r = "(if cnt g > mn then g else mg, if cnt g > mn then cnt g else mn, if cnt g < ln then g else lg, if cnt g < ln then cnt g else ln)"
  have "best cnt (insert g P) ?r"
    using Cons.prems by (cases "P = {}") (auto simp: best_def r intro: order_trans less_imp_le)
  then have "best cnt (insert g P \<union> set gs) (analyzeLoop cnt gs ?r)" by (rule Cons.IH) (use Cons.prems in simp)
  moreover have "analyzeLoop cnt (g # gs) r = analyzeLoop cnt gs ?r" by (simp add: r)
  ultimately show ?case by (simp only: list.set Un_insert_left Un_insert_right)
qed simp



lemma analyze_best:
  assumes "length (sc_Shards c) \<le> 256"
  shows "best (counts c) (gids c) (analyze c)"
proof -
  have "best (counts c) ({} \<union> set (sort (map fst (sc_Groups c)))) (analyze c)"
    unfolding analyze_def
  proof (rule analyzeLoop_best)
    have "count_list (sc_Shards c) g < 257" for g using assms count_le_length [of "sc_Shards c" g] by simp
    then show "\<forall>g \<in> set (sort (map fst (sc_Groups c))). 0 \<le> counts c g \<and> counts c g < 257" by (simp add: counts_def)
  qed (simp add: best_def)
  then show ?thesis by simp
qed

lemma analyze_nonempty:
  assumes "length (sc_Shards c) \<le> 256" "sc_Groups c \<noteq> []" "analyze c = (mg, mn, lg, ln)"
  shows "mg \<in> gids c" "lg \<in> gids c" "mn = counts c mg" "ln = counts c lg"
    "g \<in> gids c \<Longrightarrow> ln \<le> counts c g \<and> counts c g \<le> mn"
  using analyze_best [OF assms(1)] assms(2,3) by (auto simp: best_def)

lemma least_member: "length (sc_Shards c) \<le> 256 \<Longrightarrow> sc_Groups c \<noteq> [] \<Longrightarrow> least c \<in> gids c"
  using analyze_nonempty(2) [of c] by (auto simp: least_def split: prod.splits)

lemma map_of_gids: "map_of (sc_Groups c) g = None \<longleftrightarrow> g \<notin> gids c"
  by (rule map_of_eq_None_iff)

section \<open>Every shard gets a group\<close>

lemma assignLoop_spec:
  assumes "length (sc_Shards c) \<le> 256" "sc_Groups c \<noteq> []" "\<forall>s \<in> set ss. s < length (sc_Shards c)"
  shows "\<exists>xs. assignLoop ss c = c\<lparr>sc_Shards := xs\<rparr> \<and> length xs = length (sc_Shards c) \<and>
    (\<forall>s \<in> set ss. xs ! s \<in> gids c) \<and> (\<forall>s. sc_Shards c ! s \<in> gids c \<longrightarrow> xs ! s = sc_Shards c ! s)"
  using assms
proof (induction ss arbitrary: c)
  case Nil
  then show ?case by (auto intro: exI [of _ "sc_Shards c"])
next
  case (Cons s ss)
  show ?case
  proof (cases "sc_Shards c ! s \<in> gids c")
    case True
    then obtain y where "map_of (sc_Groups c) (sc_Shards c ! s) = Some y" using map_of_gids by fastforce
    then have "assignLoop (s # ss) c = assignLoop ss c" by simp
    moreover obtain xs where "assignLoop ss c = c\<lparr>sc_Shards := xs\<rparr>" "length xs = length (sc_Shards c)"
      "\<forall>s \<in> set ss. xs ! s \<in> gids c" "\<forall>s. sc_Shards c ! s \<in> gids c \<longrightarrow> xs ! s = sc_Shards c ! s"
      using Cons.IH [of c] Cons.prems by auto
    ultimately show ?thesis using True by (intro exI [of _ xs]) (simp del: assignLoop.simps)
  next
    case False
    let ?c = "c\<lparr>sc_Shards := (sc_Shards c)[s := least c]\<rparr>"
    have "map_of (sc_Groups c) (sc_Shards c ! s) = None" using False by (simp only: map_of_gids not_False_eq_True)
    then have "assignLoop (s # ss) c = assignLoop ss ?c" by simp
    moreover obtain xs where xs: "assignLoop ss ?c = ?c\<lparr>sc_Shards := xs\<rparr>" "length xs = length (sc_Shards c)"
      "\<forall>s \<in> set ss. xs ! s \<in> gids c" "\<And>s'. sc_Shards ?c ! s' \<in> gids c \<Longrightarrow> xs ! s' = sc_Shards ?c ! s'"
      using Cons.IH [of ?c] Cons.prems by auto
    moreover have "xs ! s = least c" using xs(4) [of s] least_member [OF Cons.prems(1,2)] Cons.prems(3) by simp
    moreover have "xs ! s' = sc_Shards c ! s'" if "sc_Shards c ! s' \<in> gids c" for s'
      using xs(4) [of s'] that False by (cases "s' = s") auto
    ultimately show ?thesis using least_member [OF Cons.prems(1,2)] by (intro exI [of _ xs]) auto
  qed
qed

section \<open>Moving shards ends\<close>

lemma moveOne_count:
  "mg \<in> set xs \<Longrightarrow> mg \<noteq> lg \<Longrightarrow>
     count_list (moveOne mg lg xs) g = (if g = mg then count_list xs g - 1 else if g = lg then count_list xs g + 1 else count_list xs g)"
proof (induction xs)
  case (Cons x xs)
  show ?case
  proof (cases "x = mg")
    case False
    then have "mg \<in> set xs" "0 < count_list xs mg" using Cons.prems(1) count_list_0_iff [of xs mg] by auto
    then show ?thesis using Cons False by auto
  qed (use Cons.prems in auto)
qed simp

lemma moveOne_length [simp]: "length (moveOne mg lg xs) = length xs"
  by (induction xs) auto

lemma moveOne_set: "set (moveOne mg lg xs) \<subseteq> insert lg (set xs)"
  by (induction xs) auto

text \<open>The sum of the squares of the loads gets smaller with every move.\<close>

definition imbalance :: "int set \<Rightarrow> int list \<Rightarrow> nat" where
  "imbalance G xs = (\<Sum>g \<in> G. (count_list xs g)\<^sup>2)"

lemma moveOne_imbalance:
  assumes G: "finite G" "mg \<in> G" "lg \<in> G" and two: "count_list xs lg + 2 \<le> count_list xs mg"
  shows "imbalance G (moveOne mg lg xs) < imbalance G xs"
proof -
  have ne: "mg \<noteq> lg" "mg \<in> set xs" using two count_list_0_iff [of xs mg] by auto
  let ?H = "G - {mg, lg}" and ?c = "count_list xs" and ?d = "count_list (moveOne mg lg xs)"
  have split: "(\<Sum>g \<in> G. (f g)\<^sup>2) = (f mg)\<^sup>2 + (f lg)\<^sup>2 + (\<Sum>g \<in> ?H. (f g)\<^sup>2)" for f :: "int \<Rightarrow> nat"
  proof -
    have "G = insert mg (insert lg ?H)" using G by auto
    then show ?thesis using G(1) ne(1) sum.insert [of "insert lg ?H" mg "\<lambda>g. (f g)\<^sup>2"] sum.insert [of ?H lg "\<lambda>g. (f g)\<^sup>2"] by simp
  qed
  have same: "(\<Sum>g \<in> ?H. (?d g)\<^sup>2) = (\<Sum>g \<in> ?H. (?c g)\<^sup>2)"
    by (rule sum.cong) (use moveOne_count [OF ne(2,1)] in auto)
  have d: "?d mg = ?c mg - 1" "?d lg = ?c lg + 1" using moveOne_count [OF ne(2,1)] ne(1) by auto
  obtain k where k: "?c mg = ?c lg + 2 + k" using two by (metis le_add_diff_inverse)
  have "(?d mg)\<^sup>2 + (?d lg)\<^sup>2 < (?c mg)\<^sup>2 + (?c lg)\<^sup>2" unfolding d k by (simp add: power2_eq_square algebra_simps)
  then show ?thesis unfolding imbalance_def split same by simp
qed

definition balanced :: "ShardConfig \<Rightarrow> bool" where
  "balanced c \<longleftrightarrow> (\<forall>g \<in> gids c. \<forall>h \<in> gids c. counts c g \<le> counts c h + 1)"

lemma balanceLoop_total:
  assumes "length (sc_Shards c) \<le> 256" "sc_Groups c \<noteq> []" "set (sc_Shards c) \<subseteq> gids c"
  shows "\<exists>xs. balanceLoop c = Some (c\<lparr>sc_Shards := xs\<rparr>) \<and> length xs = length (sc_Shards c) \<and>
    set xs \<subseteq> gids c \<and> balanced (c\<lparr>sc_Shards := xs\<rparr>)"
  using assms
proof (induction "imbalance (gids c) (sc_Shards c)" arbitrary: c rule: less_induct)
  case less
  obtain mg mn lg ln where a: "analyze c = (mg, mn, lg, ln)" by (cases "analyze c")
  note r = analyze_nonempty [OF less.prems(1,2) a]
  show ?case
  proof (cases "mn < ln + 2")
    case True
    have "counts c g \<le> counts c h + 1" if "g \<in> gids c" "h \<in> gids c" for g h
      using True r(5) [OF that(1)] r(5) [OF that(2)] by simp
    then have "balanced c" by (simp add: balanced_def)
    then show ?thesis using True a less.prems by (intro exI [of _ "sc_Shards c"]) (simp add: balanceLoop.simps)
  next
    case False
    let ?c = "c\<lparr>sc_Shards := moveOne mg lg (sc_Shards c)\<rparr>"
    have two: "count_list (sc_Shards c) lg + 2 \<le> count_list (sc_Shards c) mg" using False r(3,4) by (simp add: counts_def)
    have smaller: "imbalance (gids ?c) (sc_Shards ?c) < imbalance (gids c) (sc_Shards c)"
      using moveOne_imbalance [OF _ r(1,2) two] by simp
    have "set (sc_Shards ?c) \<subseteq> gids ?c"
      using moveOne_set [of mg lg "sc_Shards c"] less.prems(3) r(2) by auto
    then have "\<exists>xs. balanceLoop ?c = Some (?c\<lparr>sc_Shards := xs\<rparr>) \<and> length xs = length (sc_Shards ?c) \<and>
        set xs \<subseteq> gids ?c \<and> balanced (?c\<lparr>sc_Shards := xs\<rparr>)"
      by (intro less.hyps [OF smaller]) (use less.prems in simp_all)
    then show ?thesis using False a by (simp add: balanceLoop.simps [of c])
  qed
qed

lemma Rebalance_total:
  assumes "length (sc_Shards c) = NShards"
  shows "\<exists>xs. Rebalance c = Some (c\<lparr>sc_Shards := xs\<rparr>) \<and> length xs = NShards \<and>
    (sc_Groups c \<noteq> [] \<longrightarrow> set xs \<subseteq> gids c) \<and> balanced (c\<lparr>sc_Shards := xs\<rparr>)"
proof (cases "sc_Groups c = []")
  case True
  then show ?thesis using assms by (auto simp: Rebalance_def balanced_def)
next
  case False
  have len: "length (sc_Shards c) \<le> 256" using assms by (simp add: NShards_def)
  let ?ss = "[0..<length (sc_Shards c)]"
  obtain ys where ys: "assignLoop ?ss c = c\<lparr>sc_Shards := ys\<rparr>" "length ys = length (sc_Shards c)" "\<forall>s \<in> set ?ss. ys ! s \<in> gids c"
    using assignLoop_spec [OF len False, of ?ss] by auto
  have "set ys \<subseteq> gids c" using ys(2,3) by (auto simp: in_set_conv_nth)
  then show ?thesis using balanceLoop_total [of "c\<lparr>sc_Shards := ys\<rparr>"] ys len False assms by (simp add: Rebalance_def)
qed

section \<open>What the tests check\<close>

lemma checkLoop_bounds:
  assumes "checkLoop cnt gs (mx, mi) = (a, b)" "\<And>g h. g \<in> set gs \<Longrightarrow> h \<in> set gs \<Longrightarrow> cnt g \<le> cnt h + 1"
    "\<And>g. g \<in> set gs \<Longrightarrow> mx \<le> cnt g + 1 \<and> cnt g \<le> mi + 1" "mx \<le> mi + 1"
  shows "a \<le> b + 1"
  using assms
proof (induction gs arbitrary: mx mi)
  case (Cons g gs)
  show ?case
    by (rule Cons.IH [OF Cons.prems(1) [simplified]]) (use Cons.prems(2-) in auto)
qed simp

lemma balanced_CheckConfig:
  assumes "length (sc_Shards c) = NShards" "distinct (map fst (sc_Groups c))" "sc_Groups c \<noteq> [] \<longrightarrow> set (sc_Shards c) \<subseteq> gids c"
    "balanced c" "set groups = gids c" "distinct groups"
  shows "CheckConfig groups c"
proof -
  obtain mx mi where l: "checkLoop (counts c) (map fst (sc_Groups c)) (0, 257) = (mx, mi)" by fastforce
  have cnt: "0 \<le> counts c g \<and> counts c g \<le> 12" for g
    using count_le_length [of "sc_Shards c" g] assms(1) by (simp add: counts_def NShards_def)
  have "counts c g \<le> counts c h + 1" if "g \<in> gids c" "h \<in> gids c" for g h
    using assms(4) that unfolding balanced_def by blast
  moreover have "0 \<le> counts c g + 1 \<and> counts c g \<le> 257 + 1" for g using cnt [of g] by linarith
  ultimately have "mx \<le> mi + 1" by (intro checkLoop_bounds [OF l]) (auto simp del: image_iff)
  moreover have "length (sc_Groups c) = length groups"
    using distinct_card [OF assms(2)] distinct_card [OF assms(6)] assms(5) by simp
  ultimately show ?thesis using l assms(3,5) by (auto simp: CheckConfig_def list_all_iff map_of_gids subset_iff)
qed

section \<open>Well-formed configurations\<close>

definition wf_config :: "ShardConfig \<Rightarrow> bool" where
  "wf_config c \<longleftrightarrow> length (sc_Shards c) = NShards \<and> distinct (map fst (sc_Groups c)) \<and>
     (\<forall>p \<in> set (sc_Groups c). \<forall>q \<in> set (sc_Groups c). fst p \<noteq> fst q \<longrightarrow> set (snd p) \<inter> set (snd q) = {})"

lemma wf_Rebalance: "wf_config c \<Longrightarrow> Rebalance c = Some c' \<Longrightarrow> wf_config c' \<and> sc_Num c' = sc_Num c \<and> sc_Groups c' = sc_Groups c"
proof -
  assume c: "wf_config c" "Rebalance c = Some c'"
  then obtain xs where "c' = c\<lparr>sc_Shards := xs\<rparr>" "length xs = NShards" using Rebalance_total [of c] by (auto simp: wf_config_def)
  then show ?thesis using c(1) by (simp add: wf_config_def)
qed

lemma wf_add_group:
  assumes "wf_config c" "map_of (sc_Groups c) g = None" "\<not> list_ex (\<lambda>(xg, xs). list_ex (\<lambda>s1. list_ex (\<lambda>s2. s1 = s2) ss) xs) (sc_Groups c)"
  shows "wf_config (c\<lparr>sc_Groups := sc_Groups c @ [(g, ss)]\<rparr>)"
proof -
  have "set (snd p) \<inter> set ss = {}" if "p \<in> set (sc_Groups c)" for p
    using assms(3) that by (cases p) (fastforce simp: list_ex_iff)
  moreover have "g \<notin> gids c" using assms(2) map_of_gids by blast
  ultimately show ?thesis using assms(1) by (simp add: wf_config_def ball_Un) (metis Int_commute)
qed

lemma wf_filter_groups: "wf_config c \<Longrightarrow> wf_config (c\<lparr>sc_Groups := filter P (sc_Groups c)\<rparr>)"
  by (auto simp: wf_config_def distinct_map_filter)

lemma wf_joinLoop:
  "wf_config c \<Longrightarrow> joinLoop gs ch c = Some r \<Longrightarrow> (case r of Inl c' \<Rightarrow> wf_config c' \<and> sc_Num c' = sc_Num c | Inr (_, c') \<Rightarrow> wf_config c' \<and> sc_Num c' = sc_Num c)"
proof (induction gs ch c rule: joinLoop.induct)
  case (2 gid servers rest ch cfg)
  show ?case
  proof (cases "map_of (sc_Groups cfg) gid = None")
    case True
    with 2(3) have ok: "\<not> list_ex (\<lambda>(xg, xs). list_ex (\<lambda>s1. list_ex (\<lambda>s2. s1 = s2) servers) xs) (sc_Groups cfg)"
      by (auto split: if_splits)
    let ?c = "cfg\<lparr>sc_Groups := sc_Groups cfg @ [(gid, servers)]\<rparr>"
    have "joinLoop rest True ?c = Some r" using 2(3) True ok by (simp only: joinLoop.simps not_True_eq_False if_False simp_thms)
    then have "case r of Inl c' \<Rightarrow> wf_config c' \<and> sc_Num c' = sc_Num ?c | Inr (_, c') \<Rightarrow> wf_config c' \<and> sc_Num c' = sc_Num ?c"
      using True ok by (intro 2(1) [OF _ _ wf_add_group [OF 2(2) True ok]]) simp_all
    then show ?thesis by (cases r) auto
  next
    case False
    then have "r = Inl cfg" using 2(3) by auto
    then show ?thesis using 2(2) by simp
  qed
qed auto

lemma wf_leaveLoop:
  "wf_config c \<Longrightarrow> (case leaveLoop gs ch c of Inl c' \<Rightarrow> wf_config c' \<and> sc_Num c' = sc_Num c | Inr (_, c') \<Rightarrow> wf_config c' \<and> sc_Num c' = sc_Num c)"
proof (induction gs ch c rule: leaveLoop.induct)
  case (2 gid gs ch cfg)
  let ?c = "cfg\<lparr>sc_Groups := filter (\<lambda>(g, _). g \<noteq> gid) (sc_Groups cfg)\<rparr>"
  show ?case
  proof (cases "map_of (sc_Groups cfg) gid")
    case (Some ss)
    then have "case leaveLoop gs True ?c of Inl c' \<Rightarrow> wf_config c' \<and> sc_Num c' = sc_Num ?c | Inr (_, c') \<Rightarrow> wf_config c' \<and> sc_Num c' = sc_Num ?c"
      by (intro 2(1) [OF _ wf_filter_groups [OF 2(2)]]) simp
    then show ?thesis using Some by (cases "leaveLoop gs True ?c") auto
  qed (use 2 in simp)
qed simp

lemma wf_Num [simp]: "wf_config (c\<lparr>sc_Num := n\<rparr>) = wf_config c"
  by (simp add: wf_config_def)

lemma wf_Join: "wf_config c \<Longrightarrow> Join gs c = Some (b, c') \<Longrightarrow> wf_config c' \<and> sc_Num c' = sc_Num c + (if b then 1 else 0)"
proof -
  assume c: "wf_config c" "Join gs c = Some (b, c')"
  then obtain r where r: "joinLoop gs False c = Some r" by (auto simp: Join_def split: Option.bind_splits)
  show ?thesis using wf_joinLoop [OF c(1) r] c(2) r by (cases r) (auto simp: Join_def split: if_splits)
qed

lemma wf_Leave: "wf_config c \<Longrightarrow> Leave gs c = Some (b, c') \<Longrightarrow> wf_config c' \<and> sc_Num c' = sc_Num c + (if b then 1 else 0)"
  using wf_leaveLoop [of c gs False] by (cases "leaveLoop gs False c") (auto simp: Leave_def split: if_splits)

section \<open>Joining and leaving end in a configuration that passes the check\<close>

lemma joinLoop_fresh:
  "wf_config (c\<lparr>sc_Groups := sc_Groups c @ gs\<rparr>) \<Longrightarrow>
   joinLoop gs ch c = Some (Inr (ch \<or> gs \<noteq> [], c\<lparr>sc_Groups := sc_Groups c @ gs\<rparr>))"
proof (induction gs ch c rule: joinLoop.induct)
  case (2 gid servers rest ch c)
  have fresh: "gid \<notin> gids c" using 2(2) by (auto simp: wf_config_def)
  have none: "map_of (sc_Groups c) gid = None" using fresh map_of_gids by blast
  have "set (snd p) \<inter> set servers = {}" if "p \<in> set (sc_Groups c)" for p
  proof -
    have "fst p \<noteq> gid" using that fresh by auto
    then show ?thesis using 2(2) that by (simp add: wf_config_def ball_Un)
  qed
  then have ok: "\<not> list_ex (\<lambda>(xg, xs). list_ex (\<lambda>s1. list_ex (\<lambda>s2. s1 = s2) servers) xs) (sc_Groups c)"
    by (fastforce simp: list_ex_iff)
  have "joinLoop rest True (c\<lparr>sc_Groups := sc_Groups c @ [(gid, servers)]\<rparr>) =
      Some (Inr (True, c\<lparr>sc_Groups := sc_Groups c @ (gid, servers) # rest\<rparr>))"
    using 2(1) [OF _ ok] none 2(2) by simp
  then show ?case using none ok by simp
qed simp

lemma leaveLoop_members:
  "distinct gs \<Longrightarrow> set gs \<subseteq> gids c \<Longrightarrow>
   leaveLoop gs ch c = Inr (ch \<or> gs \<noteq> [], c\<lparr>sc_Groups := filter (\<lambda>(g, _). g \<notin> set gs) (sc_Groups c)\<rparr>)"
proof (induction gs ch c rule: leaveLoop.induct)
  case (2 gid gs ch c)
  let ?c = "c\<lparr>sc_Groups := filter (\<lambda>(g, _). g \<noteq> gid) (sc_Groups c)\<rparr>"
  have some: "map_of (sc_Groups c) gid \<noteq> None" using 2(3) map_of_gids [of c gid] by auto
  have "set gs \<subseteq> gids ?c"
  proof
    fix g assume "g \<in> set gs"
    then have "g \<in> gids c" "g \<noteq> gid" using 2(2,3) by auto
    then show "g \<in> gids ?c" by force
  qed
  then have "leaveLoop gs True ?c = Inr (True, ?c\<lparr>sc_Groups := filter (\<lambda>(g, _). g \<notin> set gs) (sc_Groups ?c)\<rparr>)"
    using 2(1) [OF some] 2(2) by simp
  moreover have "filter (\<lambda>(g, _). g \<notin> set gs) (sc_Groups ?c) = filter (\<lambda>(g, _). g \<notin> set (gid # gs)) (sc_Groups c)"
    by (auto intro: filter_cong)
  ultimately show ?case using some by simp
qed simp

lemma Rebalance_checks:
  assumes "wf_config c" "set groups = gids c" "distinct groups"
  shows "\<exists>c'. Rebalance c = Some c' \<and> sc_Num c' = sc_Num c \<and> sc_Groups c' = sc_Groups c \<and> CheckConfig groups c'"
proof -
  obtain xs where xs: "Rebalance c = Some (c\<lparr>sc_Shards := xs\<rparr>)" "length xs = NShards"
      "sc_Groups c \<noteq> [] \<longrightarrow> set xs \<subseteq> gids c" "balanced (c\<lparr>sc_Shards := xs\<rparr>)"
    using Rebalance_total assms(1) unfolding wf_config_def by blast
  have "CheckConfig groups (c\<lparr>sc_Shards := xs\<rparr>)"
    by (rule balanced_CheckConfig) (use xs(2-) assms in \<open>simp_all add: wf_config_def\<close>)
  then show ?thesis using xs(1) by auto
qed


lemma JoinBalance_checks:
  assumes s: "servers \<noteq> []" "wf_config (cfg\<lparr>sc_Groups := sc_Groups cfg @ servers\<rparr>)"
  shows "\<exists>cfg'. JoinBalance servers cfg = Some (True, cfg') \<and> sc_Num cfg' = sc_Num cfg + 1 \<and>
    sc_Groups cfg' = sc_Groups cfg @ servers \<and> CheckConfig (map fst (sc_Groups cfg @ servers)) cfg'"
proof -
  let ?c = "cfg\<lparr>sc_Groups := sc_Groups cfg @ servers, sc_Num := sc_Num cfg + 1\<rparr>"
  have "Join servers cfg = Some (True, ?c)" using s(1) by (simp add: Join_def joinLoop_fresh [OF s(2)])
  moreover have "\<exists>c'. Rebalance ?c = Some c' \<and> sc_Num c' = sc_Num ?c \<and> sc_Groups c' = sc_Groups ?c \<and>
      CheckConfig (map fst (sc_Groups cfg @ servers)) c'"
    by (rule Rebalance_checks) (use s(2) in \<open>auto simp: wf_config_def\<close>)
  ultimately show ?thesis by (auto simp: JoinBalance_def)
qed

lemma LeaveBalance_checks:
  assumes wf: "wf_config cfg" and g: "gs \<noteq> []" "distinct gs" "set gs \<subseteq> gids cfg"
  shows "\<exists>cfg'. LeaveBalance gs cfg = Some (True, cfg') \<and> sc_Num cfg' = sc_Num cfg + 1 \<and>
    sc_Groups cfg' = filter (\<lambda>(g, _). g \<notin> set gs) (sc_Groups cfg) \<and>
    CheckConfig (filter (\<lambda>g. g \<notin> set gs) (map fst (sc_Groups cfg))) cfg'"
proof -
  let ?c = "cfg\<lparr>sc_Groups := filter (\<lambda>(g, _). g \<notin> set gs) (sc_Groups cfg), sc_Num := sc_Num cfg + 1\<rparr>"
  have "Leave gs cfg = Some (True, ?c)" using g(1) by (simp add: Leave_def leaveLoop_members [OF g(2,3)])
  moreover have "\<exists>c'. Rebalance ?c = Some c' \<and> sc_Num c' = sc_Num ?c \<and> sc_Groups c' = sc_Groups ?c \<and>
      CheckConfig (filter (\<lambda>g. g \<notin> set gs) (map fst (sc_Groups cfg))) c'"
  proof (rule Rebalance_checks)
    show "wf_config ?c" using wf wf_filter_groups by simp
    show "distinct (filter (\<lambda>g. g \<notin> set gs) (map fst (sc_Groups cfg)))" using wf by (simp add: wf_config_def)
  qed force
  ultimately show ?thesis by (auto simp: LeaveBalance_def)
qed

text \<open>
  C16. Joining and leaving end, and leave a configuration that passes the check of the tests. From a
  well-formed configuration, \<open>JoinBalance\<close> of groups with new ids and servers of their own returns, has
  the next number and exactly the old and the new groups; every shard is assigned to one of them and their
  loads differ by at most one. The same holds for \<open>LeaveBalance\<close> of members. The loop of \<open>Rebalance\<close>
  has no bound in the code: it ends because every move lowers the sum of the squares of the loads.
\<close>

theorem shard_balance:
  assumes "wf_config cfg"
  shows "(servers \<noteq> [] \<and> wf_config (cfg\<lparr>sc_Groups := sc_Groups cfg @ servers\<rparr>) \<longrightarrow>
      (\<exists>cfg'. JoinBalance servers cfg = Some (True, cfg') \<and> sc_Num cfg' = sc_Num cfg + 1 \<and>
        sc_Groups cfg' = sc_Groups cfg @ servers \<and> CheckConfig (map fst (sc_Groups cfg @ servers)) cfg')) \<and>
    (gs \<noteq> [] \<and> distinct gs \<and> set gs \<subseteq> fst ` set (sc_Groups cfg) \<longrightarrow>
      (\<exists>cfg'. LeaveBalance gs cfg = Some (True, cfg') \<and> sc_Num cfg' = sc_Num cfg + 1 \<and>
        sc_Groups cfg' = filter (\<lambda>(g, _). g \<notin> set gs) (sc_Groups cfg) \<and>
        CheckConfig (filter (\<lambda>g. g \<notin> set gs) (map fst (sc_Groups cfg))) cfg'))"
  using JoinBalance_checks [of servers cfg] LeaveBalance_checks [OF assms, of gs] by blast

definition demo_cfg :: ShardConfig where
  "demo_cfg = \<lparr>sc_Num = 4, sc_Shards = [1, 1, 1, 1, 1, 1, 2, 2, 2, 2, 2, 2], sc_Groups = [(1, [''s1'', ''s2'']), (2, [''s3''])]\<rparr>"

lemma shard_balance_witness:
  "(\<exists>cfg'. JoinBalance [(3, [''s4''])] demo_cfg = Some (True, cfg') \<and> sc_Num cfg' = 5 \<and> CheckConfig [1, 2, 3] cfg') \<and>
   (\<exists>cfg'. LeaveBalance [1] demo_cfg = Some (True, cfg') \<and> sc_Num cfg' = 5 \<and> CheckConfig [2] cfg')"
proof -
  have "wf_config demo_cfg" "wf_config (demo_cfg\<lparr>sc_Groups := sc_Groups demo_cfg @ [(3, [''s4''])]\<rparr>)"
    by (simp_all add: wf_config_def demo_cfg_def NShards_def)
  then show ?thesis
    using shard_balance [of demo_cfg "[(3, [''s4''])]" "[1]"] by (fastforce simp: demo_cfg_def)
qed

section \<open>Runs of configuration changes\<close>

datatype cfgOp = CfgJoin "(int \<times> string list) list" | CfgLeave "int list"

definition cfgDo :: "cfgOp \<Rightarrow> ShardConfig \<Rightarrow> (bool \<times> ShardConfig) option" where
  "cfgDo op c = (case op of CfgJoin servers \<Rightarrow> JoinBalance servers c | CfgLeave gs \<Rightarrow> LeaveBalance gs c)"

fun cfgRun :: "cfgOp list \<Rightarrow> bool \<times> ShardConfig \<Rightarrow> (bool \<times> ShardConfig) option" where
  "cfgRun [] r = Some r"
| "cfgRun (op # ops) (ok, c) = do { (b, c') \<leftarrow> cfgDo op c; cfgRun ops (ok \<and> b, c') }"

definition served :: "ShardConfig \<Rightarrow> bool" where
  "served c \<longleftrightarrow> (sc_Groups c = [] \<or> set (sc_Shards c) \<subseteq> gids c)"

lemma Rebalance_served: "wf_config c \<Longrightarrow> Rebalance c = Some c' \<Longrightarrow> wf_config c' \<and> served c'"
proof -
  assume c: "wf_config c" "Rebalance c = Some c'"
  then obtain xs where "c' = c\<lparr>sc_Shards := xs\<rparr>" "sc_Groups c \<noteq> [] \<longrightarrow> set xs \<subseteq> gids c"
    using Rebalance_total [of c] by (auto simp: wf_config_def)
  then show ?thesis using wf_Rebalance [OF c] by (auto simp: served_def)
qed

lemma cfgDo_wf: "wf_config c \<Longrightarrow> cfgDo op c = Some (b, c') \<Longrightarrow> wf_config c' \<and> (b \<longrightarrow> served c')"
proof -
  assume c: "wf_config c" "cfgDo op c = Some (b, c')"
  obtain b1 c1 where c1: "wf_config c1" "(if \<not> b1 then Some (False, c1) else do { c2 \<leftarrow> Rebalance c1; Some (True, c2) }) = Some (b, c')"
  proof (cases op)
    case (CfgJoin s)
    then obtain b1 c1 where "Join s c = Some (b1, c1)" using c(2) by (auto simp: cfgDo_def JoinBalance_def split: Option.bind_splits)
    then show ?thesis using that [of c1 b1] c(2) wf_Join [OF c(1)] CfgJoin by (simp add: cfgDo_def JoinBalance_def)
  next
    case (CfgLeave s)
    then obtain b1 c1 where "Leave s c = Some (b1, c1)" using c(2) by (auto simp: cfgDo_def LeaveBalance_def split: Option.bind_splits)
    then show ?thesis using that [of c1 b1] c(2) wf_Leave [OF c(1)] CfgLeave by (simp add: cfgDo_def LeaveBalance_def)
  qed
  then show ?thesis using Rebalance_served [OF c1(1)] by (auto split: Option.bind_splits if_splits)
qed

lemma cfgRun_wf:
  "cfgRun ops (ok, c) = Some (ok', c') \<Longrightarrow> wf_config c \<Longrightarrow> (ok \<longrightarrow> served c) \<Longrightarrow> wf_config c' \<and> (ok' \<longrightarrow> served c')"
proof (induction ops arbitrary: ok c)
  case (Cons op ops)
  then obtain b c1 where "cfgDo op c = Some (b, c1)" "cfgRun ops (ok \<and> b, c1) = Some (ok', c')"
    by (auto split: Option.bind_splits)
  then show ?case using Cons.IH [of "ok \<and> b" c1] cfgDo_wf [OF Cons.prems(2)] by blast
qed simp

text \<open>
  Looking up a key never leaves the table of shards. In every configuration that changes reach from the
  first one, refused changes included, \<open>GidServers\<close> of the shard of any key is defined (the code would end
  the process by an index out of range), and reports a group exactly where the group exists. As long as no
  change was refused and there is a group, every key has one.
\<close>

theorem shard_config_lookup:
  assumes "cfgRun ops (True, MakeShardConfig) = Some (ok, c)"
  shows "\<exists>gid srvs found. GidServers (Key2Shard key) c = Some (gid, srvs, found) \<and> wf_config c \<and>
    found = (gid \<in> fst ` set (sc_Groups c)) \<and> (ok \<and> sc_Groups c \<noteq> [] \<longrightarrow> found)"
proof -
  have "wf_config MakeShardConfig" "served MakeShardConfig"
    by (simp_all add: wf_config_def served_def MakeShardConfig_def)
  then have wf: "wf_config c" "ok \<longrightarrow> served c" using cfgRun_wf [OF assms] by auto
  let ?g = "sc_Shards c ! Key2Shard key"
  have less: "Key2Shard key < length (sc_Shards c)" using wf(1) Key2Shard_less by (simp add: wf_config_def)
  then have "ok \<and> sc_Groups c \<noteq> [] \<longrightarrow> ?g \<in> gids c" using wf(2) nth_mem [OF less] by (auto simp: served_def)
  then show ?thesis using less wf(1) map_of_gids [of c ?g]
    by (cases "map_of (sc_Groups c) ?g") (auto simp: GidServers_def)
qed

lemma shard_config_lookup_witness:
  "\<exists>c gid srvs. cfgRun [CfgJoin [(1, [''s1''])]] (True, MakeShardConfig) = Some (True, c) \<and>
     GidServers (Key2Shard ''k'') c = Some (gid, srvs, True)"
proof -
  have "wf_config (MakeShardConfig\<lparr>sc_Groups := sc_Groups MakeShardConfig @ [(1, [''s1''])]\<rparr>)"
    by (simp add: wf_config_def MakeShardConfig_def)
  then obtain c where "JoinBalance [(1, [''s1''])] MakeShardConfig = Some (True, c)" "sc_Groups c = [(1, [''s1''])]"
    using JoinBalance_checks [of "[(1, [''s1''])]" MakeShardConfig] by (auto simp: MakeShardConfig_def)
  then have "cfgRun [CfgJoin [(1, [''s1''])]] (True, MakeShardConfig) = Some (True, c)" "sc_Groups c \<noteq> []"
    by (simp_all add: cfgDo_def)
  moreover from this(1) obtain gid srvs found where "GidServers (Key2Shard ''k'') c = Some (gid, srvs, found)"
      "True \<and> sc_Groups c \<noteq> [] \<longrightarrow> found"
    using shard_config_lookup [of "[CfgJoin [(1, [''s1''])]]" True c "''k''"] by blast
  ultimately show ?thesis by simp
qed

end
