(* ===== verification/ShardGrp.thy ===== *)
theory ShardGrp
  imports Smr ShardCfg
begin

text \<open>
  A group of the sharded service: the state machine of \<open>shardkv1/shardgrp/server.go\<close>, which serves the
  shards that it owns and hands a shard over by freeze, install and delete, its RPC types
  (\<open>shardrpc.go\<close>), and its clerk (\<open>client.go\<close>). The gob encodings of a map and of a snapshot are
  parameters. A negative shard number of the source is an index out of range like one that is too large.
\<close>

section \<open>Requests and replies\<close>

datatype ShardState = NotOwned | Ready | Frozen

record FreezeShardArgs =
  fa_Shard :: nat
  fa_Num :: int

record FreezeShardReply =
  fr_State :: slice
  fr_Num :: int
  fr_Err :: Err

record InstallShardArgs =
  ia_Shard :: nat
  ia_State :: slice
  ia_Num :: int

record InstallShardReply =
  ir_Err :: Err

record DeleteShardArgs =
  da_Shard :: nat
  da_Num :: int

record DeleteShardReply =
  dr_Err :: Err

datatype grpReq = GrpGet GetArgs | GrpPut PutArgs | GrpFreeze FreezeShardArgs | GrpInstall InstallShardArgs
  | GrpDelete DeleteShardArgs | GrpOther

datatype grpRes = RGet GetReply | RPut PutReply | RFreeze FreezeShardReply | RInstall InstallShardReply
  | RDelete DeleteShardReply | RNil

section \<open>The state machine\<close>

record ShardServer =
  ss_gid :: int
  ss_kvMap :: kvMap
  ss_shardState :: "ShardState list"
  ss_cfgNum :: "int list"

record ShardSnapshot =
  sn_KvMap :: kvMap
  sn_ShardState :: "ShardState list"
  sn_CfgNum :: "int list"

record snapGob =
  sng_enc :: "ShardSnapshot \<Rightarrow> bytes option"
  sng_dec :: "bytes \<Rightarrow> ShardSnapshot option"

definition snapGob_ok :: "snapGob \<Rightarrow> bool" where
  "snapGob_ok G \<longleftrightarrow> (\<forall>s. finite (dom (sn_KvMap s)) \<longrightarrow> (\<exists>b. sng_enc G s = Some b \<and> b \<noteq> [] \<and> sng_dec G b = Some s))"

definition DoGet :: "GetArgs \<Rightarrow> ShardServer \<Rightarrow> GetReply" where
  "DoGet args kv =
     (if ss_shardState kv ! Key2Shard (ga_Key args) \<noteq> Ready then \<lparr>gr_Value = '''', gr_Version = 0, gr_Err = ErrWrongGroup\<rparr>
      else case ss_kvMap kv (ga_Key args) of
          Some value \<Rightarrow> \<lparr>gr_Value = ke_value value, gr_Version = ke_version value, gr_Err = OK\<rparr>
        | None \<Rightarrow> \<lparr>gr_Value = '''', gr_Version = 0, gr_Err = ErrNoKey\<rparr>)"

definition DoPut :: "PutArgs \<Rightarrow> ShardServer \<Rightarrow> PutReply \<times> ShardServer" where
  "DoPut args kv =
     (if ss_shardState kv ! Key2Shard (pa_Key args) \<noteq> Ready then (\<lparr>pr_Err = ErrWrongGroup\<rparr>, kv)
      else case ss_kvMap kv (pa_Key args) of
          Some value \<Rightarrow>
            if pa_Version args = ke_version value
            then (\<lparr>pr_Err = OK\<rparr>, kv\<lparr>ss_kvMap := (ss_kvMap kv)(pa_Key args \<mapsto>
                    \<lparr>ke_value = pa_Value args, ke_version = ke_version value + 1\<rparr>)\<rparr>)
            else (\<lparr>pr_Err = ErrVersion\<rparr>, kv)
        | None \<Rightarrow>
            if pa_Version args = 0
            then (\<lparr>pr_Err = OK\<rparr>, kv\<lparr>ss_kvMap := (ss_kvMap kv)(pa_Key args \<mapsto> \<lparr>ke_value = pa_Value args, ke_version = 1\<rparr>)\<rparr>)
            else (\<lparr>pr_Err = ErrNoKey\<rparr>, kv))"

text \<open>The keys of a shard, to and from bytes; an encoding or decoding error is a panic.\<close>

definition shardData :: "nat \<Rightarrow> kvMap \<Rightarrow> kvMap" where
  "shardData shard m = (\<lambda>k. if Key2Shard k = shard then m k else None)"

definition dumpShard :: "mapGob \<Rightarrow> nat \<Rightarrow> ShardServer \<Rightarrow> bytes option" where
  "dumpShard g shard kv = mg_enc g (shardData shard (ss_kvMap kv))"

definition sliceBytes :: "slice \<Rightarrow> bytes" where
  "sliceBytes s = (case s of None \<Rightarrow> [] | Some b \<Rightarrow> b)"

definition loadShard :: "mapGob \<Rightarrow> slice \<Rightarrow> ShardServer \<Rightarrow> ShardServer option" where
  "loadShard g state kv =
     (if sliceBytes state = [] then Some kv
      else do { sub \<leftarrow> mg_dec g (sliceBytes state); Some (kv\<lparr>ss_kvMap := ss_kvMap kv ++ sub\<rparr>) })"

definition deleteShardData :: "nat \<Rightarrow> ShardServer \<Rightarrow> ShardServer" where
  "deleteShardData shard kv = kv\<lparr>ss_kvMap := (\<lambda>k. if Key2Shard k = shard then None else ss_kvMap kv k)\<rparr>"

definition DoFreezeShard :: "mapGob \<Rightarrow> FreezeShardArgs \<Rightarrow> ShardServer \<Rightarrow> (FreezeShardReply \<times> ShardServer) option" where
  "DoFreezeShard g args kv =
     (let sh = fa_Shard args in
      if \<not> sh < length (ss_cfgNum kv) then None
      else if fa_Num args < ss_cfgNum kv ! sh then Some (\<lparr>fr_State = None, fr_Num = fa_Num args, fr_Err = OK\<rparr>, kv)
      else let kv' = kv\<lparr>ss_shardState := (ss_shardState kv)[sh := Frozen], ss_cfgNum := (ss_cfgNum kv)[sh := fa_Num args]\<rparr>
        in do { state \<leftarrow> dumpShard g sh kv'; Some (\<lparr>fr_State = Some state, fr_Num = fa_Num args, fr_Err = OK\<rparr>, kv') })"

definition DoInstallShard :: "mapGob \<Rightarrow> InstallShardArgs \<Rightarrow> ShardServer \<Rightarrow> (InstallShardReply \<times> ShardServer) option" where
  "DoInstallShard g args kv =
     (let sh = ia_Shard args in
      if \<not> sh < length (ss_cfgNum kv) then None
      else if ia_Num args \<le> ss_cfgNum kv ! sh then Some (\<lparr>ir_Err = OK\<rparr>, kv)
      else do { kv' \<leftarrow> loadShard g (ia_State args) kv;
                Some (\<lparr>ir_Err = OK\<rparr>, kv'\<lparr>ss_shardState := (ss_shardState kv')[sh := Ready], ss_cfgNum := (ss_cfgNum kv')[sh := ia_Num args]\<rparr>) })"

definition DoDeleteShard :: "DeleteShardArgs \<Rightarrow> ShardServer \<Rightarrow> (DeleteShardReply \<times> ShardServer) option" where
  "DoDeleteShard args kv =
     (let sh = da_Shard args in
      if \<not> sh < length (ss_cfgNum kv) then None
      else if da_Num args < ss_cfgNum kv ! sh then Some (\<lparr>dr_Err = OK\<rparr>, kv)
      else let kv' = deleteShardData sh kv
        in Some (\<lparr>dr_Err = OK\<rparr>, kv'\<lparr>ss_shardState := (ss_shardState kv')[sh := NotOwned], ss_cfgNum := (ss_cfgNum kv')[sh := da_Num args]\<rparr>))"

definition ShardServer_DoOp :: "mapGob \<Rightarrow> int \<Rightarrow> grpReq \<Rightarrow> ShardServer \<Rightarrow> (grpRes \<times> ShardServer) option" where
  "ShardServer_DoOp g index req kv = (case req of
       GrpGet args \<Rightarrow> Some (RGet (DoGet args kv), kv)
     | GrpPut args \<Rightarrow> (let (r, kv') = DoPut args kv in Some (RPut r, kv'))
     | GrpFreeze args \<Rightarrow> do { (r, kv') \<leftarrow> DoFreezeShard g args kv; Some (RFreeze r, kv') }
     | GrpInstall args \<Rightarrow> do { (r, kv') \<leftarrow> DoInstallShard g args kv; Some (RInstall r, kv') }
     | GrpDelete args \<Rightarrow> do { (r, kv') \<leftarrow> DoDeleteShard args kv; Some (RDelete r, kv') }
     | GrpOther \<Rightarrow> Some (RNil, kv))"

definition ShardServer_Snapshot :: "snapGob \<Rightarrow> ShardServer \<Rightarrow> bytes option" where
  "ShardServer_Snapshot G kv =
     sng_enc G \<lparr>sn_KvMap = ss_kvMap kv, sn_ShardState = ss_shardState kv, sn_CfgNum = ss_cfgNum kv\<rparr>"

definition ShardServer_Restore :: "snapGob \<Rightarrow> slice \<Rightarrow> ShardServer \<Rightarrow> ShardServer option" where
  "ShardServer_Restore G data kv =
     do { snapshot \<leftarrow> sng_dec G (sliceBytes data);
          Some (kv\<lparr>ss_kvMap := sn_KvMap snapshot, ss_shardState := sn_ShardState snapshot, ss_cfgNum := sn_CfgNum snapshot\<rparr>) }"

text \<open>The RPC handlers, from the result of \<open>Submit\<close> on: another type than the assertion names is a panic.\<close>

definition ShardServer_Get :: "Err \<times> grpRes option \<Rightarrow> GetReply \<Rightarrow> GetReply option" where
  "ShardServer_Get result reply =
     (let (err, res) = result in
      if err \<noteq> OK then Some (reply\<lparr>gr_Err := err\<rparr>)
      else case res of Some (RGet r) \<Rightarrow> Some (reply\<lparr>gr_Value := gr_Value r, gr_Version := gr_Version r, gr_Err := gr_Err r\<rparr>)
        | _ \<Rightarrow> None)"

definition ShardServer_Put :: "Err \<times> grpRes option \<Rightarrow> PutReply \<Rightarrow> PutReply option" where
  "ShardServer_Put result reply =
     (let (err, res) = result in
      if err \<noteq> OK then Some (reply\<lparr>pr_Err := err\<rparr>)
      else case res of Some (RPut r) \<Rightarrow> Some (reply\<lparr>pr_Err := pr_Err r\<rparr>) | _ \<Rightarrow> None)"

definition ShardServer_FreezeShard :: "Err \<times> grpRes option \<Rightarrow> FreezeShardReply \<Rightarrow> FreezeShardReply option" where
  "ShardServer_FreezeShard result reply =
     (let (err, res) = result in
      if err \<noteq> OK then Some (reply\<lparr>fr_Err := err\<rparr>) else case res of Some (RFreeze r) \<Rightarrow> Some r | _ \<Rightarrow> None)"

definition ShardServer_InstallShard :: "Err \<times> grpRes option \<Rightarrow> InstallShardReply \<Rightarrow> InstallShardReply option" where
  "ShardServer_InstallShard result reply =
     (let (err, res) = result in
      if err \<noteq> OK then Some (reply\<lparr>ir_Err := err\<rparr>) else case res of Some (RInstall r) \<Rightarrow> Some r | _ \<Rightarrow> None)"

definition ShardServer_DeleteShard :: "Err \<times> grpRes option \<Rightarrow> DeleteShardReply \<Rightarrow> DeleteShardReply option" where
  "ShardServer_DeleteShard result reply =
     (let (err, res) = result in
      if err \<noteq> OK then Some (reply\<lparr>dr_Err := err\<rparr>) else case res of Some (RDelete r) \<Rightarrow> Some r | _ \<Rightarrow> None)"

definition shardGrp :: "mapGob \<Rightarrow> snapGob \<Rightarrow> (ShardServer, grpReq, grpRes) StateMachine" where
  "shardGrp g G = \<lparr>sm_DoOp = ShardServer_DoOp g, sm_Snapshot = ShardServer_Snapshot G, sm_Restore = ShardServer_Restore G\<rparr>"

text \<open>The first group owns every shard when it starts; no group has installed any.\<close>

definition newShardServer :: "int \<Rightarrow> ShardServer" where
  "newShardServer gid = \<lparr>ss_gid = gid, ss_kvMap = Map.empty,
     ss_shardState = replicate NShards (if gid = Gid1 then Ready else NotOwned),
     ss_cfgNum = replicate NShards NumFirst\<rparr>"

definition StartServerShardGrp :: "mapGob \<Rightarrow> snapGob \<Rightarrow> int \<Rightarrow> int \<Rightarrow> slice \<Rightarrow> (ShardServer, grpRes) RSM option" where
  "StartServerShardGrp g G gid maxraftstate sn =
     map_option fst (startRSM RestoreFirst (shardGrp g G) (newShardServer gid) maxraftstate sn)"

section \<open>A replicated group\<close>

definition grp_wf :: "ShardServer \<Rightarrow> bool" where
  "grp_wf kv \<longleftrightarrow> finite (dom (ss_kvMap kv)) \<and> length (ss_shardState kv) = NShards \<and> length (ss_cfgNum kv) = NShards"

lemma newShardServer_wf [simp]: "grp_wf (newShardServer gid)"
  by (simp add: grp_wf_def newShardServer_def)

lemma finite_shardData [simp]: "finite (dom m) \<Longrightarrow> finite (dom (shardData sh m))"
  by (rule finite_subset [of _ "dom m"]) (auto simp: shardData_def split: if_splits)

lemma DoPut_wf: "grp_wf kv \<Longrightarrow> DoPut a kv = (r, kv') \<Longrightarrow> grp_wf kv' \<and> ss_gid kv' = ss_gid kv"
  by (auto simp: DoPut_def grp_wf_def split: if_splits option.splits)

lemma DoFreezeShard_wf: "grp_wf kv \<Longrightarrow> DoFreezeShard g a kv = Some (r, kv') \<Longrightarrow> grp_wf kv' \<and> ss_gid kv' = ss_gid kv"
  by (auto simp: DoFreezeShard_def grp_wf_def Let_def split: if_splits bind_splits)

text \<open>A decoded map is finite, as every Go map.\<close>

definition mapGob_finite :: "mapGob \<Rightarrow> bool" where
  "mapGob_finite g \<longleftrightarrow> (\<forall>b m. mg_dec g b = Some m \<longrightarrow> finite (dom m))"

lemma DoInstallShard_wf:
  "mapGob_finite g \<Longrightarrow> grp_wf kv \<Longrightarrow> DoInstallShard g a kv = Some (r, kv') \<Longrightarrow> grp_wf kv' \<and> ss_gid kv' = ss_gid kv"
  by (auto simp: DoInstallShard_def loadShard_def grp_wf_def mapGob_finite_def Let_def split: if_splits bind_splits)

lemma DoDeleteShard_wf: "grp_wf kv \<Longrightarrow> DoDeleteShard a kv = Some (r, kv') \<Longrightarrow> grp_wf kv' \<and> ss_gid kv' = ss_gid kv"
  by (auto simp: DoDeleteShard_def deleteShardData_def grp_wf_def Let_def split: if_splits elim: finite_subset [rotated])

lemma DoOp_wf:
  assumes "mapGob_finite g" "grp_wf kv" "ShardServer_DoOp g i q kv = Some (r, kv')"
  shows "grp_wf kv' \<and> ss_gid kv' = ss_gid kv"
proof (cases q)
  case (GrpPut a)
  then show ?thesis using assms(3) DoPut_wf [OF assms(2), of a] by (auto simp: ShardServer_DoOp_def split: prod.splits)
next
  case (GrpFreeze a)
  then show ?thesis using assms(3) DoFreezeShard_wf [OF assms(2), of g a] by (auto simp: ShardServer_DoOp_def split: bind_splits)
next
  case (GrpInstall a)
  then show ?thesis using assms(3) DoInstallShard_wf [OF assms(1,2), of a] by (auto simp: ShardServer_DoOp_def split: bind_splits)
next
  case (GrpDelete a)
  then show ?thesis using assms(3) DoDeleteShard_wf [OF assms(2), of a] by (auto simp: ShardServer_DoOp_def split: bind_splits)
qed (use assms(2,3) in \<open>simp_all add: ShardServer_DoOp_def\<close>)

interpretation sgm: state_machine "shardGrp g G" "\<lambda>kv. grp_wf kv \<and> ss_gid kv = gid \<and> mapGob_finite g \<and> snapGob_ok G" for g G gid
proof unfold_locales
  fix sm i q r sm'
  assume "grp_wf sm \<and> ss_gid sm = gid \<and> mapGob_finite g \<and> snapGob_ok G" "sm_DoOp (shardGrp g G) i q sm = Some (r, sm')"
  then show "grp_wf sm' \<and> ss_gid sm' = gid \<and> mapGob_finite g \<and> snapGob_ok G"
    using DoOp_wf [of g sm i q r sm'] by (simp add: shardGrp_def)
next
  fix sm sm0 b
  assume a: "grp_wf sm \<and> ss_gid sm = gid \<and> mapGob_finite g \<and> snapGob_ok G"
    "grp_wf sm0 \<and> ss_gid sm0 = gid \<and> mapGob_finite g \<and> snapGob_ok G" "sm_Snapshot (shardGrp g G) sm = Some b"
  let ?s = "\<lparr>sn_KvMap = ss_kvMap sm, sn_ShardState = ss_shardState sm, sn_CfgNum = ss_cfgNum sm\<rparr>"
  have "finite (dom (sn_KvMap ?s))" using a(1) by (simp add: grp_wf_def)
  then obtain b' where "sng_enc G ?s = Some b'" "b' \<noteq> []" "sng_dec G b' = Some ?s"
    using a(1) unfolding snapGob_ok_def by blast
  then show "b \<noteq> [] \<and> sm_Restore (shardGrp g G) (Some b) sm0 = Some sm"
    using a by (cases sm, cases sm0) (simp add: shardGrp_def ShardServer_Snapshot_def ShardServer_Restore_def sliceBytes_def)
qed

text \<open>
  C10. A shard group is one server. In every state that a replicated group reaches, with lost and reordered
  messages, crashes at any point of the writes, and snapshots taken, sent and restored, one list of requests
  explains all replicas: each has executed a prefix of the list from the state a group starts in, and every
  answer that a replica has computed, also to a freeze, an install or a delete, is that of the request at its
  place in the list.
\<close>

theorem shardgrp_one_copy:
  assumes "distinct ids" "'''' \<notin> set ids" "mapGob_finite g" "snapGob_ok G"
    and "smr_reach RestoreFirst (shardGrp g G) og (newShardServer gid) maxraftstate ids x"
  shows "\<exists>qs. \<forall>n \<in> set ids. smAt (shardGrp g G) (newShardServer gid) qs (sg_idx x n) (rsm_sm (sg_rsm x n)) \<and>
    (\<forall>y \<in> set (sg_done x n). smAnswered (shardGrp g G) (newShardServer gid) qs y)"
  using sgm.one_history [OF _ assms(1,2,5)] restore_first [OF assms(5)] assms(3,4) by (simp add: newShardServer_def [of gid] grp_wf_def)

section \<open>The shards of a group are independent\<close>

text \<open>What a group knows of one shard, and what a request does to it.\<close>

type_synonym shardView = "ShardState \<times> int \<times> kvMap"

definition viewOf :: "nat \<Rightarrow> ShardServer \<Rightarrow> shardView" where
  "viewOf sh kv = (ss_shardState kv ! sh, ss_cfgNum kv ! sh, shardData sh (ss_kvMap kv))"

definition reqShard :: "grpReq \<Rightarrow> nat" where
  "reqShard q = (case q of GrpGet a \<Rightarrow> Key2Shard (ga_Key a) | GrpPut a \<Rightarrow> Key2Shard (pa_Key a)
     | GrpFreeze a \<Rightarrow> fa_Shard a | GrpInstall a \<Rightarrow> ia_Shard a | GrpDelete a \<Rightarrow> da_Shard a | GrpOther \<Rightarrow> NShards)"

definition stateData :: "mapGob \<Rightarrow> slice \<Rightarrow> kvMap option" where
  "stateData g state = (if sliceBytes state = [] then Some Map.empty else mg_dec g (sliceBytes state))"

definition viewStep :: "mapGob \<Rightarrow> grpReq \<Rightarrow> shardView \<Rightarrow> shardView" where
  "viewStep g q v = (case v of (st, n, d) \<Rightarrow> case q of
       GrpPut a \<Rightarrow> if st = Ready then (st, n, kvMap (fst (KVServer_Put a \<lparr>kvMap = d\<rparr>))) else v
     | GrpFreeze a \<Rightarrow> if fa_Num a < n then v else (Frozen, fa_Num a, d)
     | GrpInstall a \<Rightarrow> if ia_Num a \<le> n then v else (Ready, ia_Num a, d ++ the (stateData g (ia_State a)))
     | GrpDelete a \<Rightarrow> if da_Num a < n then v else (NotOwned, da_Num a, Map.empty)
     | _ \<Rightarrow> v)"

definition viewAnswer :: "mapGob \<Rightarrow> grpReq \<Rightarrow> shardView \<Rightarrow> grpRes" where
  "viewAnswer g q v = (case v of (st, n, d) \<Rightarrow> case q of
       GrpGet a \<Rightarrow> RGet (if st = Ready then KVServer_Get a \<lparr>kvMap = d\<rparr> else \<lparr>gr_Value = '''', gr_Version = 0, gr_Err = ErrWrongGroup\<rparr>)
     | GrpPut a \<Rightarrow> RPut (if st = Ready then snd (KVServer_Put a \<lparr>kvMap = d\<rparr>) else \<lparr>pr_Err = ErrWrongGroup\<rparr>)
     | GrpFreeze a \<Rightarrow> RFreeze \<lparr>fr_State = (if fa_Num a < n then None else mg_enc g d), fr_Num = fa_Num a, fr_Err = OK\<rparr>
     | GrpInstall a \<Rightarrow> RInstall \<lparr>ir_Err = OK\<rparr>
     | GrpDelete a \<Rightarrow> RDelete \<lparr>dr_Err = OK\<rparr>
     | GrpOther \<Rightarrow> RNil)"

text \<open>A request to install carries keys of its shard only.\<close>

definition reqData_ok :: "mapGob \<Rightarrow> grpReq \<Rightarrow> bool" where
  "reqData_ok g q = (case q of GrpInstall a \<Rightarrow> (case stateData g (ia_State a) of None \<Rightarrow> True | Some m \<Rightarrow> shardData (ia_Shard a) m = m) | _ \<Rightarrow> True)"

lemma shardData_upd: "shardData sh (m(k \<mapsto> e)) = (if Key2Shard k = sh then (shardData sh m)(k \<mapsto> e) else shardData sh m)"
  by (auto simp: shardData_def)

lemma shardData_at: "Key2Shard k = sh \<Longrightarrow> shardData sh m k = m k"
  by (simp add: shardData_def)

lemma shardData_add: "shardData sh (m ++ m') = shardData sh m ++ shardData sh m'"
  by (auto simp: shardData_def map_add_def)

lemma shardData_twice [simp]: "shardData sh (shardData sh m) = shardData sh m"
  by (auto simp: shardData_def)

lemma shardData_other: "shardData sh m = m \<Longrightarrow> sh \<noteq> sh' \<Longrightarrow> shardData sh' m = Map.empty"
  by (rule ext) (metis shardData_def)

lemma DoGet_view: "RGet (DoGet a kv) = viewAnswer g (GrpGet a) (viewOf (Key2Shard (ga_Key a)) kv)"
  by (auto simp: DoGet_def viewAnswer_def viewOf_def KVServer_Get_def shardData_at split: option.splits)

lemma DoPut_view:
  assumes "DoPut a kv = (r, kv')"
  shows "RPut r = viewAnswer g (GrpPut a) (viewOf (Key2Shard (pa_Key a)) kv)"
    "viewOf sh kv' = (if sh = Key2Shard (pa_Key a) then viewStep g (GrpPut a) (viewOf sh kv) else viewOf sh kv)"
  using assms by (auto simp: DoPut_def viewAnswer_def viewStep_def viewOf_def KVServer_Put_def shardData_at shardData_upd
      split: option.splits if_splits)

lemma DoFreezeShard_view:
  assumes "grp_wf kv" "DoFreezeShard g a kv = Some (r, kv')"
  shows "fa_Shard a < NShards" "RFreeze r = viewAnswer g (GrpFreeze a) (viewOf (fa_Shard a) kv)"
    "viewOf sh kv' = (if sh = fa_Shard a then viewStep g (GrpFreeze a) (viewOf sh kv) else viewOf sh kv)"
  using assms by (auto simp: DoFreezeShard_def grp_wf_def dumpShard_def viewOf_def viewAnswer_def viewStep_def Let_def
      split: if_splits bind_splits)

lemma loadShard_data: "loadShard g st kv = map_option (\<lambda>m. kv\<lparr>ss_kvMap := ss_kvMap kv ++ m\<rparr>) (stateData g st)"
  by (simp add: loadShard_def stateData_def map_option_case split: option.splits)

lemma DoInstallShard_view:
  assumes "grp_wf kv" "reqData_ok g (GrpInstall a)" "DoInstallShard g a kv = Some (r, kv')"
  shows "ia_Shard a < NShards" "RInstall r = viewAnswer g (GrpInstall a) (viewOf (ia_Shard a) kv)"
    "viewOf sh kv' = (if sh = ia_Shard a then viewStep g (GrpInstall a) (viewOf sh kv) else viewOf sh kv)"
proof -
  show "ia_Shard a < NShards" using assms by (auto simp: DoInstallShard_def grp_wf_def Let_def split: if_splits)
  show "RInstall r = viewAnswer g (GrpInstall a) (viewOf (ia_Shard a) kv)"
    using assms(3) by (auto simp: DoInstallShard_def viewAnswer_def viewOf_def Let_def split: if_splits bind_splits)
  show "viewOf sh kv' = (if sh = ia_Shard a then viewStep g (GrpInstall a) (viewOf sh kv) else viewOf sh kv)"
  proof (cases "ia_Num a \<le> ss_cfgNum kv ! ia_Shard a")
    case True
    then show ?thesis using assms(3) by (auto simp: DoInstallShard_def viewStep_def viewOf_def Let_def split: if_splits)
  next
    case False
    then obtain m where m: "stateData g (ia_State a) = Some m"
        "kv' = kv\<lparr>ss_kvMap := ss_kvMap kv ++ m, ss_shardState := (ss_shardState kv)[ia_Shard a := Ready], ss_cfgNum := (ss_cfgNum kv)[ia_Shard a := ia_Num a]\<rparr>"
      using assms(3) by (auto simp: DoInstallShard_def loadShard_data Let_def split: if_splits bind_splits)
    have d: "shardData (ia_Shard a) m = m" using assms(2) m(1) by (simp add: reqData_ok_def)
    show ?thesis
    proof (cases "sh = ia_Shard a")
      case True
      then show ?thesis using False m d assms(1,3)
        by (auto simp: viewOf_def viewStep_def shardData_add grp_wf_def DoInstallShard_def Let_def split: if_splits)
    next
      case other: False
      then show ?thesis using m(2) shardData_other [OF d, of sh] by (simp add: viewOf_def shardData_add)
    qed
  qed
qed

lemma DoDeleteShard_view:
  assumes "grp_wf kv" "DoDeleteShard a kv = Some (r, kv')"
  shows "da_Shard a < NShards" "RDelete r = viewAnswer g (GrpDelete a) (viewOf (da_Shard a) kv)"
    "viewOf sh kv' = (if sh = da_Shard a then viewStep g (GrpDelete a) (viewOf sh kv) else viewOf sh kv)"
proof -
  show "da_Shard a < NShards" "RDelete r = viewAnswer g (GrpDelete a) (viewOf (da_Shard a) kv)"
    using assms by (auto simp: DoDeleteShard_def grp_wf_def viewAnswer_def viewOf_def Let_def split: if_splits)
  have "shardData sh (ss_kvMap (deleteShardData (da_Shard a) kv)) = (if sh = da_Shard a then Map.empty else shardData sh (ss_kvMap kv))"
    by (auto simp: shardData_def deleteShardData_def)
  then show "viewOf sh kv' = (if sh = da_Shard a then viewStep g (GrpDelete a) (viewOf sh kv) else viewOf sh kv)"
    using assms by (auto simp: DoDeleteShard_def grp_wf_def viewOf_def viewStep_def Let_def deleteShardData_def split: if_splits)
qed

lemma DoOp_view:
  assumes "grp_wf kv" "reqData_ok g q" "ShardServer_DoOp g i q kv = Some (r, kv')"
  shows "r = viewAnswer g q (viewOf (reqShard q) kv)"
    and "viewOf sh kv' = (if sh = reqShard q then viewStep g q (viewOf sh kv) else viewOf sh kv)"
    and "q \<noteq> GrpOther \<Longrightarrow> reqShard q < NShards"
proof -
  have "r = viewAnswer g q (viewOf (reqShard q) kv) \<and>
      viewOf sh kv' = (if sh = reqShard q then viewStep g q (viewOf sh kv) else viewOf sh kv) \<and> (q \<noteq> GrpOther \<longrightarrow> reqShard q < NShards)"
  proof (cases q)
    case (GrpGet a)
    have r: "r = RGet (DoGet a kv)" "kv' = kv" using GrpGet assms(3) by (auto simp: ShardServer_DoOp_def)
    show ?thesis unfolding GrpGet r DoGet_view [of a kv g] by (simp add: reqShard_def viewStep_def split: prod.splits)
  next
    case (GrpPut a)
    obtain p kv1 where p: "DoPut a kv = (p, kv1)" by fastforce
    have r: "r = RPut p" "kv' = kv1" using GrpPut p assms(3) by (simp_all add: ShardServer_DoOp_def)
    show ?thesis unfolding GrpPut r DoPut_view(1) [OF p, of g] DoPut_view(2) [OF p, of sh g] by (simp add: reqShard_def)
  next
    case (GrpFreeze a)
    then obtain p where p: "DoFreezeShard g a kv = Some (p, kv')" "r = RFreeze p" using assms(3)
      by (auto simp: ShardServer_DoOp_def split: bind_splits)
    show ?thesis unfolding GrpFreeze p(2) DoFreezeShard_view(2,3) [OF assms(1) p(1)]
      using DoFreezeShard_view(1) [OF assms(1) p(1)] by (simp add: reqShard_def)
  next
    case (GrpInstall a)
    then obtain p where p: "DoInstallShard g a kv = Some (p, kv')" "r = RInstall p" using assms(3)
      by (auto simp: ShardServer_DoOp_def split: bind_splits)
    note v = DoInstallShard_view [OF assms(1) assms(2) [unfolded GrpInstall] p(1)]
    show ?thesis unfolding GrpInstall p(2) v(2,3) using v(1) by (simp add: reqShard_def)
  next
    case (GrpDelete a)
    then obtain p where p: "DoDeleteShard a kv = Some (p, kv')" "r = RDelete p" using assms(3)
      by (auto simp: ShardServer_DoOp_def split: bind_splits)
    show ?thesis unfolding GrpDelete p(2) DoDeleteShard_view(2) [OF assms(1) p(1), of g] DoDeleteShard_view(3) [OF assms(1) p(1), of sh g]
      using DoDeleteShard_view(1) [OF assms(1) p(1)] by (simp add: reqShard_def)
  next
    case GrpOther
    then show ?thesis using assms(3) by (simp add: ShardServer_DoOp_def viewAnswer_def viewStep_def split: prod.splits)
  qed
  then show "r = viewAnswer g q (viewOf (reqShard q) kv)"
    "viewOf sh kv' = (if sh = reqShard q then viewStep g q (viewOf sh kv) else viewOf sh kv)"
    "q \<noteq> GrpOther \<Longrightarrow> reqShard q < NShards" by auto
qed

definition validReq :: "mapGob \<Rightarrow> grpReq \<Rightarrow> bool" where
  "validReq g q \<longleftrightarrow> q \<noteq> GrpOther \<and> reqShard q < NShards \<and> reqData_ok g q \<and>
     (case q of GrpInstall a \<Rightarrow> stateData g (ia_State a) \<noteq> None | _ \<Rightarrow> True)"

lemma DoOp_total:
  assumes "grp_wf kv" "mapGob_ok g" "validReq g q"
  shows "\<exists>r kv'. ShardServer_DoOp g i q kv = Some (r, kv')"
proof -
  have len: "length (ss_cfgNum kv) = NShards" and fin: "finite (dom (ss_kvMap kv))" using assms(1) by (simp_all add: grp_wf_def)
  show ?thesis
  proof (cases q)
    case (GrpFreeze a)
    obtain b where "mg_enc g (shardData (fa_Shard a) (ss_kvMap kv)) = Some b"
      using assms(2) finite_shardData [OF fin] unfolding mapGob_ok_def by blast
    then show ?thesis using GrpFreeze assms(3) len
      by (auto simp: ShardServer_DoOp_def DoFreezeShard_def dumpShard_def validReq_def reqShard_def Let_def)
  next
    case (GrpInstall a)
    then show ?thesis using assms(3) len
      by (auto simp: ShardServer_DoOp_def DoInstallShard_def loadShard_data validReq_def reqShard_def Let_def)
  qed (use assms(3) len in \<open>auto simp: ShardServer_DoOp_def DoDeleteShard_def validReq_def reqShard_def Let_def split: prod.splits\<close>)
qed

text \<open>
  C20. The shards of a group are independent, and each is a small state machine of its own. A request on a
  shard that exists, whose data decodes to keys of that shard, does not panic; its answer and its effect on the
  shard depend only on the state, the number and the data that the group has for this shard, as \<open>viewStep\<close>
  and \<open>viewAnswer\<close> say: a ready shard answers like the single server, a freeze that is not stale stops
  it and returns its data, an install takes effect only with a higher number, a delete only with one that is not
  lower. Every other shard stays as it is.
\<close>

theorem shardgrp_shards_independent:
  assumes "grp_wf kv" "mapGob_ok g" "mapGob_finite g" "validReq g q"
  shows "\<exists>r kv'. ShardServer_DoOp g i q kv = Some (r, kv') \<and> grp_wf kv' \<and>
    r = viewAnswer g q (viewOf (reqShard q) kv) \<and> viewOf (reqShard q) kv' = viewStep g q (viewOf (reqShard q) kv) \<and>
    (\<forall>sh. sh \<noteq> reqShard q \<longrightarrow> viewOf sh kv' = viewOf sh kv)"
proof -
  obtain r kv' where d: "ShardServer_DoOp g i q kv = Some (r, kv')" using DoOp_total [OF assms(1,2,4)] by blast
  have "reqData_ok g q" using assms(4) by (simp add: validReq_def)
  note v = DoOp_view [OF assms(1) this d]
  show ?thesis using d v DoOp_wf [OF assms(3,1) d] by auto
qed

section \<open>Examples\<close>

definition stateCode :: "ShardState \<Rightarrow> nat" where
  "stateCode st = (case st of NotOwned \<Rightarrow> 0 | Ready \<Rightarrow> 1 | Frozen \<Rightarrow> 2)"

definition codeState :: "nat \<Rightarrow> ShardState" where
  "codeState c = (if c = 0 then NotOwned else if c = 1 then Ready else Frozen)"

lemma codeState_stateCode [simp]: "codeState (stateCode st) = st"
  by (cases st) (simp_all add: codeState_def stateCode_def)

definition demo_snapGob :: snapGob where
  "demo_snapGob = \<lparr>
     sng_enc = (\<lambda>s. Some (packed (mapEntries (sn_KvMap s), map stateCode (sn_ShardState s), sn_CfgNum s))),
     sng_dec = (\<lambda>b. case unpacked b of (m, sts, ns) \<Rightarrow> Some
       \<lparr>sn_KvMap = map_of (map (\<lambda>(k, v, n). (k, \<lparr>ke_value = v, ke_version = n\<rparr>)) m),
        sn_ShardState = map codeState sts, sn_CfgNum = ns\<rparr>)\<rparr>"

lemma demo_snapGob_ok: "snapGob_ok demo_snapGob"
  by (simp add: snapGob_ok_def demo_snapGob_def map_of_mapEntries comp_def)

lemma demo_mapGob_finite: "mapGob_finite demo_mapGob"
  by (auto simp: mapGob_finite_def demo_mapGob_def finite_dom_map_of)

definition demo_freeze :: grpReq where
  "demo_freeze = GrpFreeze \<lparr>fa_Shard = 3, fa_Num = 2\<rparr>"

definition demo_shardPut :: grpReq where
  "demo_shardPut = GrpPut \<lparr>pa_Key = ''x'', pa_Value = ''1'', pa_Version = 0\<rparr>"

lemma shardgrp_shards_independent_witness:
  "\<exists>r kv'. ShardServer_DoOp demo_mapGob 1 demo_freeze (newShardServer 1) = Some (r, kv') \<and>
     viewOf 3 kv' = (Frozen, 2, Map.empty) \<and> viewOf 4 kv' = (Ready, 1, Map.empty)"
proof -
  have "validReq demo_mapGob demo_freeze" by (simp add: validReq_def demo_freeze_def reqShard_def reqData_ok_def NShards_def)
  from shardgrp_shards_independent [OF newShardServer_wf demo_mapGob_ok demo_mapGob_finite this, of 1 1]
  show ?thesis by (force simp: demo_freeze_def reqShard_def viewOf_def viewStep_def newShardServer_def NShards_def Gid1_def NumFirst_def shardData_def)
qed

lemma shardgrp_one_copy_witness:
  "\<exists>x qs. smr_reach RestoreFirst (shardGrp demo_mapGob demo_snapGob) (demo_opGob demo_shardPut) (newShardServer 1) (-1) [''a'', ''b''] x \<and>
     sg_done x ''a'' = [(1, demo_op demo_shardPut, RPut \<lparr>pr_Err = OK\<rparr>)] \<and>
     smAt (shardGrp demo_mapGob demo_snapGob) (newShardServer 1) qs 1 (rsm_sm (sg_rsm x ''b'')) \<and>
     smAnswered (shardGrp demo_mapGob demo_snapGob) (newShardServer 1) qs (1, demo_op demo_shardPut, RPut \<lparr>pr_Err = OK\<rparr>)"
proof -
  obtain s1 where s1: "sm_DoOp (shardGrp demo_mapGob demo_snapGob) 1 demo_shardPut (newShardServer 1) = Some (RPut \<lparr>pr_Err = OK\<rparr>, s1)"
    by (simp add: shardGrp_def ShardServer_DoOp_def DoPut_def demo_shardPut_def newShardServer_def Gid1_def)
  obtain x where x: "smr_reach RestoreFirst (shardGrp demo_mapGob demo_snapGob) (demo_opGob demo_shardPut) (newShardServer 1) (-1) [''a'', ''b''] x"
    "sg_idx x ''a'' = 1" "sg_idx x ''b'' = 1"
    "sg_done x ''a'' = [(1, demo_op demo_shardPut, RPut \<lparr>pr_Err = OK\<rparr>)]" "sg_done x ''b'' = [(1, demo_op demo_shardPut, RPut \<lparr>pr_Err = OK\<rparr>)]"
    "\<not> sg_late x ''a''" "\<not> sg_late x ''b''" "\<not> sg_raced x"
    by (rule demo_smr [OF s1])
  have ids: "distinct [''a'', ''b'']" "'''' \<notin> set [''a'', ''b'']" by simp_all
  from shardgrp_one_copy [OF ids demo_mapGob_finite demo_snapGob_ok x(1)] obtain qs where "\<forall>n \<in> set [''a'', ''b''].
      smAt (shardGrp demo_mapGob demo_snapGob) (newShardServer 1) qs (sg_idx x n) (rsm_sm (sg_rsm x n)) \<and>
      (\<forall>y \<in> set (sg_done x n). smAnswered (shardGrp demo_mapGob demo_snapGob) (newShardServer 1) qs y)" by (elim exE)
  then show ?thesis using x by (intro exI [of _ x] exI [of _ qs]) simp
qed

end
