(* ===== verification/ShardCtrl.thy ===== *)
theory ShardCtrl
  imports ShardGrp
begin

text \<open>
  The controller of the sharded service, \<open>shardkv1/shardctrler/shardctrler.go\<close>. It keeps the current
  and the next configuration under two keys of a single-machine key/value server and moves shards between
  groups. A controller is always at one of its remote calls: \<open>ctlCallOf\<close> is the call it waits for, and
  \<open>ctlResume\<close> is the code from the reply on to the next call. \<open>None\<close> is a panic or
  \<open>log.Fatalf\<close>.
\<close>

section \<open>Calls and replies\<close>

datatype ctlCall = CallGet string | CallPut PutArgs | CallGrp int grpReq
datatype ctlReply = GotGet "string \<times> Tversion \<times> Err" | GotPut Err | GotGrp grpRes

text \<open>
  The positions: in \<open>InitController\<close>, in \<open>ChangeConfigTo\<close>, in \<open>migrate\<close> at a shard, and at the
  last put of both.
\<close>

datatype ctlPc = CtlIdle
  | InitCur | InitNext "ShardConfig option"
  | ChgQuery ShardConfig | ChgNext ShardConfig ShardConfig | ChgReread ShardConfig ShardConfig
  | MigFreeze ShardConfig ShardConfig nat | MigInstall ShardConfig ShardConfig nat slice | MigDelete ShardConfig ShardConfig nat
  | Publish ShardConfig

definition putCfg :: "jsonCodec \<Rightarrow> string \<Rightarrow> ShardConfig \<Rightarrow> int \<Rightarrow> PutArgs option" where
  "putCfg J key cfg version = do { s \<leftarrow> String J cfg; Some \<lparr>pa_Key = key, pa_Value = s, pa_Version = word_of_int version\<rparr> }"

definition ctlCallOf :: "jsonCodec \<Rightarrow> ctlPc \<Rightarrow> ctlCall option" where
  "ctlCallOf J pc = (case pc of
       CtlIdle \<Rightarrow> None
     | InitCur \<Rightarrow> Some (CallGet ''cfg'')
     | InitNext cur \<Rightarrow> Some (CallGet ''next'')
     | ChgQuery new \<Rightarrow> Some (CallGet ''cfg'')
     | ChgNext cur new \<Rightarrow> map_option CallPut (putCfg J ''next'' new (sc_Num new - 1))
     | ChgReread cur new \<Rightarrow> Some (CallGet ''next'')
     | MigFreeze cur new sh \<Rightarrow> Some (CallGrp (sc_Shards cur ! sh) (GrpFreeze \<lparr>fa_Shard = sh, fa_Num = sc_Num new\<rparr>))
     | MigInstall cur new sh st \<Rightarrow> Some (CallGrp (sc_Shards new ! sh) (GrpInstall \<lparr>ia_Shard = sh, ia_State = st, ia_Num = sc_Num new\<rparr>))
     | MigDelete cur new sh \<Rightarrow> Some (CallGrp (sc_Shards cur ! sh) (GrpDelete \<lparr>da_Shard = sh, da_Num = sc_Num new\<rparr>))
     | Publish new \<Rightarrow> map_option CallPut (putCfg J ''cfg'' new (sc_Num new - 1)))"

section \<open>The code between the calls\<close>

definition readCfg :: "jsonCodec \<Rightarrow> string \<times> Tversion \<times> Err \<Rightarrow> (ShardConfig option \<times> Tversion) option" where
  "readCfg J r = (case r of (s, ver, err) \<Rightarrow>
     if err \<noteq> OK \<or> s = '''' then Some (None, 0) else do { cfg \<leftarrow> FromString J s; Some (Some cfg, ver) })"

definition Query :: "jsonCodec \<Rightarrow> string \<times> Tversion \<times> Err \<Rightarrow> ShardConfig option" where
  "Query J r = FromString J (fst r)"

text \<open>A clerk picks one of the servers at random, which panics if there are none.\<close>

definition MakeGrpClerk :: "int \<Rightarrow> ShardConfig \<Rightarrow> string list option" where
  "MakeGrpClerk gid cfg =
     (let servers = (case map_of (sc_Groups cfg) gid of None \<Rightarrow> [] | Some s \<Rightarrow> s) in if servers = [] then None else Some servers)"

fun migrateFrom :: "ShardConfig \<Rightarrow> ShardConfig \<Rightarrow> nat list \<Rightarrow> ctlPc option" where
  "migrateFrom cur new [] = Some (Publish new)"
| "migrateFrom cur new (sh # shs) =
     (if sc_Shards cur ! sh = sc_Shards new ! sh then migrateFrom cur new shs
      else do { srcck \<leftarrow> MakeGrpClerk (sc_Shards cur ! sh) cur; Some (MigFreeze cur new sh) })"

definition migrate :: "ShardConfig \<Rightarrow> ShardConfig \<Rightarrow> ctlPc option" where
  "migrate cur new = migrateFrom cur new [0..<NShards]"

definition migrate_resume :: "ctlPc \<Rightarrow> ctlReply \<Rightarrow> ctlPc option" where
  "migrate_resume pc r = (case (pc, r) of
       (MigFreeze cur new sh, GotGrp (RFreeze f)) \<Rightarrow>
          do { dstck \<leftarrow> MakeGrpClerk (sc_Shards new ! sh) new; Some (MigInstall cur new sh (fr_State f)) }
     | (MigInstall cur new sh st, GotGrp (RInstall i)) \<Rightarrow> Some (MigDelete cur new sh)
     | (MigDelete cur new sh, GotGrp (RDelete d)) \<Rightarrow> migrateFrom cur new [Suc sh..<NShards]
     | _ \<Rightarrow> None)"

definition InitController :: ctlPc where
  "InitController = InitCur"

definition InitController_resume :: "jsonCodec \<Rightarrow> ctlPc \<Rightarrow> ctlReply \<Rightarrow> ctlPc option" where
  "InitController_resume J pc r = (case (pc, r) of
       (InitCur, GotGet v) \<Rightarrow> do { (cur, _) \<leftarrow> readCfg J v; Some (InitNext cur) }
     | (InitNext cur, GotGet v) \<Rightarrow> do { (next, _) \<leftarrow> readCfg J v;
          case (cur, next) of
            (Some cur, Some next) \<Rightarrow> if sc_Num next > sc_Num cur then migrate cur next else Some CtlIdle
          | _ \<Rightarrow> Some CtlIdle }
     | (Publish next, GotPut err) \<Rightarrow> Some CtlIdle
     | _ \<Rightarrow> None)"

definition ChangeConfigTo :: "ShardConfig \<Rightarrow> ctlPc" where
  "ChangeConfigTo new = ChgQuery new"

definition ChangeConfigTo_resume :: "jsonCodec \<Rightarrow> ctlPc \<Rightarrow> ctlReply \<Rightarrow> ctlPc option" where
  "ChangeConfigTo_resume J pc r = (case (pc, r) of
       (ChgQuery new, GotGet v) \<Rightarrow> do { cur \<leftarrow> Query J v;
          if sc_Num new \<le> sc_Num cur then Some CtlIdle else Some (ChgNext cur new) }
     | (ChgNext cur new, GotPut err) \<Rightarrow> if err \<noteq> OK then Some (ChgReread cur new) else migrate cur new
     | (ChgReread cur new, GotGet v) \<Rightarrow> do { (got, _) \<leftarrow> readCfg J v;
          case got of None \<Rightarrow> Some CtlIdle
          | Some got \<Rightarrow> do { s \<leftarrow> String J got; s' \<leftarrow> String J new; if s \<noteq> s' then Some CtlIdle else migrate cur new } }
     | (Publish new, GotPut err) \<Rightarrow> Some CtlIdle
     | _ \<Rightarrow> None)"

text \<open>Both operations call \<open>migrate\<close>, and end with a put whose result they ignore.\<close>

definition ctlResume :: "jsonCodec \<Rightarrow> ctlPc \<Rightarrow> ctlReply \<Rightarrow> ctlPc option" where
  "ctlResume J pc r = (case pc of
       CtlIdle \<Rightarrow> None
     | InitCur \<Rightarrow> InitController_resume J pc r
     | InitNext _ \<Rightarrow> InitController_resume J pc r
     | MigFreeze _ _ _ \<Rightarrow> migrate_resume pc r
     | MigInstall _ _ _ _ \<Rightarrow> migrate_resume pc r
     | MigDelete _ _ _ \<Rightarrow> migrate_resume pc r
     | _ \<Rightarrow> ChangeConfigTo_resume J pc r)"

text \<open>\<open>InitConfig\<close> with calls that are not lost; the tests call it once, before any controller.\<close>

definition InitConfig :: "jsonCodec \<Rightarrow> ShardConfig \<Rightarrow> KVServer \<Rightarrow> KVServer option" where
  "InitConfig J cfg kv =
     do { a \<leftarrow> putCfg J ''cfg'' cfg 0;
          let kv = fst (KVServer_Put a kv);
          b \<leftarrow> putCfg J ''next'' cfg 0;
          Some (fst (KVServer_Put b kv)) }"

end
