(* ===== verification/ShardMove.thy ===== *)
theory ShardMove
  imports ShardGrp
begin

text \<open>
  One shard on its way between groups. \<open>own N\<close> is the group that configuration \<open>N\<close> gives the shard to,
  \<open>A\<close> the published configuration and \<open>B\<close> the one that is being reached, \<open>V g\<close> what group
  \<open>g\<close> has of the shard, and \<open>D\<close> the data that the service has in the shard. The invariant says which
  group holds the data; each lemma is one step of the protocol.
\<close>

abbreviation vSt :: "shardView \<Rightarrow> ShardState" where "vSt v \<equiv> fst v"
abbreviation vNum :: "shardView \<Rightarrow> int" where "vNum v \<equiv> fst (snd v)"
abbreviation vData :: "shardView \<Rightarrow> kvMap" where "vData v \<equiv> snd (snd v)"

definition moving :: "(nat \<Rightarrow> int) \<Rightarrow> nat \<Rightarrow> nat \<Rightarrow> (int \<Rightarrow> shardView) \<Rightarrow> bool" where
  "moving own A B V \<longleftrightarrow> own B \<noteq> own A \<and> vNum (V (own B)) < int B"

definition holder :: "(nat \<Rightarrow> int) \<Rightarrow> nat \<Rightarrow> nat \<Rightarrow> (int \<Rightarrow> shardView) \<Rightarrow> int" where
  "holder own A B V = (if moving own A B V then own A else own B)"

definition move :: "(nat \<Rightarrow> int) \<Rightarrow> nat \<Rightarrow> nat \<Rightarrow> bool" where
  "move own B N \<longleftrightarrow> 2 \<le> N \<and> N \<le> B \<and> own N \<noteq> own (N - 1)"

definition moveDone :: "(nat \<Rightarrow> int) \<Rightarrow> (int \<Rightarrow> shardView) \<Rightarrow> nat \<Rightarrow> bool" where
  "moveDone own V N \<longleftrightarrow> int N \<le> vNum (V (own N)) \<and> int N \<le> vNum (V (own (N - 1)))"

definition shard_inv :: "(nat \<Rightarrow> int) \<Rightarrow> nat \<Rightarrow> nat \<Rightarrow> (int \<Rightarrow> shardView) \<Rightarrow> kvMap \<Rightarrow> bool" where
  "shard_inv own A B V D \<longleftrightarrow>
     1 \<le> A \<and> A \<le> B \<and> B \<le> A + 1 \<and>
     vData (V (holder own A B V)) = D \<and>
     (vSt (V (holder own A B V)) = Ready \<or>
       moving own A B V \<and> vSt (V (holder own A B V)) = Frozen \<and> vNum (V (holder own A B V)) = int B) \<and>
     (\<forall>g. g \<noteq> holder own A B V \<longrightarrow> vSt (V g) \<noteq> Ready \<and> dom (vData (V g)) \<subseteq> dom D) \<and>
     (\<forall>g. 1 \<le> vNum (V g) \<and> vNum (V g) \<le> int B \<and> (vSt (V g) = Ready \<longrightarrow> own (nat (vNum (V g))) = g)) \<and>
     (\<forall>N. move own B N \<and> (N \<le> A \<or> int N \<le> vNum (V (own N))) \<longrightarrow> moveDone own V N)"

lemma shard_invD:
  assumes "shard_inv own A B V D"
  shows "1 \<le> A" "A \<le> B" "B \<le> A + 1" "vData (V (holder own A B V)) = D"
    "vSt (V (holder own A B V)) = Ready \<or>
       moving own A B V \<and> vSt (V (holder own A B V)) = Frozen \<and> vNum (V (holder own A B V)) = int B"
    "g \<noteq> holder own A B V \<Longrightarrow> vSt (V g) \<noteq> Ready" "g \<noteq> holder own A B V \<Longrightarrow> dom (vData (V g)) \<subseteq> dom D"
    "1 \<le> vNum (V g)" "vNum (V g) \<le> int B" "vSt (V g) = Ready \<Longrightarrow> own (nat (vNum (V g))) = g"
    "move own B N \<Longrightarrow> N \<le> A \<or> int N \<le> vNum (V (own N)) \<Longrightarrow> moveDone own V N"
  using assms unfolding shard_inv_def by auto

lemma shard_invI:
  assumes "1 \<le> A" "A \<le> B" "B \<le> A + 1" "holder own A B V = h" "vData (V h) = D"
    "vSt (V h) = Ready \<or> moving own A B V \<and> vSt (V h) = Frozen \<and> vNum (V h) = int B"
    "\<And>g. g \<noteq> h \<Longrightarrow> vSt (V g) \<noteq> Ready" "\<And>g. g \<noteq> h \<Longrightarrow> dom (vData (V g)) \<subseteq> dom D"
    "\<And>g. 1 \<le> vNum (V g)" "\<And>g. vNum (V g) \<le> int B" "\<And>g. vSt (V g) = Ready \<Longrightarrow> own (nat (vNum (V g))) = g"
    "\<And>N. move own B N \<Longrightarrow> N \<le> A \<or> int N \<le> vNum (V (own N)) \<Longrightarrow> moveDone own V N"
  shows "shard_inv own A B V D"
  unfolding shard_inv_def assms(4) using assms(1-3,5-) by blast

text \<open>The data that a freeze has returned, or an install carries, for configuration \<open>N\<close>.\<close>

definition stateOk :: "mapGob \<Rightarrow> (nat \<Rightarrow> int) \<Rightarrow> nat \<Rightarrow> nat \<Rightarrow> (int \<Rightarrow> shardView) \<Rightarrow> kvMap \<Rightarrow> nat \<Rightarrow> slice \<Rightarrow> bool" where
  "stateOk gob own A B V D N st \<longleftrightarrow> (vNum (V (own N)) < int N \<longrightarrow>
     N = B \<and> vSt (V (own A)) = Frozen \<and> vNum (V (own A)) = int B \<and> stateData gob st = Some D)"

section \<open>Facts about the holder\<close>

text \<open>The source of a move is not ready at the number of the move.\<close>

lemma source_not_ready:
  assumes "shard_inv own A B V D" "move own B N" "vNum (V (own (N - 1))) = int N"
  shows "vSt (V (own (N - 1))) \<noteq> Ready"
  using shard_invD(10) [OF assms(1), of "own (N - 1)"] assms(2,3) by (auto simp: move_def)

lemma moving_A:
  assumes "shard_inv own A B V D" "moving own A B V"
  shows "B = A + 1" "own (B - 1) = own A" "move own B B" "holder own A B V = own A"
proof -
  have "A \<noteq> B" using assms(2) by (auto simp: moving_def)
  then show "B = A + 1" using shard_invD(2,3) [OF assms(1)] by simp
  then show "own (B - 1) = own A" "move own B B" "holder own A B V = own A"
    using shard_invD(1) [OF assms(1)] assms(2) by (auto simp: move_def moving_def holder_def)
qed

lemma pending_moving:
  assumes "shard_inv own A B V D" "move own B N" "vNum (V (own N)) < int N"
  shows "N = B" "moving own A B V" "own (N - 1) = own A"
proof -
  have na: "\<not> N \<le> A" using shard_invD(11) [OF assms(1,2)] assms(3) by (auto simp: moveDone_def)
  then show n: "N = B" using assms(2) shard_invD(2,3) [OF assms(1)] by (auto simp: move_def)
  then have "N - 1 = A" using na shard_invD(3) [OF assms(1)] by simp
  then show "own (N - 1) = own A" "moving own A B V" using assms(2,3) n by (auto simp: moving_def move_def)
qed

text \<open>A group that is at the number of the move, or beyond, and does not hold the data.\<close>

lemma source_not_holder:
  assumes inv: "shard_inv own A B V D" and m: "move own B N" "vNum (V (own (N - 1))) = int N"
    and d: "N \<le> A \<or> int N \<le> vNum (V (own N))"
  shows "own (N - 1) \<noteq> holder own A B V"
proof
  assume h: "own (N - 1) = holder own A B V"
  then have b: "moving own A B V" "vNum (V (own (N - 1))) = int B"
    using shard_invD(5) [OF inv] source_not_ready [OF inv m] by auto
  then have n: "N = B" using m(2) by simp
  show False using moving_A(1) [OF inv b(1)] d b(1) n by (auto simp: moving_def)
qed

section \<open>The steps\<close>

text \<open>A group that does not hold the data changes its state, but not to ready, or loses data.\<close>

lemma touch_other:
  assumes inv: "shard_inv own A B V D" and g: "g \<noteq> holder own A B V" "st \<noteq> Ready" "dom d \<subseteq> dom D"
  defines "V' \<equiv> V(g := (st, vNum (V g), d))"
  shows "shard_inv own A B V' D"
    and "move own B N \<Longrightarrow> stateOk gob own A B V D N s \<Longrightarrow> stateOk gob own A B V' D N s"
proof -
  have num: "vNum (V' h) = vNum (V h)" for h by (simp add: V'_def)
  have mov: "moving own A B V' = moving own A B V" by (simp add: moving_def num)
  have hold: "holder own A B V' = holder own A B V" by (simp add: holder_def mov)
  have md: "moveDone own V' n = moveDone own V n" for n by (simp add: moveDone_def num)
  show "shard_inv own A B V' D"
  proof (rule shard_invI [OF shard_invD(1-3) [OF inv] hold])
    show "vNum (V' h) \<ge> 1" "vNum (V' h) \<le> int B" for h unfolding num by (rule shard_invD(8,9) [OF inv])+
    show "own (nat (vNum (V' h))) = h" if "vSt (V' h) = Ready" for h
      unfolding num by (rule shard_invD(10) [OF inv]) (use that g(2) in \<open>auto simp: V'_def split: if_splits\<close>)
    show "moveDone own V' n" if "move own B n" "n \<le> A \<or> int n \<le> vNum (V' (own n))" for n
      using shard_invD(11) [OF inv that(1)] that(2) by (simp add: md num)
    show "vSt (V' h) \<noteq> Ready" "dom (vData (V' h)) \<subseteq> dom D" if "h \<noteq> holder own A B V" for h
      using shard_invD(6,7) [OF inv that] g(2,3) by (auto simp: V'_def)
    show "vSt (V' (holder own A B V)) = Ready \<or> moving own A B V' \<and> vSt (V' (holder own A B V)) = Frozen \<and> vNum (V' (holder own A B V)) = int B"
      using shard_invD(5) [OF inv] g(1) unfolding mov num by (simp add: V'_def)
  qed (use shard_invD(4) [OF inv] g(1) in \<open>simp add: V'_def\<close>)
  show "stateOk gob own A B V' D N s" if "move own B N" "stateOk gob own A B V D N s"
  proof -
    have "g \<noteq> own A" if p: "vNum (V (own N)) < int N"
      using moving_A(4) [OF inv pending_moving(2) [OF inv \<open>move own B N\<close> p]] g(1) by simp
    then show ?thesis using that(2) unfolding stateOk_def num by (auto simp: V'_def)
  qed
qed

text \<open>The holder is frozen for the pending move.\<close>

lemma freeze_holder:
  assumes inv: "shard_inv own A B V D" and mo: "moving own A B V"
  defines "V' \<equiv> V(own A := (Frozen, int B, D))"
  shows "shard_inv own A B V' D"
    and "move own B N \<Longrightarrow> stateOk gob own A B V D N s \<Longrightarrow> stateOk gob own A B V' D N s"
    and "stateData gob s = Some D \<Longrightarrow> stateOk gob own A B V' D B s"
proof -
  have ne: "own B \<noteq> own A" using mo by (simp add: moving_def)
  have mov: "moving own A B V'" using mo by (simp add: moving_def V'_def)
  have hold: "holder own A B V' = own A" using mov by (simp add: holder_def)
  note h = moving_A(4) [OF inv mo]
  have le: "vNum (V g) \<le> vNum (V' g)" for g using shard_invD(9) [OF inv, of "own A"] by (simp add: V'_def)
  show "shard_inv own A B V' D"
  proof (rule shard_invI [OF shard_invD(1-3) [OF inv] hold])
    show "vNum (V' g) \<ge> 1" "vNum (V' g) \<le> int B" for g
      using shard_invD(8,9) [OF inv, of g] shard_invD(1,2) [OF inv] by (auto simp: V'_def)
    show "own (nat (vNum (V' g))) = g" if "vSt (V' g) = Ready" for g
      using shard_invD(10) [OF inv, of g] that by (auto simp: V'_def split: if_splits)
    show "moveDone own V' n" if n: "move own B n" "n \<le> A \<or> int n \<le> vNum (V' (own n))" for n
    proof (cases "n = B")
      case True
      then show ?thesis using n mo ne moving_A(1) [OF inv mo] by (auto simp: moving_def V'_def)
    next
      case False
      then have "n \<le> A" using n(1) moving_A(1) [OF inv mo] by (auto simp: move_def)
      then have "moveDone own V n" using shard_invD(11) [OF inv n(1)] by simp
      then show ?thesis using le order_trans unfolding moveDone_def by blast
    qed
    show "vSt (V' g) \<noteq> Ready" "dom (vData (V' g)) \<subseteq> dom D" if "g \<noteq> own A" for g
      using shard_invD(6,7) [OF inv, of g] that unfolding h by (auto simp: V'_def)
  qed (use mov in \<open>simp_all add: V'_def\<close>)
  show "stateOk gob own A B V' D N s" if "move own B N" "stateOk gob own A B V D N s"
  proof -
    have "vNum (V' (own N)) < int N \<Longrightarrow> vNum (V (own N)) < int N" using le [of "own N"] by simp
    then show ?thesis using that(2) unfolding stateOk_def by (auto simp: V'_def)
  qed
  show "stateOk gob own A B V' D B s" if "stateData gob s = Some D"
    using that by (simp add: stateOk_def V'_def)
qed

text \<open>The data of the frozen source arrives at the destination of the pending move.\<close>

lemma install_destination:
  assumes inv: "shard_inv own A B V D" and m: "move own B N" "vNum (V (own N)) < int N"
    and s: "stateOk gob own A B V D N s"
  defines "V' \<equiv> V(own N := (Ready, int N, vData (V (own N)) ++ the (stateData gob s)))"
  shows "shard_inv own A B V' D"
    and "move own B n \<Longrightarrow> stateOk gob own A B V' D n s'"
proof -
  note p = pending_moving [OF inv m]
  note a = moving_A [OF inv p(2)]
  have ne: "own A \<noteq> own B" using p(2) by (simp add: moving_def)
  have fr: "vSt (V (own A)) = Frozen" "vNum (V (own A)) = int B" "stateData gob s = Some D"
    using s m(2) by (simp_all add: stateOk_def)
  have "dom (vData (V (own B))) \<subseteq> dom D" using shard_invD(7) [OF inv, of "own B"] a(4) ne by simp
  then have "vData (V (own B)) ++ D = D" by (intro ext) (force simp: map_add_def split: option.splits)
  then have V': "V' = V(own B := (Ready, int B, D))" by (simp add: V'_def fr(3) p(1))
  have mov: "\<not> moving own A B V'" by (simp add: moving_def V')
  have hold: "holder own A B V' = own B" using mov by (simp add: holder_def)
  have le: "vNum (V g) \<le> vNum (V' g)" for g using shard_invD(9) [OF inv, of "own B"] by (simp add: V')
  have md: "moveDone own V' n" if n: "move own B n" for n
  proof (cases "n = B")
    case True
    then show ?thesis using fr(2) ne a(2) by (simp add: moveDone_def V')
  next
    case False
    then have "n \<le> A" using n a(1) by (auto simp: move_def)
    then have "moveDone own V n" using shard_invD(11) [OF inv n] by simp
    then show ?thesis using le order_trans unfolding moveDone_def by blast
  qed
  show "shard_inv own A B V' D"
  proof (rule shard_invI [OF shard_invD(1-3) [OF inv] hold])
    show "vNum (V' g) \<ge> 1" "vNum (V' g) \<le> int B" for g
      using shard_invD(8,9) [OF inv, of g] shard_invD(1,2) [OF inv] by (auto simp: V')
    show "own (nat (vNum (V' g))) = g" if "vSt (V' g) = Ready" for g
      using shard_invD(10) [OF inv, of g] that by (auto simp: V' split: if_splits)
    show "vSt (V' g) \<noteq> Ready" if "g \<noteq> own B" for g
      using shard_invD(6) [OF inv, of g] that fr(1) a(4) by (cases "g = own A") (simp_all add: V')
    show "dom (vData (V' g)) \<subseteq> dom D" if "g \<noteq> own B" for g
      using shard_invD(7) [OF inv, of g] that shard_invD(4) [OF inv] a(4) by (cases "g = own A") (simp_all add: V')
  qed (use md in \<open>simp_all add: V'\<close>)
  show "stateOk gob own A B V' D n s'" if "move own B n"
    using md [OF that] by (simp add: stateOk_def moveDone_def)
qed

text \<open>A put on the holder.\<close>

lemma put_holder:
  assumes inv: "shard_inv own A B V D" and g: "vSt (V g) = Ready" and d: "dom D \<subseteq> dom d"
  defines "V' \<equiv> V(g := (Ready, vNum (V g), d))"
  shows "shard_inv own A B V' d" "vData (V g) = D"
    and "move own B N \<Longrightarrow> stateOk gob own A B V D N s \<Longrightarrow> stateOk gob own A B V' d N s"
proof -
  have h: "holder own A B V = g" using shard_invD(6) [OF inv, of g] g by auto
  then show "vData (V g) = D" using shard_invD(4) [OF inv] by simp
  have num: "vNum (V' h) = vNum (V h)" for h by (simp add: V'_def)
  have mov: "moving own A B V' = moving own A B V" by (simp add: moving_def num)
  have hold: "holder own A B V' = g" using h by (simp add: holder_def mov)
  have md: "moveDone own V' n = moveDone own V n" for n by (simp add: moveDone_def num)
  show "shard_inv own A B V' d"
  proof (rule shard_invI [OF shard_invD(1-3) [OF inv] hold])
    show "vNum (V' h) \<ge> 1" "vNum (V' h) \<le> int B" for h unfolding num by (rule shard_invD(8,9) [OF inv])+
    show "own (nat (vNum (V' h))) = h" if "vSt (V' h) = Ready" for h
      unfolding num by (rule shard_invD(10) [OF inv]) (use that g in \<open>auto simp: V'_def split: if_splits\<close>)
    show "moveDone own V' n" if "move own B n" "n \<le> A \<or> int n \<le> vNum (V' (own n))" for n
      using shard_invD(11) [OF inv that(1)] that(2) by (simp add: md num)
    show "vSt (V' h) \<noteq> Ready" "dom (vData (V' h)) \<subseteq> dom d" if "h \<noteq> g" for h
      using shard_invD(6,7) [OF inv, of h] d that unfolding h by (auto simp: V'_def)
  qed (simp_all add: V'_def)
  show "stateOk gob own A B V' d N s" if m: "move own B N" "stateOk gob own A B V D N s"
  proof (cases "vNum (V (own N)) < int N")
    case True
    then have "g = own A" "vSt (V (own A)) = Frozen"
      using moving_A(4) [OF inv pending_moving(2) [OF inv m(1)]] h m(2) by (auto simp: stateOk_def)
    then show ?thesis using g by simp
  qed (simp add: stateOk_def num)
qed

text \<open>A new configuration is proposed, and the pending one is published.\<close>

lemma propose_next:
  assumes inv: "shard_inv own B B V D" and own': "\<And>n. 1 \<le> n \<Longrightarrow> n \<le> B \<Longrightarrow> own' n = own n"
  shows "shard_inv own' B (B + 1) V D"
    and "move own B N \<Longrightarrow> stateOk gob own B B V D N s \<Longrightarrow> stateOk gob own' B (B + 1) V D N s"
proof -
  have h: "holder own B B V = own B" by (simp add: holder_def)
  have B: "1 \<le> B" using shard_invD(1) [OF inv] .
  have B': "own' B = own B" using own' B by simp
  have hold: "holder own' B (B + 1) V = own B"
  proof (cases "own' (B + 1) = own B")
    case False
    then have "moving own' B (B + 1) V" using shard_invD(9) [OF inv, of "own' (B + 1)"] B' by (simp add: moving_def)
    then show ?thesis using B' by (simp add: holder_def)
  qed (use B' in \<open>simp add: holder_def\<close>)
  have md: "moveDone own' V n" if n: "move own' (B + 1) n" "n \<le> B" for n
  proof -
    have "own' n = own n" "own' (n - 1) = own (n - 1)" using n own' by (auto simp: move_def)
    then show ?thesis using shard_invD(11) [OF inv, of n] n by (simp add: move_def moveDone_def)
  qed
  show "shard_inv own' B (B + 1) V D"
  proof (rule shard_invI [OF B _ _ hold])
    show "vNum (V g) \<ge> 1" "vNum (V g) \<le> int (B + 1)" for g using shard_invD(8,9) [OF inv, of g] by simp_all
    show "own' (nat (vNum (V g))) = g" if "vSt (V g) = Ready" for g
      using own' [of "nat (vNum (V g))"] shard_invD(8-10) [OF inv, of g] that by simp
    show "moveDone own' V n" if n: "move own' (B + 1) n" "n \<le> B \<or> int n \<le> vNum (V (own' n))" for n
    proof -
      have "n \<le> B" using n shard_invD(9) [OF inv, of "own' n"] by auto
      then show ?thesis using md n(1) by blast
    qed
    show "vSt (V (own B)) = Ready \<or> moving own' B (B + 1) V \<and> vSt (V (own B)) = Frozen \<and> vNum (V (own B)) = int (B + 1)"
      using shard_invD(5) [OF inv] unfolding h by (auto simp: moving_def)
  qed (use shard_invD(4,6,7) [OF inv] in \<open>simp_all add: h\<close>)
  show "stateOk gob own' B (B + 1) V D N s" if "move own B N"
  proof -
    have "own' N = own N" using that own' by (simp add: move_def)
    then show ?thesis using shard_invD(11) [OF inv that] that by (simp add: stateOk_def move_def moveDone_def)
  qed
qed

lemma publish_next:
  assumes inv: "shard_inv own A B V D" and fin: "move own B B \<longrightarrow> moveDone own V B"
  shows "shard_inv own B B V D"
    and "move own B N \<Longrightarrow> stateOk gob own B B V D N s"
proof -
  have "\<not> moving own A B V"
  proof
    assume mo: "moving own A B V"
    then show False using fin moving_A(3) [OF inv mo] by (simp add: moving_def moveDone_def)
  qed
  then have hold: "holder own B B V = holder own A B V" "\<not> moving own A B V" by (simp_all add: holder_def moving_def)
  have md: "moveDone own V n" if "move own B n" for n
  proof (cases "n = B")
    case False
    then have "n \<le> A" using that shard_invD(3) [OF inv] by (auto simp: move_def)
    then show ?thesis using shard_invD(11) [OF inv that] by simp
  qed (use fin that in simp)
  show "shard_inv own B B V D"
    by (rule shard_invI [OF _ _ _ hold(1)]) (use shard_invD [OF inv] hold(2) md in auto)
  show "stateOk gob own B B V D N s" if "move own B N" using md [OF that] by (simp add: stateOk_def moveDone_def)
qed

section \<open>Requests\<close>

text \<open>What holds of a request on the shard while it may still be executed, and of an answer that was given.\<close>

definition grpReqOk :: "mapGob \<Rightarrow> (nat \<Rightarrow> int) \<Rightarrow> nat \<Rightarrow> nat \<Rightarrow> (int \<Rightarrow> shardView) \<Rightarrow> kvMap \<Rightarrow> int \<Rightarrow> grpReq \<Rightarrow> bool" where
  "grpReqOk gob own A B V D g q = (case q of
       GrpGet a \<Rightarrow> True
     | GrpPut a \<Rightarrow> True
     | GrpFreeze a \<Rightarrow> (\<exists>N. fa_Num a = int N \<and> move own B N \<and> g = own (N - 1))
     | GrpInstall a \<Rightarrow> (\<exists>N. ia_Num a = int N \<and> move own B N \<and> g = own N \<and> stateOk gob own A B V D N (ia_State a))
     | GrpDelete a \<Rightarrow> (\<exists>N. da_Num a = int N \<and> move own B N \<and> g = own (N - 1) \<and> int N \<le> vNum (V (own N)))
     | GrpOther \<Rightarrow> False)"

definition grpRetOk :: "mapGob \<Rightarrow> (nat \<Rightarrow> int) \<Rightarrow> nat \<Rightarrow> nat \<Rightarrow> (int \<Rightarrow> shardView) \<Rightarrow> kvMap \<Rightarrow> grpReq \<Rightarrow> grpRes \<Rightarrow> bool" where
  "grpRetOk gob own A B V D q r = (case q of
       GrpFreeze a \<Rightarrow> (\<exists>f N. r = RFreeze f \<and> fa_Num a = int N \<and> move own B N \<and> stateOk gob own A B V D N (fr_State f))
     | GrpInstall a \<Rightarrow> (\<exists>i N. r = RInstall i \<and> ia_Num a = int N \<and> move own B N \<and> int N \<le> vNum (V (own N)))
     | GrpDelete a \<Rightarrow> (\<exists>d. r = RDelete d)
     | _ \<Rightarrow> True)"

text \<open>The effect of a request on the data of the service.\<close>

definition specData :: "grpReq \<Rightarrow> ShardState \<Rightarrow> kvMap \<Rightarrow> kvMap" where
  "specData q st D = (case q of GrpPut a \<Rightarrow> if st = Ready then kvMap (fst (KVServer_Put a \<lparr>kvMap = D\<rparr>)) else D | _ \<Rightarrow> D)"

lemma KVServer_Put_dom: "dom m \<subseteq> dom (kvMap (fst (KVServer_Put a \<lparr>kvMap = m\<rparr>)))"
  by (auto simp: KVServer_Put_def split: option.splits)

lemma view_eta: "(vSt v, vNum v, vData v) = v"
  by simp

lemma upd_same: "v = V g \<Longrightarrow> V(g := v) = V"
  by simp

lemma freeze_step:
  assumes inv: "shard_inv own A B V D" and m: "move own B N"
    and enc: "mg_enc gob (vData (V (own (N - 1)))) = Some b \<Longrightarrow> stateData gob (Some b) = Some (vData (V (own (N - 1))))"
  defines "v \<equiv> V (own (N - 1))"
  defines "V' \<equiv> V(own (N - 1) := (if int N < vNum v then v else (Frozen, int N, vData v)))"
  shows "shard_inv own A B V' D" "vNum (V g) \<le> vNum (V' g)"
    and "move own B n \<Longrightarrow> stateOk gob own A B V D n s \<Longrightarrow> stateOk gob own A B V' D n s"
    and "mg_enc gob (vData v) = Some b \<Longrightarrow> stateOk gob own A B V' D N (if int N < vNum v then None else Some b)"
proof -
  consider (stale) "int N < vNum v" | (again) "vNum v = int N" "N \<le> A \<or> int N \<le> vNum (V (own N))"
    | (first) "\<not> int N < vNum v" "vNum (V (own N)) < int N"
  proof (cases "N \<le> A \<or> int N \<le> vNum (V (own N))")
    case True
    then have "int N \<le> vNum v" using shard_invD(11) [OF inv m] by (auto simp: moveDone_def v_def)
    then show ?thesis using that True by linarith
  qed (use that in linarith)
  then have "shard_inv own A B V' D \<and> (\<forall>n s. move own B n \<longrightarrow> stateOk gob own A B V D n s \<longrightarrow> stateOk gob own A B V' D n s) \<and>
      vNum (V g) \<le> vNum (V' g) \<and>
      (mg_enc gob (vData v) = Some b \<longrightarrow> stateOk gob own A B V' D N (if int N < vNum v then None else Some b))"
  proof cases
    case stale
    then have eq: "V' = V" by (simp add: V'_def v_def)
    have "\<not> vNum (V (own N)) < int N"
    proof
      assume p: "vNum (V (own N)) < int N"
      then show False using stale pending_moving(1) [OF inv m p] shard_invD(9) [OF inv, of "own (N - 1)"] by (simp add: v_def)
    qed
    then show ?thesis using inv unfolding eq by (simp add: stateOk_def)
  next
    case again
    have h: "own (N - 1) \<noteq> holder own A B V" using source_not_holder [OF inv m _ again(2)] again(1) by (simp add: v_def)
    have eq: "V' = V(own (N - 1) := (Frozen, vNum (V (own (N - 1))), vData v))" using again(1) by (simp add: V'_def v_def)
    have d: "dom (vData v) \<subseteq> dom D" unfolding v_def by (rule shard_invD(7) [OF inv h])
    have "int N \<le> vNum (V (own N))" using shard_invD(11) [OF inv m again(2)] by (simp add: moveDone_def)
    then have "stateOk gob own A B V' D N s" for s using m unfolding eq by (simp add: stateOk_def move_def)
    then show ?thesis using touch_other [OF inv h _ d, of Frozen] unfolding eq by auto
  next
    case first
    note p = pending_moving [OF inv m first(2)]
    have D: "vData v = D" using shard_invD(4) [OF inv] moving_A(4) [OF inv p(2)] p(3) by (simp add: v_def)
    have eq: "V' = V(own A := (Frozen, int B, D))" using first(1) p(1,3) by (simp add: V'_def D)
    have le: "vNum (V g) \<le> vNum (V' g)" using shard_invD(9) [OF inv, of g] unfolding eq by (cases "g = own A") simp_all
    have "stateOk gob own A B V' D N (Some b)" if "mg_enc gob (vData v) = Some b"
      using freeze_holder(3) [OF inv p(2), of gob "Some b"] enc [folded v_def, OF that] unfolding eq p(1) D by blast
    then show ?thesis using freeze_holder(1,2) [OF inv p(2)] first(1) le unfolding eq by auto
  qed
  then show "shard_inv own A B V' D" "vNum (V g) \<le> vNum (V' g)"
    "move own B n \<Longrightarrow> stateOk gob own A B V D n s \<Longrightarrow> stateOk gob own A B V' D n s"
    "mg_enc gob (vData v) = Some b \<Longrightarrow> stateOk gob own A B V' D N (if int N < vNum v then None else Some b)" by auto
qed

lemma install_step:
  assumes inv: "shard_inv own A B V D" and m: "move own B N" and s: "stateOk gob own A B V D N s"
  defines "v \<equiv> V (own N)"
  defines "V' \<equiv> V(own N := (if int N \<le> vNum v then v else (Ready, int N, vData v ++ the (stateData gob s))))"
  shows "shard_inv own A B V' D" "vNum (V g) \<le> vNum (V' g)" "int N \<le> vNum (V' (own N))"
    and "move own B n \<Longrightarrow> stateOk gob own A B V D n s' \<Longrightarrow> stateOk gob own A B V' D n s'"
proof -
  have "shard_inv own A B V' D \<and> (\<forall>n s'. move own B n \<longrightarrow> stateOk gob own A B V D n s' \<longrightarrow> stateOk gob own A B V' D n s')"
  proof (cases "int N \<le> vNum v")
    case True
    then have "V' = V" by (simp add: V'_def v_def)
    then show ?thesis using inv by simp
  next
    case False
    then have lt: "vNum (V (own N)) < int N" by (simp add: v_def)
    have eq: "V' = V(own N := (Ready, int N, vData (V (own N)) ++ the (stateData gob s)))" using False by (simp add: V'_def v_def)
    show ?thesis using install_destination [OF inv m lt s] unfolding eq by blast
  qed
  then show "shard_inv own A B V' D"
    "move own B n \<Longrightarrow> stateOk gob own A B V D n s' \<Longrightarrow> stateOk gob own A B V' D n s'" by auto
  show "vNum (V g) \<le> vNum (V' g)" "int N \<le> vNum (V' (own N))" by (simp_all add: V'_def v_def)
qed

lemma delete_step:
  assumes inv: "shard_inv own A B V D" and m: "move own B N" and d: "int N \<le> vNum (V (own N))"
  defines "v \<equiv> V (own (N - 1))"
  defines "V' \<equiv> V(own (N - 1) := (if int N < vNum v then v else (NotOwned, int N, Map.empty)))"
  shows "shard_inv own A B V' D" "vNum (V g) \<le> vNum (V' g)"
    and "move own B n \<Longrightarrow> stateOk gob own A B V D n s \<Longrightarrow> stateOk gob own A B V' D n s"
proof -
  have le: "int N \<le> vNum v" using shard_invD(11) [OF inv m] d by (simp add: moveDone_def v_def)
  have "shard_inv own A B V' D \<and> vNum (V g) \<le> vNum (V' g) \<and> (\<forall>n s. move own B n \<longrightarrow> stateOk gob own A B V D n s \<longrightarrow> stateOk gob own A B V' D n s)"
  proof (cases "int N < vNum v")
    case True
    then have "V' = V" by (simp add: V'_def v_def)
    then show ?thesis using inv by simp
  next
    case False
    then have n: "vNum (V (own (N - 1))) = int N" using le by (simp add: v_def)
    have h: "own (N - 1) \<noteq> holder own A B V" using source_not_holder [OF inv m n] d by simp
    have eq: "V' = V(own (N - 1) := (NotOwned, vNum (V (own (N - 1))), Map.empty))" using False n by (simp add: V'_def v_def)
    have "dom Map.empty \<subseteq> dom D" by simp
    then show ?thesis using touch_other [OF inv h, of NotOwned Map.empty] unfolding eq by auto
  qed
  then show "shard_inv own A B V' D" "vNum (V g) \<le> vNum (V' g)"
    "move own B n \<Longrightarrow> stateOk gob own A B V D n s \<Longrightarrow> stateOk gob own A B V' D n s" by auto
qed

text \<open>Every request keeps the invariant, and what holds of other requests and answers.\<close>

definition shardKeeps :: "mapGob \<Rightarrow> (nat \<Rightarrow> int) \<Rightarrow> nat \<Rightarrow> nat \<Rightarrow> (int \<Rightarrow> shardView) \<Rightarrow> kvMap \<Rightarrow> (int \<Rightarrow> shardView) \<Rightarrow> kvMap \<Rightarrow> bool" where
  "shardKeeps gob own A B V D V' D' \<longleftrightarrow> shard_inv own A B V' D' \<and> (\<forall>g. vNum (V g) \<le> vNum (V' g)) \<and>
     (\<forall>n s. move own B n \<longrightarrow> stateOk gob own A B V D n s \<longrightarrow> stateOk gob own A B V' D' n s)"

lemma put_keeps:
  assumes inv: "shard_inv own A B V D"
  shows "shardKeeps gob own A B V D (V(g := viewStep gob (GrpPut a) (V g))) (specData (GrpPut a) (vSt (V g)) D)"
proof (cases "vSt (V g) = Ready")
  case True
  let ?d = "kvMap (fst (KVServer_Put a \<lparr>kvMap = D\<rparr>))"
  note p = put_holder [OF inv True KVServer_Put_dom [of D a]]
  have "viewStep gob (GrpPut a) (V g) = (Ready, vNum (V g), ?d)"
    using True p(2) by (simp add: viewStep_def case_prod_unfold)
  then show ?thesis using p(1,3) True by (simp add: shardKeeps_def specData_def)
next
  case False
  then have "viewStep gob (GrpPut a) (V g) = V g" by (simp add: viewStep_def case_prod_unfold)
  then show ?thesis using inv False by (simp add: shardKeeps_def specData_def)
qed

lemma request_keeps:
  assumes inv: "shard_inv own A B V D" and q: "grpReqOk gob own A B V D g q"
    and enc: "\<And>b. mg_enc gob (vData (V g)) = Some b \<Longrightarrow> stateData gob (Some b) = Some (vData (V g))"
    and some: "mg_enc gob (vData (V g)) \<noteq> None"
  defines "V' \<equiv> V(g := viewStep gob q (V g))" and "D' \<equiv> specData q (vSt (V g)) D"
  shows "shardKeeps gob own A B V D V' D' \<and> grpRetOk gob own A B V' D' q (viewAnswer gob q (V g))"
proof (cases q)
  case (GrpGet a)
  then have "V' = V" "D' = D" by (simp_all add: V'_def D'_def viewStep_def specData_def case_prod_unfold)
  then show ?thesis using inv GrpGet by (simp add: shardKeeps_def grpRetOk_def)
next
  case (GrpPut a)
  then show ?thesis using put_keeps [OF inv, of gob g a] by (simp add: V'_def D'_def grpRetOk_def)
next
  case (GrpFreeze a)
  then obtain N where N: "fa_Num a = int N" "move own B N" "g = own (N - 1)" using q by (auto simp: grpReqOk_def)
  obtain b where b: "mg_enc gob (vData (V g)) = Some b" using some by auto
  have V: "V' = V(own (N - 1) := (if int N < vNum (V (own (N - 1))) then V (own (N - 1)) else (Frozen, int N, vData (V (own (N - 1))))))"
    using N GrpFreeze by (simp add: V'_def viewStep_def case_prod_unfold)
  have D: "D' = D" using GrpFreeze by (simp add: D'_def specData_def)
  have r: "viewAnswer gob q (V g) = RFreeze \<lparr>fr_State = (if int N < vNum (V (own (N - 1))) then None else Some b), fr_Num = int N, fr_Err = OK\<rparr>"
    using N GrpFreeze b by (simp add: viewAnswer_def case_prod_unfold)
  note f = freeze_step [OF inv N(2), of gob b, folded V]
  have "stateData gob (Some b) = Some (vData (V (own (N - 1))))" using enc [OF b] by (simp add: N(3))
  then show ?thesis using f b N GrpFreeze unfolding shardKeeps_def D r by (simp add: grpRetOk_def)
next
  case (GrpInstall a)
  then obtain N where N: "ia_Num a = int N" "move own B N" "g = own N" "stateOk gob own A B V D N (ia_State a)"
    using q by (auto simp: grpReqOk_def)
  have V: "V' = V(own N := (if int N \<le> vNum (V (own N)) then V (own N) else (Ready, int N, vData (V (own N)) ++ the (stateData gob (ia_State a)))))"
    using N GrpInstall by (simp add: V'_def viewStep_def case_prod_unfold)
  have D: "D' = D" using GrpInstall by (simp add: D'_def specData_def)
  have "viewAnswer gob q (V g) = RInstall \<lparr>ir_Err = OK\<rparr>" using GrpInstall by (simp add: viewAnswer_def case_prod_unfold)
  then show ?thesis using install_step [OF inv N(2,4), folded V] N(1,2) GrpInstall unfolding shardKeeps_def D by (simp add: grpRetOk_def)
next
  case (GrpDelete a)
  then obtain N where N: "da_Num a = int N" "move own B N" "g = own (N - 1)" "int N \<le> vNum (V (own N))"
    using q by (auto simp: grpReqOk_def)
  have V: "V' = V(own (N - 1) := (if int N < vNum (V (own (N - 1))) then V (own (N - 1)) else (NotOwned, int N, Map.empty)))"
    using N GrpDelete by (simp add: V'_def viewStep_def case_prod_unfold)
  have D: "D' = D" using GrpDelete by (simp add: D'_def specData_def)
  have "viewAnswer gob q (V g) = RDelete \<lparr>dr_Err = OK\<rparr>" using GrpDelete by (simp add: viewAnswer_def case_prod_unfold)
  then show ?thesis using delete_step [OF inv N(2,4), folded V] GrpDelete unfolding shardKeeps_def D by (simp add: grpRetOk_def)
qed (use q in \<open>simp add: grpReqOk_def\<close>)

end
