(* ===== verification/ShardSys.thy ===== *)
theory ShardSys
  imports ShardCtrl ShardMove
begin

text \<open>
  The sharded service as a whole: any number of controllers and clients, the server that keeps the
  configurations, and the groups. Calls are lost, delayed and repeated: a call that was made may be executed
  any number of times, at any time, also after its caller has gone; a caller gets the answer of one of the
  executions. A group executes a request in one step, which is what replication gives it. A controller may
  stop at any point.
\<close>

section \<open>The system\<close>

record shardSys =
  sk_kv :: KVServer
  sk_grp :: "int \<Rightarrow> ShardServer"
  sk_ctl :: "nat \<Rightarrow> ctlPc"
  sk_calls :: "ctlCall list"
  sk_rets :: "(ctlCall \<times> ctlReply) list"
  sk_cfgs :: "int list list"
  sk_pub :: nat
  sk_ops :: "(kvReq \<times> kvRes) list"
  sk_stale :: bool

text \<open>
  The last four fields record what has happened: the tables of shards of the configurations under
  \<open>next\<close>, the number of the configuration under \<open>cfg\<close>, the requests of clients that a group has
  accepted, with the answers, in the order of their execution, and whether a controller that recovers has
  ever read configurations that do not belong together.
\<close>

datatype sysAct = StartInit nat | StartChange nat ShardConfig | CtlCrash nat | GetRet nat
  | PutExec PutArgs | PutRet nat Err | GrpExec int grpReq | GrpRet nat grpRes | ClientCall int grpReq

text \<open>
  A configuration that a controller may be asked to change to: its table has the right length and names groups
  with servers, and it is numbered one above a configuration that has been published.
\<close>

definition goodCfg :: "ShardConfig \<Rightarrow> bool" where
  "goodCfg c \<longleftrightarrow> length (sc_Shards c) = NShards \<and> asciiCfg c \<and>
     (\<forall>g \<in> set (sc_Shards c). case map_of (sc_Groups c) g of None \<Rightarrow> False | Some srvs \<Rightarrow> srvs \<noteq> [])"

definition setPc :: "jsonCodec \<Rightarrow> nat \<Rightarrow> ctlPc \<Rightarrow> shardSys \<Rightarrow> shardSys" where
  "setPc J c pc x = x\<lparr>sk_ctl := (sk_ctl x)(c := pc),
     sk_calls := (case ctlCallOf J pc of None \<Rightarrow> [] | Some q \<Rightarrow> [q]) @ sk_calls x\<rparr>"

definition resumeWith :: "jsonCodec \<Rightarrow> nat \<Rightarrow> ctlReply \<Rightarrow> shardSys \<Rightarrow> shardSys option" where
  "resumeWith J c r x = do { pc \<leftarrow> ctlResume J (sk_ctl x c) r; Some (setPc J c pc x) }"

definition getReply :: "string \<Rightarrow> KVServer \<Rightarrow> string \<times> Tversion \<times> Err" where
  "getReply key kv = (let r = KVServer_Get \<lparr>ga_Key = key\<rparr> kv in (gr_Value r, gr_Version r, gr_Err r))"

definition accepted :: "grpReq \<Rightarrow> grpRes \<Rightarrow> (kvReq \<times> kvRes) list" where
  "accepted q r = (case (q, r) of
       (GrpGet a, RGet p) \<Rightarrow> if gr_Err p \<noteq> ErrWrongGroup then [(ReqGet a, ResGet p)] else []
     | (GrpPut a, RPut p) \<Rightarrow> if pr_Err p \<noteq> ErrWrongGroup then [(ReqPut a, ResPut p)] else []
     | _ \<Rightarrow> [])"

definition putExec :: "jsonCodec \<Rightarrow> PutArgs \<Rightarrow> shardSys \<Rightarrow> shardSys" where
  "putExec J a x =
     (let (kv', r) = KVServer_Put a (sk_kv x) in
      x\<lparr>sk_kv := kv', sk_rets := (CallPut a, GotPut (pr_Err r)) # sk_rets x,
        sk_cfgs := sk_cfgs x @ (if pa_Key a = ''next'' \<and> pr_Err r = OK then [sc_Shards (the (FromString J (pa_Value a)))] else []),
        sk_pub := sk_pub x + (if pa_Key a = ''cfg'' \<and> pr_Err r = OK then 1 else 0)\<rparr>)"

definition grpExec :: "mapGob \<Rightarrow> int \<Rightarrow> grpReq \<Rightarrow> shardSys \<Rightarrow> shardSys option" where
  "grpExec gob g q x =
     do { (r, kv') \<leftarrow> ShardServer_DoOp gob 1 q (sk_grp x g);
          Some (x\<lparr>sk_grp := (sk_grp x)(g := kv'), sk_rets := (CallGrp g q, GotGrp r) # sk_rets x,
                  sk_ops := sk_ops x @ accepted q r\<rparr>) }"

text \<open>
  \<open>InitController\<close> reads the two configurations one after the other. The reads are consistent if the next one
  is at most one ahead of the current one, as it is at every moment. The code does not check this; \<open>sk_stale\<close> records when it was not so.
\<close>

definition consistentRead :: "sysAct \<Rightarrow> shardSys \<Rightarrow> bool" where
  "consistentRead a x = (case a of
       GetRet c \<Rightarrow> (case sk_ctl x c of InitNext (Some cur) \<Rightarrow> int (length (sk_cfgs x)) \<le> sc_Num cur + 1 | _ \<Rightarrow> True)
     | _ \<Rightarrow> True)"

fun sysDo :: "mapGob \<Rightarrow> jsonCodec \<Rightarrow> sysAct \<Rightarrow> shardSys \<Rightarrow> shardSys option" where
  "sysDo gob J (StartInit c) x = (if sk_ctl x c = CtlIdle then Some (setPc J c InitController x) else None)"
| "sysDo gob J (StartChange c new) x =
     (if sk_ctl x c = CtlIdle \<and> goodCfg new \<and> sc_Num new \<le> int (sk_pub x) + 1
      then Some (setPc J c (ChangeConfigTo new) x) else None)"
| "sysDo gob J (CtlCrash c) x = Some (setPc J c CtlIdle x)"
| "sysDo gob J (GetRet c) x = (case ctlCallOf J (sk_ctl x c) of
       Some (CallGet key) \<Rightarrow> resumeWith J c (GotGet (getReply key (sk_kv x)))
         (x\<lparr>sk_stale := sk_stale x \<or> \<not> consistentRead (GetRet c) x\<rparr>)
     | _ \<Rightarrow> None)"
| "sysDo gob J (PutExec a) x = (if CallPut a \<in> set (sk_calls x) then Some (putExec J a x) else None)"
| "sysDo gob J (PutRet c e) x = (case ctlCallOf J (sk_ctl x c) of
       Some (CallPut a) \<Rightarrow> if e = ErrMaybe \<or> (CallPut a, GotPut e) \<in> set (sk_rets x) then resumeWith J c (GotPut e) x else None
     | _ \<Rightarrow> None)"
| "sysDo gob J (GrpExec g q) x = (if CallGrp g q \<in> set (sk_calls x) then grpExec gob g q x else None)"
| "sysDo gob J (GrpRet c r) x = (case ctlCallOf J (sk_ctl x c) of
       Some (CallGrp g q) \<Rightarrow> if (CallGrp g q, GotGrp r) \<in> set (sk_rets x) then resumeWith J c (GotGrp r) x else None
     | _ \<Rightarrow> None)"
| "sysDo gob J (ClientCall g q) x = (case q of
       GrpGet _ \<Rightarrow> Some (x\<lparr>sk_calls := CallGrp g q # sk_calls x\<rparr>)
     | GrpPut _ \<Rightarrow> Some (x\<lparr>sk_calls := CallGrp g q # sk_calls x\<rparr>)
     | _ \<Rightarrow> None)"

fun sysRun :: "mapGob \<Rightarrow> jsonCodec \<Rightarrow> sysAct list \<Rightarrow> shardSys \<Rightarrow> shardSys option" where
  "sysRun gob J [] x = Some x"
| "sysRun gob J (a # as) x = do { y \<leftarrow> sysDo gob J a x; sysRun gob J as y }"

definition sysInit :: "KVServer \<Rightarrow> ShardConfig \<Rightarrow> shardSys" where
  "sysInit kv cfg = \<lparr>sk_kv = kv, sk_grp = newShardServer, sk_ctl = (\<lambda>_. CtlIdle), sk_calls = [], sk_rets = [],
     sk_cfgs = [sc_Shards cfg], sk_pub = 1, sk_ops = [], sk_stale = False\<rparr>"

inductive shard_reach :: "mapGob \<Rightarrow> jsonCodec \<Rightarrow> ShardConfig \<Rightarrow> shardSys \<Rightarrow> bool" for gob J cfg where
  init: "InitConfig J cfg MakeKVServer = Some kv \<Longrightarrow> shard_reach gob J cfg (sysInit kv cfg)"
| step: "shard_reach gob J cfg x \<Longrightarrow> sysDo gob J a x = Some y \<Longrightarrow> shard_reach gob J cfg y"

section \<open>The invariant\<close>

abbreviation sysOwn :: "shardSys \<Rightarrow> nat \<Rightarrow> nat \<Rightarrow> int" where
  "sysOwn x sh \<equiv> \<lambda>N. sk_cfgs x ! (N - 1) ! sh"

abbreviation sysNext :: "shardSys \<Rightarrow> nat" where
  "sysNext x \<equiv> length (sk_cfgs x)"

abbreviation sysView :: "shardSys \<Rightarrow> nat \<Rightarrow> int \<Rightarrow> shardView" where
  "sysView x sh \<equiv> \<lambda>g. viewOf sh (sk_grp x g)"

definition sysData :: "shardSys \<Rightarrow> kvMap" where
  "sysData x = kvAfter (map fst (sk_ops x)) Map.empty"

abbreviation sysShard :: "shardSys \<Rightarrow> nat \<Rightarrow> kvMap" where
  "sysShard x sh \<equiv> shardData sh (sysData x)"

abbreviation sysStateOk :: "mapGob \<Rightarrow> shardSys \<Rightarrow> nat \<Rightarrow> nat \<Rightarrow> slice \<Rightarrow> bool" where
  "sysStateOk gob x sh \<equiv> stateOk gob (sysOwn x sh) (sk_pub x) (sysNext x) (sysView x sh) (sysShard x sh)"

definition groupInv :: "shardSys \<Rightarrow> bool" where
  "groupInv x \<longleftrightarrow> (\<forall>g. grp_wf (sk_grp x g)) \<and>
     (\<forall>sh < NShards. shard_inv (sysOwn x sh) (sk_pub x) (sysNext x) (sysView x sh) (sysShard x sh))"

definition cfgAt :: "shardSys \<Rightarrow> ShardConfig \<Rightarrow> nat \<Rightarrow> bool" where
  "cfgAt x c N \<longleftrightarrow> goodCfg c \<and> 1 \<le> N \<and> N \<le> sysNext x \<and> sc_Num c = int N \<and> sc_Shards c = sk_cfgs x ! (N - 1)"

definition storedCfg :: "jsonCodec \<Rightarrow> shardSys \<Rightarrow> string \<Rightarrow> nat \<Rightarrow> bool" where
  "storedCfg J x key N \<longleftrightarrow> (\<exists>s c. kvMap (sk_kv x) key = Some \<lparr>ke_value = s, ke_version = of_nat N\<rparr> \<and> s \<noteq> '''' \<and>
     FromString J s = Some c \<and> cfgAt x c N)"

definition doneTo :: "shardSys \<Rightarrow> nat \<Rightarrow> nat \<Rightarrow> bool" where
  "doneTo x N n \<longleftrightarrow> (\<forall>sh < n. move (sysOwn x sh) (sysNext x) N \<longrightarrow> moveDone (sysOwn x sh) (sysView x sh) N)"

definition stateValid :: "mapGob \<Rightarrow> nat \<Rightarrow> slice \<Rightarrow> bool" where
  "stateValid gob sh st \<longleftrightarrow> (\<exists>m. stateData gob st = Some m \<and> shardData sh m = m)"

definition putOk :: "jsonCodec \<Rightarrow> shardSys \<Rightarrow> PutArgs \<Rightarrow> bool" where
  "putOk J x a \<longleftrightarrow> (\<exists>c. pa_Value a \<noteq> '''' \<and> FromString J (pa_Value a) = Some c \<and> goodCfg c \<and>
     pa_Version a = word_of_int (sc_Num c - 1) \<and> 2 \<le> sc_Num c \<and>
     (pa_Key a = ''next'' \<and> sc_Num c \<le> int (sk_pub x) + 1 \<or>
      pa_Key a = ''cfg'' \<and> (\<exists>N. cfgAt x c N \<and> doneTo x N NShards)))"

definition reqOk :: "mapGob \<Rightarrow> shardSys \<Rightarrow> int \<Rightarrow> grpReq \<Rightarrow> bool" where
  "reqOk gob x g q \<longleftrightarrow> validReq gob q \<and> (let sh = reqShard q in
     grpReqOk gob (sysOwn x sh) (sk_pub x) (sysNext x) (sysView x sh) (sysShard x sh) g q)"

definition callOk :: "mapGob \<Rightarrow> jsonCodec \<Rightarrow> shardSys \<Rightarrow> ctlCall \<Rightarrow> bool" where
  "callOk gob J x call = (case call of CallGet key \<Rightarrow> True | CallPut a \<Rightarrow> putOk J x a | CallGrp g q \<Rightarrow> reqOk gob x g q)"

definition grpRet :: "mapGob \<Rightarrow> shardSys \<Rightarrow> grpReq \<Rightarrow> grpRes \<Rightarrow> bool" where
  "grpRet gob x q r \<longleftrightarrow> (let sh = reqShard q in sh < NShards \<and>
     grpRetOk gob (sysOwn x sh) (sk_pub x) (sysNext x) (sysView x sh) (sysShard x sh) q r \<and>
     (\<forall>f. r = RFreeze f \<longrightarrow> stateValid gob sh (fr_State f)))"

definition retOk :: "mapGob \<Rightarrow> jsonCodec \<Rightarrow> shardSys \<Rightarrow> ctlCall \<times> ctlReply \<Rightarrow> bool" where
  "retOk gob J x r = (case r of
       (CallPut a, GotPut e) \<Rightarrow> pa_Key a = ''next'' \<and> e = OK \<longrightarrow> (\<exists>c N. FromString J (pa_Value a) = Some c \<and> cfgAt x c N)
     | (CallGrp g q, GotGrp p) \<Rightarrow> grpRet gob x q p
     | _ \<Rightarrow> True)"

definition migOk :: "shardSys \<Rightarrow> ShardConfig \<Rightarrow> ShardConfig \<Rightarrow> nat \<Rightarrow> nat \<Rightarrow> bool" where
  "migOk x cur new N sh \<longleftrightarrow> 2 \<le> N \<and> cfgAt x cur (N - 1) \<and> cfgAt x new N \<and> doneTo x N sh"

definition pcOk :: "mapGob \<Rightarrow> shardSys \<Rightarrow> ctlPc \<Rightarrow> bool" where
  "pcOk gob x pc = (case pc of
       InitNext (Some cur) \<Rightarrow> (\<exists>N. cfgAt x cur N \<and> N \<le> sk_pub x)
     | ChgQuery new \<Rightarrow> goodCfg new \<and> sc_Num new \<le> int (sk_pub x) + 1
     | ChgNext cur new \<Rightarrow> goodCfg new \<and> (\<exists>N. cfgAt x cur N \<and> N \<le> sk_pub x \<and> sc_Num new = int N + 1)
     | ChgReread cur new \<Rightarrow> goodCfg new \<and> (\<exists>N. cfgAt x cur N \<and> N \<le> sk_pub x \<and> sc_Num new = int N + 1)
     | MigFreeze cur new sh \<Rightarrow> sh < NShards \<and> (\<exists>N. migOk x cur new N sh \<and> move (sysOwn x sh) (sysNext x) N)
     | MigInstall cur new sh st \<Rightarrow> sh < NShards \<and> stateValid gob sh st \<and>
         (\<exists>N. migOk x cur new N sh \<and> move (sysOwn x sh) (sysNext x) N \<and> sysStateOk gob x sh N st)
     | MigDelete cur new sh \<Rightarrow> sh < NShards \<and>
         (\<exists>N. migOk x cur new N sh \<and> move (sysOwn x sh) (sysNext x) N \<and> int N \<le> vNum (sysView x sh (sysOwn x sh N)))
     | Publish new \<Rightarrow> (\<exists>N. 2 \<le> N \<and> cfgAt x new N \<and> doneTo x N NShards)
     | _ \<Rightarrow> True)"

definition opsOk :: "(kvReq \<times> kvRes) list \<Rightarrow> bool" where
  "opsOk ops \<longleftrightarrow> (\<forall>i < length ops. snd (ops ! i) = fst (kvAnswer (fst (ops ! i)) (kvAfter (map fst (take i ops)) Map.empty)))"

definition sysInv :: "mapGob \<Rightarrow> jsonCodec \<Rightarrow> shardSys \<Rightarrow> bool" where
  "sysInv gob J x \<longleftrightarrow> groupInv x \<and> storedCfg J x ''cfg'' (sk_pub x) \<and> storedCfg J x ''next'' (sysNext x) \<and> opsOk (sk_ops x) \<and>
     (\<forall>q \<in> set (sk_calls x). callOk gob J x q) \<and> (\<forall>r \<in> set (sk_rets x). retOk gob J x r) \<and> (\<forall>c. pcOk gob x (sk_ctl x c))"

lemma sysInvD:
  assumes "sysInv gob J x"
  shows "groupInv x" "storedCfg J x ''cfg'' (sk_pub x)" "storedCfg J x ''next'' (sysNext x)" "opsOk (sk_ops x)"
    "q \<in> set (sk_calls x) \<Longrightarrow> callOk gob J x q" "r \<in> set (sk_rets x) \<Longrightarrow> retOk gob J x r" "pcOk gob x (sk_ctl x c)"
  using assms by (auto simp: sysInv_def)

lemma groupInvD:
  assumes "groupInv x"
  shows "grp_wf (sk_grp x g)" "sh < NShards \<Longrightarrow> shard_inv (sysOwn x sh) (sk_pub x) (sysNext x) (sysView x sh) (sysShard x sh)"
  using assms by (auto simp: groupInv_def)

lemma pub_bounds:
  assumes "groupInv x"
  shows "1 \<le> sk_pub x" "sk_pub x \<le> sysNext x" "sysNext x \<le> sk_pub x + 1"
  using shard_invD(1-3) [OF groupInvD(2) [OF assms, of 0]] by (simp_all add: NShards_def)

section \<open>What later steps keep\<close>

definition sysLe :: "mapGob \<Rightarrow> shardSys \<Rightarrow> shardSys \<Rightarrow> bool" where
  "sysLe gob x y \<longleftrightarrow> (\<exists>t. sk_cfgs y = sk_cfgs x @ t) \<and> sk_pub x \<le> sk_pub y \<and>
     (\<forall>sh < NShards. (\<forall>g. vNum (sysView x sh g) \<le> vNum (sysView y sh g)) \<and>
       (\<forall>N s. move (sysOwn x sh) (sysNext x) N \<longrightarrow> sysStateOk gob x sh N s \<longrightarrow> sysStateOk gob y sh N s))"

lemma sysLe_same:
  "sk_cfgs y = sk_cfgs x \<Longrightarrow> sk_pub y = sk_pub x \<Longrightarrow> sk_grp y = sk_grp x \<Longrightarrow> sk_ops y = sk_ops x \<Longrightarrow> sysLe gob x y"
  by (simp add: sysLe_def sysData_def)

lemma sysLe_own:
  assumes "sysLe gob x y" "N \<le> sysNext x" "1 \<le> N"
  shows "sk_cfgs y ! (N - 1) = sk_cfgs x ! (N - 1)" "N \<le> sysNext y"
  using assms by (auto simp: sysLe_def nth_append)

lemma sysLe_num: "sysLe gob x y \<Longrightarrow> sh < NShards \<Longrightarrow> vNum (sysView x sh g) \<le> vNum (sysView y sh g)"
  unfolding sysLe_def by blast

lemma cfgAt_le: "sysLe gob x y \<Longrightarrow> cfgAt x c N \<Longrightarrow> cfgAt y c N"
  using sysLe_own [of gob x y N] by (simp add: cfgAt_def)

lemma move_le:
  assumes "sysLe gob x y" "N \<le> sysNext x" "1 \<le> N"
  shows "move (sysOwn y sh) (sysNext y) N = move (sysOwn x sh) (sysNext x) N"
proof (cases "2 \<le> N")
  case True
  then show ?thesis using sysLe_own [OF assms] sysLe_own [OF assms(1), of "N - 1"] assms(2) by (auto simp: move_def)
qed (simp add: move_def)

lemma moveDone_le:
  assumes "sysLe gob x y" "N \<le> sysNext x" "2 \<le> N" "sh < NShards" "moveDone (sysOwn x sh) (sysView x sh) N"
  shows "moveDone (sysOwn y sh) (sysView y sh) N"
proof -
  have "sysOwn y sh N = sysOwn x sh N" "sysOwn y sh (N - 1) = sysOwn x sh (N - 1)"
    using sysLe_own(1) [OF assms(1), of N] sysLe_own(1) [OF assms(1), of "N - 1"] assms(2,3) by simp_all
  then show ?thesis using assms(5) sysLe_num [OF assms(1,4), of "sysOwn x sh N"] sysLe_num [OF assms(1,4), of "sysOwn x sh (N - 1)"]
    by (simp add: moveDone_def)
qed

lemma doneTo_le:
  assumes "sysLe gob x y" "N \<le> sysNext x" "2 \<le> N" "n \<le> NShards" "doneTo x N n"
  shows "doneTo y N n"
  unfolding doneTo_def
proof (intro allI impI)
  fix sh assume sh: "sh < n" "move (sysOwn y sh) (sysNext y) N"
  have "moveDone (sysOwn x sh) (sysView x sh) N"
    using assms(5) sh move_le [OF assms(1,2), of sh] assms(3) by (simp add: doneTo_def)
  then show "moveDone (sysOwn y sh) (sysView y sh) N"
    by (rule moveDone_le [OF assms(1-3), rotated]) (use sh(1) assms(4) in simp)
qed

lemma stateOk_le:
  "sysLe gob x y \<Longrightarrow> sh < NShards \<Longrightarrow> move (sysOwn x sh) (sysNext x) N \<Longrightarrow> sysStateOk gob x sh N s \<Longrightarrow> sysStateOk gob y sh N s"
  unfolding sysLe_def by blast

lemma putOk_le: "sysLe gob x y \<Longrightarrow> putOk J x a \<Longrightarrow> putOk J y a"
proof -
  assume le: "sysLe gob x y" and p: "putOk J x a"
  have "cfgAt y c N \<and> doneTo y N NShards" if "cfgAt x c N" "doneTo x N NShards" "2 \<le> sc_Num c" for c N
    using cfgAt_le [OF le that(1)] doneTo_le [OF le, of N NShards] that by (simp add: cfgAt_def)
  moreover have "sk_pub x \<le> sk_pub y" using le by (simp add: sysLe_def)
  ultimately show ?thesis using p unfolding putOk_def by (elim exE conjE disjE) force+
qed

lemma own_le:
  assumes "sysLe gob x y" "move (sysOwn x sh) (sysNext x) N"
  shows "sysOwn y sh N = sysOwn x sh N" "sysOwn y sh (N - 1) = sysOwn x sh (N - 1)" "move (sysOwn y sh) (sysNext y) N"
  using sysLe_own(1) [OF assms(1), of N] sysLe_own(1) [OF assms(1), of "N - 1"] move_le [OF assms(1), of N] assms(2)
  by (auto simp: move_def)

lemma reqOk_le:
  assumes le: "sysLe gob x y" and q: "reqOk gob x g q"
  shows "reqOk gob y g q"
proof -
  have sh: "reqShard q < NShards" using q by (simp add: reqOk_def validReq_def)
  note st = stateOk_le [OF le sh] and num = sysLe_num [OF le sh]
  show ?thesis
  proof (cases q)
    case (GrpFreeze a)
    then show ?thesis using q own_le [OF le, of "reqShard q"] by (auto simp: reqOk_def grpReqOk_def Let_def)
  next
    case (GrpInstall a)
    then obtain N where "ia_Num a = int N" "move (sysOwn x (reqShard q)) (sysNext x) N" "g = sysOwn x (reqShard q) N"
        "sysStateOk gob x (reqShard q) N (ia_State a)" using q by (auto simp: reqOk_def grpReqOk_def Let_def)
    then show ?thesis using q GrpInstall own_le [OF le, of "reqShard q" N] st by (auto simp: reqOk_def grpReqOk_def Let_def)
  next
    case (GrpDelete a)
    then obtain N where N: "da_Num a = int N" "move (sysOwn x (reqShard q)) (sysNext x) N" "g = sysOwn x (reqShard q) (N - 1)"
        "int N \<le> vNum (sysView x (reqShard q) (sysOwn x (reqShard q) N))" using q by (auto simp: reqOk_def grpReqOk_def Let_def)
    have "int N \<le> vNum (sysView y (reqShard q) (sysOwn y (reqShard q) N))"
      unfolding own_le(1) [OF le N(2)] using N(4) num order_trans by blast
    then show ?thesis using q GrpDelete N own_le [OF le N(2)] by (auto simp: reqOk_def grpReqOk_def Let_def)
  qed (use q in \<open>simp_all add: reqOk_def grpReqOk_def\<close>)
qed

lemma grpRet_le:
  assumes le: "sysLe gob x y" and q: "grpRet gob x q r"
  shows "grpRet gob y q r"
proof -
  have sh: "reqShard q < NShards" using q by (simp add: grpRet_def Let_def)
  show ?thesis
  proof (cases q)
    case (GrpFreeze a)
    then obtain f N where N: "r = RFreeze f" "fa_Num a = int N" "move (sysOwn x (reqShard q)) (sysNext x) N"
        "sysStateOk gob x (reqShard q) N (fr_State f)" using q by (auto simp: grpRet_def grpRetOk_def Let_def)
    then show ?thesis using q GrpFreeze own_le(3) [OF le N(3)] stateOk_le [OF le sh N(3,4)]
      by (auto simp: grpRet_def grpRetOk_def Let_def)
  next
    case (GrpInstall a)
    then obtain i N where N: "r = RInstall i" "ia_Num a = int N" "move (sysOwn x (reqShard q)) (sysNext x) N"
        "int N \<le> vNum (sysView x (reqShard q) (sysOwn x (reqShard q) N))" using q by (auto simp: grpRet_def grpRetOk_def Let_def)
    have "int N \<le> vNum (sysView y (reqShard q) (sysOwn y (reqShard q) N))"
      unfolding own_le(1) [OF le N(3)] using N(4) sysLe_num [OF le sh] order_trans by blast
    then show ?thesis using q GrpInstall N own_le(3) [OF le N(3)] by (auto simp: grpRet_def grpRetOk_def Let_def)
  qed (use q in \<open>simp_all add: grpRet_def grpRetOk_def\<close>)
qed

lemma callOk_le: "sysLe gob x y \<Longrightarrow> callOk gob J x q \<Longrightarrow> callOk gob J y q"
  using putOk_le reqOk_le by (auto simp: callOk_def split: ctlCall.splits)

lemma retOk_le: "sysLe gob x y \<Longrightarrow> retOk gob J x r \<Longrightarrow> retOk gob J y r"
  using cfgAt_le grpRet_le unfolding retOk_def by (auto split: ctlCall.splits ctlReply.splits prod.splits) blast

lemma migOk_le: "sysLe gob x y \<Longrightarrow> sh \<le> NShards \<Longrightarrow> migOk x cur new N sh \<Longrightarrow> migOk y cur new N sh"
  using doneTo_le [of gob x y N sh] cfgAt_le [of gob x y cur "N - 1"] cfgAt_le [of gob x y new N]
  unfolding migOk_def by (auto simp: cfgAt_def [of x new])

lemma pcOk_le:
  assumes le: "sysLe gob x y" and p: "pcOk gob x pc"
  shows "pcOk gob y pc"
proof -
  have pub: "sk_pub x \<le> sk_pub y" using le by (simp add: sysLe_def)
  show ?thesis
  proof (cases pc)
    case (InitNext c)
    then show ?thesis using p pub cfgAt_le [OF le] order_trans by (cases c) (fastforce simp: pcOk_def)+
  next
    case (ChgNext cur new)
    then show ?thesis using p pub cfgAt_le [OF le] order_trans by (fastforce simp: pcOk_def)
  next
    case (ChgReread cur new)
    then show ?thesis using p pub cfgAt_le [OF le] order_trans by (fastforce simp: pcOk_def)
  next
    case (MigFreeze cur new sh)
    then obtain N where N: "sh < NShards" "migOk x cur new N sh" "move (sysOwn x sh) (sysNext x) N" using p by (auto simp: pcOk_def)
    then show ?thesis using MigFreeze own_le(3) [OF le N(3)] migOk_le [OF le _ N(2)] by (auto simp: pcOk_def)
  next
    case (MigInstall cur new sh st)
    then obtain N where N: "sh < NShards" "stateValid gob sh st" "migOk x cur new N sh" "move (sysOwn x sh) (sysNext x) N"
      "sysStateOk gob x sh N st" using p by (auto simp: pcOk_def)
    then show ?thesis using MigInstall own_le(3) [OF le N(4)] migOk_le [OF le _ N(3)] stateOk_le [OF le N(1,4,5)] by (auto simp: pcOk_def)
  next
    case (MigDelete cur new sh)
    then obtain N where N: "sh < NShards" "migOk x cur new N sh" "move (sysOwn x sh) (sysNext x) N"
      "int N \<le> vNum (sysView x sh (sysOwn x sh N))" using p by (auto simp: pcOk_def)
    have "int N \<le> vNum (sysView y sh (sysOwn y sh N))"
      unfolding own_le(1) [OF le N(3)] using N(4) sysLe_num [OF le N(1)] order_trans by blast
    then show ?thesis using MigDelete N own_le(3) [OF le N(3)] migOk_le [OF le _ N(2)] by (auto simp: pcOk_def)
  next
    case (Publish new)
    then show ?thesis using p cfgAt_le [OF le] doneTo_le [OF le] by (auto simp: pcOk_def cfgAt_def)
  qed (use p pub in \<open>auto simp: pcOk_def\<close>)
qed

section \<open>The controller\<close>

lemma sysInv_frame:
  assumes inv: "sysInv gob J x" and le: "sysLe gob x y"
    and new: "groupInv y" "storedCfg J y ''cfg'' (sk_pub y)" "storedCfg J y ''next'' (sysNext y)" "opsOk (sk_ops y)"
    and calls: "\<And>q. q \<in> set (sk_calls y) \<Longrightarrow> q \<in> set (sk_calls x) \<or> callOk gob J y q"
    and rets: "\<And>r. r \<in> set (sk_rets y) \<Longrightarrow> r \<in> set (sk_rets x) \<or> retOk gob J y r"
    and pcs: "\<And>c. sk_ctl y c = sk_ctl x c \<or> pcOk gob y (sk_ctl y c)"
  shows "sysInv gob J y"
proof -
  have "callOk gob J y q" if "q \<in> set (sk_calls y)" for q using calls [OF that] callOk_le [OF le sysInvD(5) [OF inv]] by blast
  moreover have "retOk gob J y r" if "r \<in> set (sk_rets y)" for r using rets [OF that] retOk_le [OF le sysInvD(6) [OF inv]] by blast
  moreover have "pcOk gob y (sk_ctl y c)" for c using pcs [of c] pcOk_le [OF le sysInvD(7) [OF inv, of c]] by auto
  ultimately show ?thesis using new by (simp add: sysInv_def)
qed

text \<open>Steps that change neither the configurations, nor the groups, nor the history.\<close>

definition sameWorld :: "shardSys \<Rightarrow> shardSys \<Rightarrow> bool" where
  "sameWorld x y \<longleftrightarrow> sk_kv y = sk_kv x \<and> sk_grp y = sk_grp x \<and> sk_cfgs y = sk_cfgs x \<and> sk_pub y = sk_pub x \<and> sk_ops y = sk_ops x"

lemma sameWorld_frame:
  assumes "sysInv gob J x" "sameWorld x y"
    and "\<And>q. q \<in> set (sk_calls y) \<Longrightarrow> q \<in> set (sk_calls x) \<or> callOk gob J y q"
    and "\<And>r. r \<in> set (sk_rets y) \<Longrightarrow> r \<in> set (sk_rets x) \<or> retOk gob J y r"
    and "\<And>c. sk_ctl y c = sk_ctl x c \<or> pcOk gob y (sk_ctl y c)"
  shows "sysInv gob J y"
proof (rule sysInv_frame [OF assms(1)])
  show "sysLe gob x y" using assms(2) by (intro sysLe_same) (simp_all add: sameWorld_def)
  show "groupInv y" "storedCfg J y ''cfg'' (sk_pub y)" "storedCfg J y ''next'' (sysNext y)" "opsOk (sk_ops y)"
    using sysInvD(1-4) [OF assms(1)] assms(2) by (simp_all add: groupInv_def storedCfg_def cfgAt_def sysData_def sameWorld_def)
qed (use assms(3-) in auto)

lemma goodCfg_same: "sameCfg c d \<Longrightarrow> goodCfg d \<Longrightarrow> goodCfg c"
  by (simp add: goodCfg_def asciiCfg_def sameCfg_def dom_map_of_conv_image_fst [symmetric])

lemma good_string:
  assumes "json_ok J" "goodCfg c"
  obtains s d where "String J c = Some s" "s \<noteq> ''''" "FromString J s = Some d" "sc_Num d = sc_Num c" "sc_Shards d = sc_Shards c" "goodCfg d"
proof -
  have "asciiCfg c" using assms(2) by (simp add: goodCfg_def)
  then obtain s d where sd: "js_Marshal J c = Some s" "s \<noteq> ''''" "js_Unmarshal J s = Some d" "sameCfg d c"
    using assms(1) unfolding json_ok_def by blast
  show thesis
    by (rule that [of s d]) (use sd goodCfg_same [OF sd(4) assms(2)] in \<open>simp_all add: String_def FromString_def sameCfg_def\<close>)
qed

lemma cfgAt_cong: "cfgAt x c N \<Longrightarrow> goodCfg d \<Longrightarrow> sc_Num d = sc_Num c \<Longrightarrow> sc_Shards d = sc_Shards c \<Longrightarrow> cfgAt x d N"
  by (simp add: cfgAt_def)

lemma migOk_shards:
  assumes "migOk x cur new N n"
  shows "sc_Shards cur ! sh = sysOwn x sh (N - 1)" "sc_Shards new ! sh = sysOwn x sh N" "sc_Num new = int N"
    "2 \<le> N" "N \<le> sysNext x" "goodCfg cur" "goodCfg new"
  using assms by (auto simp: migOk_def cfgAt_def)

lemma pcOk_call:
  assumes J: "json_ok J" and p: "pcOk gob x pc" and q: "ctlCallOf J pc = Some q"
  shows "callOk gob J x q"
proof (cases pc)
  case (ChgNext cur new)
  then obtain N where N: "goodCfg new" "cfgAt x cur N" "N \<le> sk_pub x" "sc_Num new = int N + 1" using p by (auto simp: pcOk_def)
  obtain s d where d: "String J new = Some s" "s \<noteq> ''''" "FromString J s = Some d" "sc_Num d = sc_Num new" "goodCfg d"
    by (rule good_string [OF J N(1)])
  have "2 \<le> sc_Num d" using N(2,4) d(4) by (simp add: cfgAt_def)
  then show ?thesis using q ChgNext d N(3,4) by (auto simp: ctlCallOf_def putCfg_def callOk_def putOk_def)
next
  case (Publish new)
  then obtain N where N: "2 \<le> N" "cfgAt x new N" "doneTo x N NShards" using p by (auto simp: pcOk_def)
  then have "goodCfg new" by (simp add: cfgAt_def)
  then obtain s d where d: "String J new = Some s" "s \<noteq> ''''" "FromString J s = Some d" "sc_Num d = sc_Num new"
      "sc_Shards d = sc_Shards new" "goodCfg d" by (rule good_string [OF J])
  have "cfgAt x d N" "2 \<le> sc_Num d" using cfgAt_cong [OF N(2) d(6,4,5)] N(1,2) d(4) by (simp_all add: cfgAt_def)
  then show ?thesis using q Publish d N(3) by (auto simp: ctlCallOf_def putCfg_def callOk_def putOk_def)
next
  case (MigFreeze cur new sh)
  then obtain N where N: "sh < NShards" "migOk x cur new N sh" "move (sysOwn x sh) (sysNext x) N" using p by (auto simp: pcOk_def)
  show ?thesis using q MigFreeze N migOk_shards(1) [OF N(2), of sh] migOk_shards(3) [OF N(2)]
    by (auto simp: ctlCallOf_def callOk_def reqOk_def validReq_def reqShard_def reqData_ok_def grpReqOk_def)
next
  case (MigInstall cur new sh st)
  then obtain N m where N: "sh < NShards" "stateData gob st = Some m" "shardData sh m = m" "migOk x cur new N sh"
      "move (sysOwn x sh) (sysNext x) N" "sysStateOk gob x sh N st" using p by (auto simp: pcOk_def stateValid_def)
  show ?thesis using q MigInstall N migOk_shards(2) [OF N(4), of sh] migOk_shards(3) [OF N(4)]
    by (auto simp: ctlCallOf_def callOk_def reqOk_def validReq_def reqShard_def reqData_ok_def grpReqOk_def)
next
  case (MigDelete cur new sh)
  then obtain N where N: "sh < NShards" "migOk x cur new N sh" "move (sysOwn x sh) (sysNext x) N"
      "int N \<le> vNum (sysView x sh (sysOwn x sh N))" using p by (auto simp: pcOk_def)
  show ?thesis using q MigDelete N migOk_shards(1) [OF N(2), of sh] migOk_shards(3) [OF N(2)]
    by (auto simp: ctlCallOf_def callOk_def reqOk_def validReq_def reqShard_def reqData_ok_def grpReqOk_def)
qed (use q in \<open>auto simp: ctlCallOf_def callOk_def\<close>)

lemma pcOk_same: "sameWorld x y \<Longrightarrow> pcOk gob y pc = pcOk gob x pc"
  by (simp add: pcOk_def cfgAt_def doneTo_def migOk_def sysData_def sameWorld_def split: ctlPc.splits option.splits)

lemma setPc_inv:
  assumes J: "json_ok J" and inv: "sysInv gob J x" and p: "pcOk gob x pc"
  shows "sysInv gob J (setPc J c pc x)"
proof (rule sameWorld_frame [OF inv])
  let ?y = "setPc J c pc x"
  show same: "sameWorld x ?y" by (simp add: sameWorld_def setPc_def)
  then have p': "pcOk gob ?y pc" using p pcOk_same by blast
  show "q \<in> set (sk_calls x) \<or> callOk gob J ?y q" if "q \<in> set (sk_calls ?y)" for q
    using that pcOk_call [OF J p'] by (auto simp: setPc_def split: option.splits)
  show "sk_ctl ?y d = sk_ctl x d \<or> pcOk gob ?y (sk_ctl ?y d)" for d using p' by (simp add: setPc_def)
qed (simp add: setPc_def)

lemma good_clerk:
  assumes "goodCfg c" "sh < NShards"
  obtains servers where "MakeGrpClerk (sc_Shards c ! sh) c = Some servers"
proof -
  have "sc_Shards c ! sh \<in> set (sc_Shards c)" using assms by (simp add: goodCfg_def)
  then have "case map_of (sc_Groups c) (sc_Shards c ! sh) of None \<Rightarrow> False | Some srvs \<Rightarrow> srvs \<noteq> []"
    using assms(1) unfolding goodCfg_def by blast
  then show ?thesis using that by (auto simp: MakeGrpClerk_def split: option.splits)
qed

lemma migrateFrom_ok:
  "migOk x cur new N sh \<Longrightarrow> sh \<le> NShards \<Longrightarrow> \<exists>pc. migrateFrom cur new [sh..<NShards] = Some pc \<and> pcOk gob x pc"
proof (induction "NShards - sh" arbitrary: sh)
  case 0
  then have "sh = NShards" by simp
  moreover have "2 \<le> N" "cfgAt x new N" "doneTo x N sh" using 0(2) by (simp_all add: migOk_def)
  ultimately show ?case by (auto simp: pcOk_def)
next
  case (Suc k)
  then have sh: "sh < NShards" by simp
  then have upt: "[sh..<NShards] = sh # [Suc sh..<NShards]" by (simp add: upt_conv_Cons)
  note m = migOk_shards [OF Suc.prems(1)]
  show ?case
  proof (cases "sc_Shards cur ! sh = sc_Shards new ! sh")
    case True
    then have "\<not> move (sysOwn x sh) (sysNext x) N" using m(1,2) [of sh] by (simp add: move_def)
    then have "migOk x cur new N (Suc sh)" using Suc.prems(1) by (auto simp: migOk_def doneTo_def less_Suc_eq)
    then show ?thesis using Suc.hyps(1) [of "Suc sh"] Suc.hyps(2) sh True by (simp add: upt)
  next
    case False
    then have mv: "move (sysOwn x sh) (sysNext x) N" using m(1,2) [of sh] m(4,5) by (simp add: move_def)
    obtain s where "MakeGrpClerk (sc_Shards cur ! sh) cur = Some s" by (rule good_clerk [OF m(6) sh])
    then have "migrateFrom cur new [sh..<NShards] = Some (MigFreeze cur new sh)" using False by (simp add: upt)
    then show ?thesis using sh mv Suc.prems(1) by (auto simp: pcOk_def)
  qed
qed

lemma migrate_ok: "2 \<le> N \<Longrightarrow> cfgAt x cur (N - 1) \<Longrightarrow> cfgAt x new N \<Longrightarrow> \<exists>pc. migrate cur new = Some pc \<and> pcOk gob x pc"
  unfolding migrate_def by (rule migrateFrom_ok [of x cur new N]) (simp_all add: migOk_def doneTo_def)

lemma read_stored:
  assumes "storedCfg J x key N"
  obtains s c where "getReply key (sk_kv x) = (s, of_nat N, OK)" "FromString J s = Some c" "cfgAt x c N"
    "readCfg J (getReply key (sk_kv x)) = Some (Some c, of_nat N)"
proof -
  obtain s c where "kvMap (sk_kv x) key = Some \<lparr>ke_value = s, ke_version = of_nat N\<rparr>" "s \<noteq> ''''" "FromString J s = Some c" "cfgAt x c N"
    using assms by (auto simp: storedCfg_def)
  then show ?thesis using that [of s c] by (simp add: getReply_def KVServer_Get_def readCfg_def)
qed

lemma cfgAt_unique: "cfgAt x c N \<Longrightarrow> cfgAt x d M \<Longrightarrow> sc_Num c = sc_Num d \<Longrightarrow> M = N"
  by (simp add: cfgAt_def)

text \<open>The reply to each of the reads: the configuration it is about, and the position after it.\<close>

lemma resume_next:
  assumes p: "pcOk gob x (InitNext c0)" and nxt: "cfgAt x nxt (sysNext x)" "readCfg J v = Some (Some nxt, ver)"
    and cons: "\<And>c1. c0 = Some c1 \<Longrightarrow> int (sysNext x) \<le> sc_Num c1 + 1"
  shows "\<exists>pc. ctlResume J (InitNext c0) (GotGet v) = Some pc \<and> pcOk gob x pc"
proof (cases "\<exists>c1. c0 = Some c1 \<and> sc_Num c1 < sc_Num nxt")
  case True
  then obtain c1 where c1: "c0 = Some c1" "sc_Num c1 < sc_Num nxt" by blast
  obtain N where N: "cfgAt x c1 N" using p c1(1) by (auto simp: pcOk_def)
  have "N = sysNext x - 1" "2 \<le> sysNext x" using N nxt(1) c1(2) cons [OF c1(1)] by (auto simp: cfgAt_def)
  then have "\<exists>pc. migrate c1 nxt = Some pc \<and> pcOk gob x pc" using migrate_ok [of "sysNext x" x c1 nxt] N nxt(1) by simp
  then show ?thesis using nxt(2) c1 by (simp add: ctlResume_def InitController_resume_def)
next
  case False
  then have "ctlResume J (InitNext c0) (GotGet v) = Some CtlIdle"
    using nxt(2) by (auto simp: ctlResume_def InitController_resume_def split: option.splits)
  then show ?thesis by (simp add: pcOk_def)
qed

lemma resume_query:
  assumes p: "pcOk gob x (ChgQuery new)" and cur: "cfgAt x cur (sk_pub x)" "Query J v = Some cur"
  shows "\<exists>pc. ctlResume J (ChgQuery new) (GotGet v) = Some pc \<and> pcOk gob x pc"
proof (cases "sc_Num new \<le> sc_Num cur")
  case True
  then show ?thesis using cur(2) by (simp add: ctlResume_def ChangeConfigTo_resume_def pcOk_def)
next
  case False
  then have "sc_Num new = int (sk_pub x) + 1" "goodCfg new" using p cur(1) by (auto simp: pcOk_def cfgAt_def)
  then show ?thesis using False cur by (auto simp: ctlResume_def ChangeConfigTo_resume_def pcOk_def)
qed

lemma resume_reread:
  assumes J: "json_ok J" and p: "pcOk gob x (ChgReread cur new)" and nxt: "cfgAt x nxt (sysNext x)" "readCfg J v = Some (Some nxt, ver)"
  shows "\<exists>pc. ctlResume J (ChgReread cur new) (GotGet v) = Some pc \<and> pcOk gob x pc"
proof -
  obtain N where N: "goodCfg new" "cfgAt x cur N" "sc_Num new = int N + 1" using p by (auto simp: pcOk_def)
  have "goodCfg nxt" using nxt(1) by (simp add: cfgAt_def)
  then obtain t d where t: "String J nxt = Some t" "FromString J t = Some d" "sc_Num d = sc_Num nxt" "sc_Shards d = sc_Shards nxt"
    by (rule good_string [OF J])
  obtain t' d' where t': "String J new = Some t'" "FromString J t' = Some d'" "sc_Num d' = sc_Num new" "sc_Shards d' = sc_Shards new"
    by (rule good_string [OF J N(1)])
  show ?thesis
  proof (cases "t = t'")
    case True
    then have eq: "sc_Num new = sc_Num nxt" "sc_Shards new = sc_Shards nxt" using t t' by simp_all
    have new: "cfgAt x new (sysNext x)" by (rule cfgAt_cong [OF nxt(1) N(1) eq])
    then have "N = sysNext x - 1" "2 \<le> sysNext x" using N(2,3) by (auto simp: cfgAt_def)
    then have "\<exists>pc. migrate cur new = Some pc \<and> pcOk gob x pc" using migrate_ok [of "sysNext x" x cur new] N(2) new by simp
    then show ?thesis using nxt(2) t(1) t'(1) True by (simp add: ctlResume_def ChangeConfigTo_resume_def)
  next
    case False
    then show ?thesis using nxt(2) t(1) t'(1) by (simp add: ctlResume_def ChangeConfigTo_resume_def pcOk_def)
  qed
qed

lemma resume_get:
  assumes J: "json_ok J" and inv: "sysInv gob J x" and call: "ctlCallOf J (sk_ctl x c) = Some (CallGet key)"
    and cons: "consistentRead (GetRet c) x"
  shows "\<exists>pc. ctlResume J (sk_ctl x c) (GotGet (getReply key (sk_kv x))) = Some pc \<and> pcOk gob x pc"
proof -
  obtain s cur where cfg: "getReply ''cfg'' (sk_kv x) = (s, of_nat (sk_pub x), OK)" "FromString J s = Some cur" "cfgAt x cur (sk_pub x)"
      "readCfg J (getReply ''cfg'' (sk_kv x)) = Some (Some cur, of_nat (sk_pub x))" by (rule read_stored [OF sysInvD(2) [OF inv]])
  obtain s' nxt where nxt: "cfgAt x nxt (sysNext x)" "readCfg J (getReply ''next'' (sk_kv x)) = Some (Some nxt, of_nat (sysNext x))"
    by (rule read_stored [OF sysInvD(3) [OF inv]])
  note pc = sysInvD(7) [OF inv, of c]
  show ?thesis
  proof (cases "sk_ctl x c")
    case InitCur
    then show ?thesis using call cfg by (auto simp: ctlCallOf_def ctlResume_def InitController_resume_def pcOk_def)
  next
    case (InitNext c0)
    then show ?thesis using call pc cons resume_next [OF _ nxt, of gob c0] by (cases c0) (auto simp: ctlCallOf_def consistentRead_def)
  next
    case (ChgQuery new)
    then show ?thesis using call pc cfg(1,2) resume_query [OF _ cfg(3), of gob new J] by (auto simp: ctlCallOf_def Query_def)
  next
    case (ChgReread c1 new)
    then show ?thesis using call pc resume_reread [OF J _ nxt, of gob c1 new] by (auto simp: ctlCallOf_def)
  qed (use call in \<open>auto simp: ctlCallOf_def\<close>)
qed
lemma resume_put:
  assumes J: "json_ok J" and inv: "sysInv gob J x" and call: "ctlCallOf J (sk_ctl x c) = Some (CallPut a)"
    and e: "e = ErrMaybe \<or> (CallPut a, GotPut e) \<in> set (sk_rets x)"
  shows "\<exists>pc. ctlResume J (sk_ctl x c) (GotPut e) = Some pc \<and> pcOk gob x pc"
proof (cases "sk_ctl x c")
  case (ChgNext cur new)
  then obtain N where N: "goodCfg new" "cfgAt x cur N" "N \<le> sk_pub x" "sc_Num new = int N + 1"
    using sysInvD(7) [OF inv, of c] by (auto simp: pcOk_def)
  show ?thesis
  proof (cases "e = OK")
    case True
    obtain s d where d: "String J new = Some s" "s \<noteq> ''''" "FromString J s = Some d" "sc_Num d = sc_Num new" "sc_Shards d = sc_Shards new"
      by (rule good_string [OF J N(1)])
    have "a = \<lparr>pa_Key = ''next'', pa_Value = s, pa_Version = word_of_int (sc_Num new - 1)\<rparr>"
      using call ChgNext d(1) by (simp add: ctlCallOf_def putCfg_def)
    then obtain M where M: "cfgAt x d M" using sysInvD(6) [OF inv, of "(CallPut a, GotPut e)"] e True d(3) by (auto simp: retOk_def)
    have new: "cfgAt x new M" by (rule cfgAt_cong [OF M N(1)]) (use d in simp_all)
    then have "M - 1 = N" "2 \<le> M" using N(2,4) by (auto simp: cfgAt_def)
    then have "\<exists>pc. migrate cur new = Some pc \<and> pcOk gob x pc" using migrate_ok [of M x cur new] N(2) new by simp
    then show ?thesis using ChgNext True by (simp add: ctlResume_def ChangeConfigTo_resume_def)
  next
    case False
    then show ?thesis using ChgNext N by (auto simp: ctlResume_def ChangeConfigTo_resume_def pcOk_def)
  qed
next
  case (Publish new)
  then show ?thesis by (simp add: ctlResume_def ChangeConfigTo_resume_def pcOk_def)
qed (use call in \<open>auto simp: ctlCallOf_def\<close>)

lemma resume_grp:
  assumes inv: "sysInv gob J x" and call: "ctlCallOf J (sk_ctl x c) = Some (CallGrp g q)"
    and r: "(CallGrp g q, GotGrp r) \<in> set (sk_rets x)"
  shows "\<exists>pc. ctlResume J (sk_ctl x c) (GotGrp r) = Some pc \<and> pcOk gob x pc"
proof -
  note pc = sysInvD(7) [OF inv, of c]
  have ret: "grpRet gob x q r" using sysInvD(6) [OF inv r] by (simp add: retOk_def)
  show ?thesis
  proof (cases "sk_ctl x c")
    case (MigFreeze cur new sh)
    then obtain N where N: "sh < NShards" "migOk x cur new N sh" "move (sysOwn x sh) (sysNext x) N" using pc by (auto simp: pcOk_def)
    have q: "q = GrpFreeze \<lparr>fa_Shard = sh, fa_Num = int N\<rparr>" using call MigFreeze migOk_shards(3) [OF N(2)] by (simp add: ctlCallOf_def)
    obtain f where f: "r = RFreeze f" "sysStateOk gob x sh N (fr_State f)" "stateValid gob sh (fr_State f)"
      using ret by (auto simp: q grpRet_def grpRetOk_def reqShard_def Let_def)
    obtain srv where "MakeGrpClerk (sc_Shards new ! sh) new = Some srv" by (rule good_clerk [OF migOk_shards(7) [OF N(2)] N(1)])
    then show ?thesis using MigFreeze N f by (auto simp: ctlResume_def migrate_resume_def pcOk_def)
  next
    case (MigInstall cur new sh st)
    then obtain N where N: "sh < NShards" "migOk x cur new N sh" "move (sysOwn x sh) (sysNext x) N" using pc by (auto simp: pcOk_def)
    have q: "q = GrpInstall \<lparr>ia_Shard = sh, ia_State = st, ia_Num = int N\<rparr>" using call MigInstall migOk_shards(3) [OF N(2)] by (simp add: ctlCallOf_def)
    obtain i where "r = RInstall i" "int N \<le> vNum (sysView x sh (sysOwn x sh N))"
      using ret by (auto simp: q grpRet_def grpRetOk_def reqShard_def Let_def)
    then show ?thesis using MigInstall N by (auto simp: ctlResume_def migrate_resume_def pcOk_def)
  next
    case (MigDelete cur new sh)
    then obtain N where N: "sh < NShards" "migOk x cur new N sh" "move (sysOwn x sh) (sysNext x) N"
        "int N \<le> vNum (sysView x sh (sysOwn x sh N))" using pc by (auto simp: pcOk_def)
    have "q = GrpDelete \<lparr>da_Shard = sh, da_Num = int N\<rparr>" using call MigDelete migOk_shards(3) [OF N(2)] by (simp add: ctlCallOf_def)
    then obtain d where d: "r = RDelete d" using ret by (auto simp: grpRet_def grpRetOk_def Let_def)
    have "moveDone (sysOwn x sh) (sysView x sh) N" using shard_invD(11) [OF groupInvD(2) [OF sysInvD(1) [OF inv] N(1)] N(3)] N(4) by simp
    then have "migOk x cur new N (Suc sh)" using N(2) by (auto simp: migOk_def doneTo_def less_Suc_eq)
    then have "\<exists>pc. migrateFrom cur new [Suc sh..<NShards] = Some pc \<and> pcOk gob x pc" using migrateFrom_ok [of x cur new N "Suc sh"] N(1) by simp
    then show ?thesis using MigDelete d by (simp add: ctlResume_def migrate_resume_def)
  qed (use call in \<open>auto simp: ctlCallOf_def\<close>)
qed

section \<open>The configurations\<close>

lemma version_match:
  assumes "of_nat n = (word_of_int i :: Tversion)" "0 \<le> i" "i \<le> int n" "n < 2 ^ 64"
  shows "i = int n"
proof -
  have "uint (of_nat n :: Tversion) = int n" using assms(4) by (simp add: unsigned_of_nat take_bit_nat_eq_self)
  moreover have "uint (word_of_int i :: Tversion) = i" using assms(2-4) by (simp add: uint_word_of_int take_bit_eq_mod)
  ultimately show ?thesis by (simp only: assms(1))
qed

lemma put_result:
  assumes "kvMap kv (pa_Key a) = Some \<lparr>ke_value = s, ke_version = n\<rparr>"
  shows "KVServer_Put a kv = (if pa_Version a = n
    then (kv\<lparr>kvMap := (kvMap kv)(pa_Key a \<mapsto> \<lparr>ke_value = pa_Value a, ke_version = n + 1\<rparr>)\<rparr>, \<lparr>pr_Err = OK\<rparr>) else (kv, \<lparr>pr_Err = ErrVersion\<rparr>))"
  using assms by (simp add: KVServer_Put_def)

lemma rejected_put:
  assumes inv: "sysInv gob J x" and s: "kvMap (sk_kv x) (pa_Key a) = Some \<lparr>ke_value = s, ke_version = n\<rparr>" "pa_Version a \<noteq> n"
  shows "sysInv gob J (putExec J a x)"
proof -
  let ?y = "putExec J a x"
  have y: "sameWorld x ?y" "sk_calls ?y = sk_calls x" "sk_ctl ?y = sk_ctl x" "sk_rets ?y = (CallPut a, GotPut ErrVersion) # sk_rets x"
    using put_result [OF s(1)] s(2) by (simp_all add: putExec_def sameWorld_def Let_def)
  show ?thesis by (rule sameWorld_frame [OF inv y(1)]) (auto simp: y retOk_def)
qed

text \<open>A put under \<open>next\<close> that succeeds proposes a configuration when none is pending.\<close>

lemma proposed:
  assumes inv: "sysInv gob J x" and n: "sk_pub x = sysNext x"
    and c: "goodCfg c" "sc_Num c = int (sysNext x) + 1" "s \<noteq> ''''" "FromString J s = Some c"
    and y: "sk_cfgs y = sk_cfgs x @ [sc_Shards c]" "sk_pub y = sk_pub x" "sk_grp y = sk_grp x" "sk_ops y = sk_ops x"
      "sk_calls y = sk_calls x" "sk_ctl y = sk_ctl x" "sk_rets y = (CallPut a, GotPut OK) # sk_rets x" "pa_Value a = s"
      "kvMap (sk_kv y) = (kvMap (sk_kv x))(''next'' \<mapsto> \<lparr>ke_value = s, ke_version = of_nat (sysNext x + 1)\<rparr>)"
  shows "sysInv gob J y"
proof -
  note g = sysInvD(1) [OF inv]
  have own: "sysOwn y sh N = sysOwn x sh N" if "1 \<le> N" "N \<le> sysNext x" for N sh
  proof -
    have "N - 1 < sysNext x" using that by linarith
    then show ?thesis by (simp add: y(1) nth_append)
  qed
  have at: "cfgAt y c (sysNext y)" using c(1,2) by (simp add: cfgAt_def y(1))
  note p = propose_next [OF groupInvD(2) [OF g, unfolded n] own]
  have le: "sysLe gob x y" using p(2) unfolding sysLe_def by (simp add: y n sysData_def)
  show ?thesis
  proof (rule sysInv_frame [OF inv le])
    show "groupInv y" using groupInvD(1) [OF g] p(1) by (simp add: groupInv_def y n sysData_def)
    show "storedCfg J y ''cfg'' (sk_pub y)" using sysInvD(2) [OF inv] cfgAt_le [OF le] by (fastforce simp: storedCfg_def y)
    show "storedCfg J y ''next'' (sysNext y)" using c(3,4) at by (simp add: storedCfg_def y)
  qed (use sysInvD(4) [OF inv] c(4) at in \<open>auto simp: y retOk_def\<close>)
qed

lemma next_exec:
  assumes inv: "sysInv gob J x" and small: "sysNext x < 2 ^ 64" and a: "putOk J x a" "pa_Key a = ''next''"
  shows "sysInv gob J (putExec J a x)"
proof -
  note b = pub_bounds [OF sysInvD(1) [OF inv]]
  obtain c where c: "pa_Value a \<noteq> ''''" "FromString J (pa_Value a) = Some c" "goodCfg c" "pa_Version a = word_of_int (sc_Num c - 1)"
    "2 \<le> sc_Num c" "sc_Num c \<le> int (sk_pub x) + 1" using a by (auto simp: putOk_def)
  obtain s where s: "kvMap (sk_kv x) (pa_Key a) = Some \<lparr>ke_value = s, ke_version = of_nat (sysNext x)\<rparr>"
    using sysInvD(3) [OF inv] a(2) by (auto simp: storedCfg_def)
  show ?thesis
  proof (cases "pa_Version a = of_nat (sysNext x)")
    case True
    have "sc_Num c - 1 = int (sysNext x)"
      by (rule version_match) (use True c(4-6) b small in \<open>simp_all\<close>)
    then have n: "sc_Num c = int (sysNext x) + 1" "sk_pub x = sysNext x" using c(6) b by simp_all
    show ?thesis
      by (rule proposed [OF inv n(2) c(3) n(1) c(1,2)])
        (use put_result [OF s] True a(2) c(2) in \<open>simp_all add: putExec_def Let_def add.commute\<close>)
  next
    case False
    show ?thesis by (rule rejected_put [OF inv s False])
  qed
qed

text \<open>A put under \<open>cfg\<close> that succeeds publishes the pending configuration.\<close>

lemma published:
  assumes inv: "sysInv gob J x" and c: "cfgAt x c (sysNext x)" "doneTo x (sysNext x) NShards" "s \<noteq> ''''" "FromString J s = Some c"
    and a: "pa_Key a = ''cfg''"
    and y: "sk_cfgs y = sk_cfgs x" "sk_pub y = sysNext x" "sk_grp y = sk_grp x" "sk_ops y = sk_ops x"
      "sk_calls y = sk_calls x" "sk_ctl y = sk_ctl x" "sk_rets y = (CallPut a, GotPut OK) # sk_rets x"
      "kvMap (sk_kv y) = (kvMap (sk_kv x))(''cfg'' \<mapsto> \<lparr>ke_value = s, ke_version = of_nat (sysNext x)\<rparr>)"
  shows "sysInv gob J y"
proof -
  note g = sysInvD(1) [OF inv]
  have p: "shard_inv (sysOwn x sh) (sysNext x) (sysNext x) (sysView x sh) (sysShard x sh)"
      "\<And>M t. move (sysOwn x sh) (sysNext x) M \<Longrightarrow> stateOk gob (sysOwn x sh) (sysNext x) (sysNext x) (sysView x sh) (sysShard x sh) M t" if "sh < NShards" for sh
    using publish_next [OF groupInvD(2) [OF g that]] c(2) that unfolding doneTo_def by blast+
  have le: "sysLe gob x y" using p(2) pub_bounds(2) [OF g] unfolding sysLe_def by (simp add: y sysData_def)
  show ?thesis
  proof (rule sysInv_frame [OF inv le])
    show "groupInv y" using groupInvD(1) [OF g] p(1) by (simp add: groupInv_def y sysData_def)
    show "storedCfg J y ''cfg'' (sk_pub y)" using c(3,4) cfgAt_le [OF le c(1)] by (simp add: storedCfg_def y)
    show "storedCfg J y ''next'' (sysNext y)" using sysInvD(3) [OF inv] cfgAt_le [OF le] by (fastforce simp: storedCfg_def y)
  qed (use sysInvD(4) [OF inv] a in \<open>auto simp: y retOk_def\<close>)
qed

lemma cfg_exec:
  assumes inv: "sysInv gob J x" and small: "sysNext x < 2 ^ 64" and a: "putOk J x a" "pa_Key a = ''cfg''"
  shows "sysInv gob J (putExec J a x)"
proof -
  note b = pub_bounds [OF sysInvD(1) [OF inv]]
  obtain c N where c: "pa_Value a \<noteq> ''''" "FromString J (pa_Value a) = Some c" "pa_Version a = word_of_int (sc_Num c - 1)"
    "2 \<le> sc_Num c" "cfgAt x c N" "doneTo x N NShards" using a by (auto simp: putOk_def)
  obtain s where s: "kvMap (sk_kv x) (pa_Key a) = Some \<lparr>ke_value = s, ke_version = of_nat (sk_pub x)\<rparr>"
    using sysInvD(2) [OF inv] a(2) by (auto simp: storedCfg_def)
  show ?thesis
  proof (cases "pa_Version a = of_nat (sk_pub x)")
    case True
    have "sc_Num c - 1 = int (sk_pub x)"
      by (rule version_match) (use True c(3-5) b small in \<open>auto simp: cfgAt_def\<close>)
    then have n: "N = sysNext x" "sysNext x = sk_pub x + 1" using c(5) b by (auto simp: cfgAt_def)
    show ?thesis
      by (rule published [OF inv c(5,6) [unfolded n(1)] c(1,2) a(2)])
        (use put_result [OF s] True a(2) n(2) in \<open>simp_all add: putExec_def Let_def add.commute\<close>)
  next
    case False
    show ?thesis by (rule rejected_put [OF inv s False])
  qed
qed
section \<open>The groups\<close>

lemma kvAfter_append: "kvAfter (qs @ qs') m = kvAfter qs' (kvAfter qs m)"
  by (induction qs arbitrary: m) simp_all

lemma opsOk_snoc: "opsOk (ops @ [(q, r)]) \<longleftrightarrow> opsOk ops \<and> r = fst (kvAnswer q (kvAfter (map fst ops) Map.empty))"
  by (auto simp: opsOk_def nth_append less_Suc_eq)

lemma Put_shard:
  assumes "Key2Shard (pa_Key a) = sh"
  shows "shardData sh (kvMap (fst (KVServer_Put a \<lparr>kvMap = m\<rparr>))) = kvMap (fst (KVServer_Put a \<lparr>kvMap = shardData sh m\<rparr>))"
    "snd (KVServer_Put a \<lparr>kvMap = shardData sh m\<rparr>) = snd (KVServer_Put a \<lparr>kvMap = m\<rparr>)"
  using assms by (auto simp: KVServer_Put_def shardData_at shardData_upd split: option.splits)

lemma Put_other_shard:
  "Key2Shard (pa_Key a) \<noteq> sh \<Longrightarrow> shardData sh (kvMap (fst (KVServer_Put a \<lparr>kvMap = m\<rparr>))) = shardData sh m"
  by (auto simp: KVServer_Put_def shardData_upd split: option.splits)

lemma Put_not_wrong: "pr_Err (snd (KVServer_Put a kv)) \<noteq> ErrWrongGroup"
  by (auto simp: KVServer_Put_def split: option.splits)

lemma Get_shard: "Key2Shard (ga_Key a) = sh \<Longrightarrow> KVServer_Get a \<lparr>kvMap = shardData sh m\<rparr> = KVServer_Get a \<lparr>kvMap = m\<rparr>"
  by (simp add: KVServer_Get_def shardData_at)

lemma Get_not_wrong: "gr_Err (KVServer_Get a kv) \<noteq> ErrWrongGroup"
  by (auto simp: KVServer_Get_def split: option.splits)

text \<open>
  A request that a group accepts is answered, and changes the data, as the single server would; any other
  request leaves the data of the service as it is.
\<close>

lemma accepted_ops:
  fixes gob :: mapGob
  assumes d: "vSt v = Ready \<Longrightarrow> vData v = shardData (reqShard q) m" and m: "m = kvAfter (map fst ops) Map.empty"
    and ok: "opsOk ops"
  defines "ops' \<equiv> ops @ accepted q (viewAnswer gob q v)"
  shows "opsOk ops'"
    and "shardData sh (kvAfter (map fst ops') Map.empty) = (if sh = reqShard q then specData q (vSt v) (shardData sh m) else shardData sh m)"
proof -
  have "opsOk ops' \<and> shardData sh (kvAfter (map fst ops') Map.empty) =
      (if sh = reqShard q then specData q (vSt v) (shardData sh m) else shardData sh m)"
  proof (cases q)
    case (GrpGet a)
    have q: "reqShard q = Key2Shard (ga_Key a)" using GrpGet by (simp add: reqShard_def)
    show ?thesis
    proof (cases "vSt v = Ready")
      case True
      then have "ops' = ops @ [(ReqGet a, ResGet (KVServer_Get a \<lparr>kvMap = m\<rparr>))]"
        using d GrpGet q Get_shard [of a "reqShard q" m] Get_not_wrong by (simp add: ops'_def viewAnswer_def accepted_def case_prod_unfold)
      then show ?thesis using ok GrpGet m by (simp add: opsOk_snoc kvAnswer_def kvAfter_append specData_def)
    qed (use ok m GrpGet in \<open>simp add: ops'_def viewAnswer_def accepted_def case_prod_unfold specData_def\<close>)
  next
    case (GrpPut a)
    have q: "reqShard q = Key2Shard (pa_Key a)" using GrpPut by (simp add: reqShard_def)
    show ?thesis
    proof (cases "vSt v = Ready")
      case True
      then have ops': "ops' = ops @ [(ReqPut a, ResPut (snd (KVServer_Put a \<lparr>kvMap = m\<rparr>)))]"
        using d GrpPut q Put_shard(2) [of a "reqShard q" m] Put_not_wrong by (simp add: ops'_def viewAnswer_def accepted_def case_prod_unfold)
      have "kvAfter (map fst ops') Map.empty = kvMap (fst (KVServer_Put a \<lparr>kvMap = m\<rparr>))"
        by (simp add: ops' kvAfter_append kvAnswer_def m case_prod_unfold Let_def)
      moreover have "opsOk ops'" using ok by (simp add: ops' opsOk_snoc kvAnswer_def m case_prod_unfold Let_def)
      ultimately show ?thesis using Put_shard(1) [of a sh m] Put_other_shard [of a sh m] GrpPut True q by (auto simp: specData_def)
    qed (use ok m GrpPut in \<open>simp add: ops'_def viewAnswer_def accepted_def case_prod_unfold specData_def\<close>)
  qed (use ok m in \<open>simp_all add: ops'_def viewAnswer_def accepted_def case_prod_unfold specData_def\<close>)
  then show "opsOk ops'" "shardData sh (kvAfter (map fst ops') Map.empty) = (if sh = reqShard q then specData q (vSt v) (shardData sh m) else shardData sh m)"
    by blast+
qed

lemma shardData_view: "shardData sh (vData (viewOf sh kv)) = vData (viewOf sh kv)"
  by (simp add: viewOf_def)

lemma answer_valid:
  assumes "mapGob_ok gob" "finite (dom d)" "shardData sh d = d" "viewAnswer gob q (st, n, d) = RFreeze f"
  shows "stateValid gob sh (fr_State f)"
proof -
  obtain b where "mg_enc gob d = Some b" "b \<noteq> []" "mg_dec gob b = Some d" using assms(1,2) unfolding mapGob_ok_def by blast
  then show ?thesis using assms(3,4)
    by (cases q) (auto simp: viewAnswer_def stateValid_def stateData_def sliceBytes_def shardData_def split: if_splits)
qed

text \<open>A step of one group changes one shard.\<close>

lemma one_shard_frame:
  assumes inv: "sysInv gob J x" and wf: "\<And>h. grp_wf (sk_grp y h)"
    and y: "sk_kv y = sk_kv x" "sk_cfgs y = sk_cfgs x" "sk_pub y = sk_pub x" "sk_calls y = sk_calls x" "sk_ctl y = sk_ctl x"
    and vw: "\<And>sh. sysView y sh = (if sh = s0 then V' else sysView x sh)"
    and dat: "\<And>sh. sysShard y sh = (if sh = s0 then D' else sysShard x sh)"
    and keep: "shardKeeps gob (sysOwn x s0) (sk_pub x) (sysNext x) (sysView x s0) (sysShard x s0) V' D'"
    and ops: "opsOk (sk_ops y)" and rets: "sk_rets y = r # sk_rets x" "retOk gob J y r"
  shows "sysInv gob J y"
proof -
  have V: "sysView y s0 = V'" "sysShard y s0 = D'" using vw [of s0] dat [of s0] by simp_all
  have V': "sysView y sh = sysView x sh" "sysShard y sh = sysShard x sh" if "sh \<noteq> s0" for sh using vw [of sh] dat [of sh] that by simp_all
  note k = keep [unfolded shardKeeps_def]
  have le: "sysLe gob x y"
    unfolding sysLe_def
  proof (intro conjI allI impI)
    fix sh h N s
    show "vNum (sysView x sh h) \<le> vNum (sysView y sh h)"
    proof (cases "sh = s0")
      case True
      then show ?thesis using k fun_cong [OF V(1), of h] by simp
    qed (use V'(1) in \<open>simp add: fun_eq_iff\<close>)
    assume m: "move (sysOwn x sh) (sysNext x) N" "sysStateOk gob x sh N s"
    show "sysStateOk gob y sh N s"
    proof (cases "sh = s0")
      case True
      then show ?thesis using k m unfolding True V y by blast
    qed (use V' m in \<open>simp only: y not_False_eq_True\<close>)
  qed (simp_all add: y)
  show ?thesis
  proof (rule sysInv_frame [OF inv le])
    have "shard_inv (sysOwn y sh) (sk_pub y) (sysNext y) (sysView y sh) (sysShard y sh)" if "sh < NShards" for sh
    proof (cases "sh = s0")
      case True
      then show ?thesis using k unfolding True V y by blast
    qed (use V' groupInvD(2) [OF sysInvD(1) [OF inv] that] in \<open>simp only: y not_False_eq_True\<close>)
    then show "groupInv y" using wf by (simp add: groupInv_def)
  qed (use sysInvD(2,3) [OF inv] ops rets in \<open>auto simp: storedCfg_def cfgAt_def y\<close>)
qed

lemma grp_exec:
  assumes gob: "mapGob_ok gob" "mapGob_finite gob" and inv: "sysInv gob J x" and q: "reqOk gob x g q"
  shows "\<exists>y. grpExec gob g q x = Some y \<and> sysInv gob J y"
proof -
  let ?sh = "reqShard q"
  define v where "v = viewOf (reqShard q) (sk_grp x g)"
  have wf: "grp_wf (sk_grp x h)" for h by (rule groupInvD(1) [OF sysInvD(1) [OF inv]])
  have val: "validReq gob q" "?sh < NShards" "reqData_ok gob q" using q by (auto simp: reqOk_def validReq_def)
  note si = groupInvD(2) [OF sysInvD(1) [OF inv] val(2)]
  obtain r kv' where op: "ShardServer_DoOp gob 1 q (sk_grp x g) = Some (r, kv')" using DoOp_total [OF wf gob(1) val(1)] by blast
  note view = DoOp_view [OF wf val(3) op, folded v_def]
  define y where "y = x\<lparr>sk_grp := (sk_grp x)(g := kv'), sk_rets := (CallGrp g q, GotGrp r) # sk_rets x, sk_ops := sk_ops x @ accepted q r\<rparr>"
  have y: "sk_kv y = sk_kv x" "sk_cfgs y = sk_cfgs x" "sk_pub y = sk_pub x" "sk_calls y = sk_calls x" "sk_ctl y = sk_ctl x"
    "sk_rets y = (CallGrp g q, GotGrp r) # sk_rets x" "sk_grp y = (sk_grp x)(g := kv')" "sk_ops y = sk_ops x @ accepted q r" by (simp_all add: y_def)
  have fin: "finite (dom (vData v))" using wf by (simp add: v_def viewOf_def grp_wf_def)
  obtain b where b: "mg_enc gob (vData v) = Some b" "b \<noteq> []" "mg_dec gob b = Some (vData v)"
    using gob(1) fin unfolding mapGob_ok_def by blast
  have rdy: "vData v = sysShard x ?sh" if "vSt v = Ready" using put_holder(2) [OF si _ subset_refl, of g] that by (simp add: v_def)
  note acc = accepted_ops [OF rdy sysData_def sysInvD(4) [OF inv], where gob = gob, folded view(1), folded y(8)]
  let ?V' = "(sysView x ?sh)(g := viewStep gob q v)" and ?D' = "specData q (vSt v) (sysShard x ?sh)"
  have vw: "sysView y sh = (if sh = ?sh then ?V' else sysView x sh)" for sh
    using view(2) [of sh] by (auto simp: y(7) fun_eq_iff v_def)
  have dat: "sysShard y sh = (if sh = ?sh then ?D' else sysShard x sh)" for sh using acc(2) [of sh] by (simp add: sysData_def)
  have "grpReqOk gob (sysOwn x ?sh) (sk_pub x) (sysNext x) (sysView x ?sh) (sysShard x ?sh) g q" using q by (simp add: reqOk_def Let_def)
  from request_keeps [OF si this, folded v_def] b
  have keep: "shardKeeps gob (sysOwn x ?sh) (sk_pub x) (sysNext x) (sysView x ?sh) (sysShard x ?sh) ?V' ?D'"
    and ret: "grpRetOk gob (sysOwn x ?sh) (sk_pub x) (sysNext x) ?V' ?D' q r"
    by (simp_all add: stateData_def sliceBytes_def view(1))
  have "stateValid gob ?sh (fr_State f)" if "r = RFreeze f" for f
    using answer_valid [OF gob(1) fin shardData_view [of ?sh "sk_grp x g", folded v_def], of q "vSt v" "vNum v" f] view(1) that by simp
  then have "grpRet gob y q r" using ret val(2) vw [of ?sh] dat [of ?sh] by (simp add: grpRet_def Let_def y(2,3))
  then have "sysInv gob J y"
    using one_shard_frame [OF inv _ y(1-5) vw dat keep acc(1) y(6)] wf DoOp_wf [OF gob(2) wf op] by (simp add: y(7) retOk_def)
  then show ?thesis using op by (simp add: grpExec_def y_def)
qed

section \<open>Every step\<close>

lemma sysDo_inv:
  assumes J: "json_ok J" and gob: "mapGob_ok gob" "mapGob_finite gob" and inv: "sysInv gob J x" and small: "sysNext x < 2 ^ 64"
    and step: "sysDo gob J a x = Some y" and fresh: "\<not> sk_stale y"
  shows "sysInv gob J y"
proof (cases a)
  case (StartInit c)
  then show ?thesis using step setPc_inv [OF J inv, of InitCur c] by (auto simp: InitController_def pcOk_def split: if_splits)
next
  case (StartChange c new)
  then show ?thesis using step setPc_inv [OF J inv, of "ChgQuery new" c] by (auto simp: ChangeConfigTo_def pcOk_def split: if_splits)
next
  case (CtlCrash c)
  then show ?thesis using step setPc_inv [OF J inv, of CtlIdle c] by (auto simp: pcOk_def)
next
  case (GetRet c)
  then obtain key where key: "ctlCallOf J (sk_ctl x c) = Some (CallGet key)" using step by (auto split: option.splits ctlCall.splits)
  have cons: "consistentRead (GetRet c) x" and "\<not> sk_stale x" using step fresh GetRet key by (auto simp: resumeWith_def setPc_def split: bind_splits)
  then have same: "x\<lparr>sk_stale := sk_stale x \<or> \<not> consistentRead (GetRet c) x\<rparr> = x" by simp
  obtain pc where "ctlResume J (sk_ctl x c) (GotGet (getReply key (sk_kv x))) = Some pc" "pcOk gob x pc"
    using resume_get [OF J inv key cons] by blast
  then show ?thesis using step GetRet key setPc_inv [OF J inv] by (auto simp: same resumeWith_def)
next
  case (PutExec p)
  then have p: "putOk J x p" "y = putExec J p x" using step sysInvD(5) [OF inv, of "CallPut p"] by (auto simp: callOk_def split: if_splits)
  have "pa_Key p = ''next'' \<or> pa_Key p = ''cfg''" using p(1) by (auto simp: putOk_def)
  then show ?thesis using next_exec [OF inv small p(1)] cfg_exec [OF inv small p(1)] p(2) by blast
next
  case (PutRet c e)
  then obtain p where p: "ctlCallOf J (sk_ctl x c) = Some (CallPut p)" "e = ErrMaybe \<or> (CallPut p, GotPut e) \<in> set (sk_rets x)"
    using step by (auto split: option.splits ctlCall.splits if_splits)
  obtain pc where "ctlResume J (sk_ctl x c) (GotPut e) = Some pc" "pcOk gob x pc" using resume_put [OF J inv p] by blast
  then show ?thesis using step PutRet p setPc_inv [OF J inv] by (auto simp: resumeWith_def)
next
  case (GrpExec g q)
  then have "reqOk gob x g q" "grpExec gob g q x = Some y" using step sysInvD(5) [OF inv, of "CallGrp g q"] by (auto simp: callOk_def split: if_splits)
  then show ?thesis using grp_exec [OF gob inv, of g q] by auto
next
  case (GrpRet c r)
  then obtain g q where q: "ctlCallOf J (sk_ctl x c) = Some (CallGrp g q)" "(CallGrp g q, GotGrp r) \<in> set (sk_rets x)"
    using step by (auto split: option.splits ctlCall.splits if_splits)
  obtain pc where "ctlResume J (sk_ctl x c) (GotGrp r) = Some pc" "pcOk gob x pc" using resume_grp [OF inv q] by blast
  then show ?thesis using step GrpRet q setPc_inv [OF J inv] by (auto simp: resumeWith_def)
next
  case (ClientCall g q)
  then have y: "y = x\<lparr>sk_calls := CallGrp g q # sk_calls x\<rparr>" and q: "(\<exists>a. q = GrpGet a) \<or> (\<exists>a. q = GrpPut a)"
    using step by (auto split: grpReq.splits)
  have "callOk gob J y (CallGrp g q)" using q by (auto simp: callOk_def reqOk_def validReq_def reqShard_def reqData_ok_def grpReqOk_def)
  then show ?thesis by (intro sameWorld_frame [OF inv]) (auto simp: y sameWorld_def)
qed

lemma sysDo_grows: "sysDo gob J a x = Some y \<Longrightarrow> sysNext x \<le> sysNext y \<and> (sk_stale x \<longrightarrow> sk_stale y)"
  by (cases a) (auto simp: setPc_def resumeWith_def putExec_def grpExec_def Let_def
      split: if_splits option.splits ctlCall.splits grpReq.splits prod.splits Option.bind_splits)

definition firstCfg :: "ShardConfig \<Rightarrow> bool" where
  "firstCfg cfg \<longleftrightarrow> goodCfg cfg \<and> sc_Num cfg = NumFirst \<and> sc_Shards cfg = replicate NShards Gid1"

lemma sysInit_inv:
  assumes J: "json_ok J" and cfg: "firstCfg cfg" and kv: "InitConfig J cfg MakeKVServer = Some kv"
  shows "sysInv gob J (sysInit kv cfg)"
proof -
  have good: "goodCfg cfg" and num: "sc_Num cfg = 1" "sc_Shards cfg = replicate NShards 1"
    using cfg by (simp_all add: firstCfg_def NumFirst_def Gid1_def)
  obtain s d where d: "String J cfg = Some s" "s \<noteq> ''''" "FromString J s = Some d" "sc_Num d = sc_Num cfg" "sc_Shards d = sc_Shards cfg" "goodCfg d"
    by (rule good_string [OF J good])
  let ?x = "sysInit kv cfg"
  have kvs: "kvMap kv = [''cfg'' \<mapsto> \<lparr>ke_value = s, ke_version = 1\<rparr>, ''next'' \<mapsto> \<lparr>ke_value = s, ke_version = 1\<rparr>]"
    using kv by (auto simp: InitConfig_def putCfg_def d(1) KVServer_Put_def MakeKVServer_def Let_def)
  have "cfgAt ?x d 1" using d num by (simp add: cfgAt_def sysInit_def)
  then have st: "storedCfg J ?x ''cfg'' 1" "storedCfg J ?x ''next'' 1" using d(2,3) by (simp_all add: storedCfg_def sysInit_def kvs)
  have "shard_inv (\<lambda>N. [sc_Shards cfg] ! (N - 1) ! sh) 1 1 (\<lambda>g. viewOf sh (newShardServer g)) Map.empty" if "sh < NShards" for sh
    by (rule shard_invI [of _ _ _ _ 1]) (use that in \<open>auto simp: num holder_def moving_def viewOf_def newShardServer_def Gid1_def NumFirst_def shardData_def move_def split: if_splits\<close>)
  then have "groupInv ?x" by (simp add: groupInv_def sysInit_def sysData_def shardData_def)
  then show ?thesis using st by (simp add: sysInv_def opsOk_def pcOk_def) (simp add: sysInit_def)
qed

lemma shard_reach_inv:
  assumes "shard_reach gob J cfg x" "json_ok J" "mapGob_ok gob" "mapGob_finite gob" "firstCfg cfg" "sysNext x < 2 ^ 64" "\<not> sk_stale x"
  shows "sysInv gob J x"
  using assms
proof (induction rule: shard_reach.induct)
  case (init kv)
  then show ?case using sysInit_inv by blast
next
  case (step x a y)
  have small: "sysNext x < 2 ^ 64" "\<not> sk_stale x" using sysDo_grows [OF step.hyps(2)] step.prems(5,6) by auto
  show ?case by (rule sysDo_inv [OF step.prems(1-3) step.IH [OF step.prems(1-4) small] small(1) step.hyps(2) step.prems(6)])
qed

lemma sysRun_reach: "sysRun gob J as x = Some y \<Longrightarrow> shard_reach gob J cfg x \<Longrightarrow> shard_reach gob J cfg y"
proof (induction as arbitrary: x)
  case (Cons a as)
  then obtain z where "sysDo gob J a x = Some z" "sysRun gob J as z = Some y" by (auto split: Option.bind_splits)
  then show ?case using Cons shard_reach.step by blast
qed simp

end
