(* ===== verification/ShardKV.thy ===== *)
theory ShardKV
  imports ShardSys
begin

text \<open>
  What the sharded service promises: it answers like one server while shards move, a shard is served by one
  group at a time, and controllers and groups do not panic. A recovery that reads the two configurations at
  different times breaks the first promise; a concrete execution shows it.
\<close>

section \<open>Properties\<close>

text \<open>The group that holds the data of a key is the one of the published or of the last proposed configuration.\<close>

lemma holder_of_key:
  assumes "sysInv gob J x"
  obtains g where "g \<in> {sk_cfgs x ! (sk_pub x - 1) ! Key2Shard key, last (sk_cfgs x) ! Key2Shard key}"
    "ss_kvMap (sk_grp x g) key = kvAfter (map fst (sk_ops x)) Map.empty key"
    "\<And>h. ss_shardState (sk_grp x h) ! Key2Shard key = Ready \<Longrightarrow> h = g"
    "sk_pub x = length (sk_cfgs x) \<Longrightarrow> ss_shardState (sk_grp x g) ! Key2Shard key = Ready"
proof -
  let ?sh = "Key2Shard key"
  let ?g = "holder (sysOwn x ?sh) (sk_pub x) (sysNext x) (sysView x ?sh)"
  have gi: "groupInv x" by (rule sysInvD(1) [OF assms])
  note si = groupInvD(2) [OF gi, of ?sh, simplified]
  have "sk_cfgs x \<noteq> []" using pub_bounds [OF gi] by auto
  then have "?g \<in> {sk_cfgs x ! (sk_pub x - 1) ! ?sh, last (sk_cfgs x) ! ?sh}" by (simp add: holder_def last_conv_nth)
  moreover have "ss_kvMap (sk_grp x ?g) key = kvAfter (map fst (sk_ops x)) Map.empty key"
    using fun_cong [OF shard_invD(4) [OF si], of key] by (simp add: viewOf_def sysData_def shardData_at)
  moreover have "h = ?g" if "ss_shardState (sk_grp x h) ! ?sh = Ready" for h
    using shard_invD(6) [OF si, of h] that by (auto simp: viewOf_def)
  moreover have "ss_shardState (sk_grp x ?g) ! ?sh = Ready" if "sk_pub x = length (sk_cfgs x)"
  proof -
    have "\<not> moving (sysOwn x ?sh) (sk_pub x) (sysNext x) (sysView x ?sh)" using that by (simp add: moving_def)
    then show ?thesis using shard_invD(5) [OF si] by (simp add: viewOf_def)
  qed
  ultimately show ?thesis by (rule that)
qed

text \<open>
  C3. The sharded service is one server. In every state that the service reaches, with any number of controllers
  that run at the same time and stop anywhere, with lost, delayed and repeated calls, and with any sequence of
  configurations, the requests that the groups have accepted, in the order of their execution, have been answered
  exactly as one single server answers them in that order, and the groups together hold what that server holds:
  every key has a group, that of the published or of the last proposed configuration, whose entry for the key is
  that of the single server, and no other group serves the key. In particular no update is lost when a shard
  moves. The conditions are that no controller that recovered has read a next configuration more than one ahead of
  the current one it had read before (\<open>sk_stale\<close> is false, which the code does not enforce), that
  configurations are numbered at most one above the published one, and that there are fewer than \<open>2^64\<close> of them.
\<close>

theorem shardkv_one_copy:
  assumes "json_ok J" "mapGob_ok gob" "mapGob_finite gob" "firstCfg cfg" "shard_reach gob J cfg x" "length (sk_cfgs x) < 2 ^ 64"
    and "\<not> sk_stale x"
  shows "(\<forall>i < length (sk_ops x).
      snd (sk_ops x ! i) = fst (kvAnswer (fst (sk_ops x ! i)) (kvAfter (map fst (take i (sk_ops x))) Map.empty))) \<and>
    (\<forall>key. \<exists>g \<in> {sk_cfgs x ! (sk_pub x - 1) ! Key2Shard key, last (sk_cfgs x) ! Key2Shard key}.
      ss_kvMap (sk_grp x g) key = kvAfter (map fst (sk_ops x)) Map.empty key \<and>
      (\<forall>h. ss_shardState (sk_grp x h) ! Key2Shard key = Ready \<longrightarrow> h = g))"
proof -
  have inv: "sysInv gob J x" by (rule shard_reach_inv [OF assms(5,1-4,6,7)])
  show ?thesis
  proof (intro conjI allI impI)
    fix key
    show "\<exists>g \<in> {sk_cfgs x ! (sk_pub x - 1) ! Key2Shard key, last (sk_cfgs x) ! Key2Shard key}.
      ss_kvMap (sk_grp x g) key = kvAfter (map fst (sk_ops x)) Map.empty key \<and>
      (\<forall>h. ss_shardState (sk_grp x h) ! Key2Shard key = Ready \<longrightarrow> h = g)"
      by (rule holder_of_key [OF inv, of key]) blast
  qed (use sysInvD(4) [OF inv] in \<open>simp add: opsOk_def\<close>)
qed

text \<open>
  C11. A key is served by at most one group at any time, and at every moment this is the group that the published
  or the last proposed configuration names. When no change of the configuration is pending, the group that the
  published configuration names does serve it, with the data of the single server. The conditions are those of
  the sharded service being one server: above all, no controller that recovered has read inconsistent
  configurations.
\<close>

theorem shardkv_one_owner:
  assumes "json_ok J" "mapGob_ok gob" "mapGob_finite gob" "firstCfg cfg" "shard_reach gob J cfg x" "length (sk_cfgs x) < 2 ^ 64"
    and "\<not> sk_stale x"
  shows "(ss_shardState (sk_grp x g) ! Key2Shard key = Ready \<and> ss_shardState (sk_grp x h) ! Key2Shard key = Ready \<longrightarrow> g = h) \<and>
    (ss_shardState (sk_grp x g) ! Key2Shard key = Ready \<longrightarrow>
      g = sk_cfgs x ! (sk_pub x - 1) ! Key2Shard key \<or> g = last (sk_cfgs x) ! Key2Shard key) \<and>
    (sk_pub x = length (sk_cfgs x) \<longrightarrow>
      (let owner = last (sk_cfgs x) ! Key2Shard key in
       ss_shardState (sk_grp x owner) ! Key2Shard key = Ready \<and>
       ss_kvMap (sk_grp x owner) key = kvAfter (map fst (sk_ops x)) Map.empty key))"
proof -
  have inv: "sysInv gob J x" by (rule shard_reach_inv [OF assms(5,1-4,6,7)])
  obtain k where k: "k \<in> {sk_cfgs x ! (sk_pub x - 1) ! Key2Shard key, last (sk_cfgs x) ! Key2Shard key}"
    "ss_kvMap (sk_grp x k) key = kvAfter (map fst (sk_ops x)) Map.empty key"
    "\<And>h. ss_shardState (sk_grp x h) ! Key2Shard key = Ready \<Longrightarrow> h = k"
    "sk_pub x = length (sk_cfgs x) \<Longrightarrow> ss_shardState (sk_grp x k) ! Key2Shard key = Ready" by (rule holder_of_key [OF inv, of key]) blast
  have "sk_cfgs x \<noteq> []" using pub_bounds [OF sysInvD(1) [OF inv]] by auto
  then have "k = last (sk_cfgs x) ! Key2Shard key" if "sk_pub x = length (sk_cfgs x)" using k(1) that by (auto simp: last_conv_nth)
  note own = this
  show ?thesis unfolding Let_def
  proof (intro conjI impI)
    show "g = h" if "ss_shardState (sk_grp x g) ! Key2Shard key = Ready \<and> ss_shardState (sk_grp x h) ! Key2Shard key = Ready"
      using k(3) [of g] k(3) [of h] that by simp
    show "g = sk_cfgs x ! (sk_pub x - 1) ! Key2Shard key \<or> g = last (sk_cfgs x) ! Key2Shard key"
      if "ss_shardState (sk_grp x g) ! Key2Shard key = Ready" using k(1) k(3) [OF that] by blast
  qed (use own k(2,4) in \<open>metis+\<close>)
qed

text \<open>
  C18. Controllers and groups do not panic: in every state that the service reaches, a group executes every call
  that is on its way, and a controller can go on with every reply that it may get: no configuration is missing or
  fails to decode, no shard number is out of range, and no clerk is made for a group without servers. As before,
  the reads of controllers that recover are consistent.
\<close>

theorem shardkv_never_panics:
  assumes "json_ok J" "mapGob_ok gob" "mapGob_finite gob" "firstCfg cfg" "shard_reach gob J cfg x" "length (sk_cfgs x) < 2 ^ 64"
    and "\<not> sk_stale x"
  shows "(CallGrp g q \<in> set (sk_calls x) \<longrightarrow> grpExec gob g q x \<noteq> None) \<and>
    (ctlCallOf J (sk_ctl x c) = Some (CallGet key) \<and> consistentRead (GetRet c) x \<longrightarrow>
       ctlResume J (sk_ctl x c) (GotGet (getReply key (sk_kv x))) \<noteq> None) \<and>
    (ctlCallOf J (sk_ctl x c) = Some (CallPut a) \<and> (e = ErrMaybe \<or> (CallPut a, GotPut e) \<in> set (sk_rets x)) \<longrightarrow>
       ctlResume J (sk_ctl x c) (GotPut e) \<noteq> None) \<and>
    (ctlCallOf J (sk_ctl x c) = Some (CallGrp g q) \<and> (CallGrp g q, GotGrp r) \<in> set (sk_rets x) \<longrightarrow>
       ctlResume J (sk_ctl x c) (GotGrp r) \<noteq> None)"
proof (intro conjI impI; (elim conjE)?)
  have inv: "sysInv gob J x" by (rule shard_reach_inv [OF assms(5,1-4,6,7)])
  show "grpExec gob g q x \<noteq> None" if "CallGrp g q \<in> set (sk_calls x)"
    using grp_exec [OF assms(2,3) inv, of g q] sysInvD(5) [OF inv that] by (auto simp: callOk_def)
  show "ctlResume J (sk_ctl x c) (GotGet (getReply key (sk_kv x))) \<noteq> None"
    if "ctlCallOf J (sk_ctl x c) = Some (CallGet key)" "consistentRead (GetRet c) x"
    using resume_get [OF assms(1) inv that] by auto
  show "ctlResume J (sk_ctl x c) (GotPut e) \<noteq> None"
    if "ctlCallOf J (sk_ctl x c) = Some (CallPut a)" "e = ErrMaybe \<or> (CallPut a, GotPut e) \<in> set (sk_rets x)"
    using resume_put [OF assms(1) inv that] by auto
  show "ctlResume J (sk_ctl x c) (GotGrp r) \<noteq> None"
    if "ctlCallOf J (sk_ctl x c) = Some (CallGrp g q)" "(CallGrp g q, GotGrp r) \<in> set (sk_rets x)"
    using resume_grp [OF inv that] by auto
qed

section \<open>Executions\<close>

definition demo_str :: "ShardConfig \<Rightarrow> string" where
  "demo_str c = replicate (Suc (to_nat (sc_Num c, sc_Shards c, sc_Groups c))) CHR ''j''"

definition demo_json :: jsonCodec where
  "demo_json = \<lparr>js_Marshal = (\<lambda>c. Some (demo_str c)),
     js_Unmarshal = (\<lambda>s. case from_nat (length s - 1) of (n, sh, gr) \<Rightarrow> Some \<lparr>sc_Num = n, sc_Shards = sh, sc_Groups = gr\<rparr>)\<rparr>"

lemma demo_str_ne [simp]: "demo_str c \<noteq> []"
  by (simp add: demo_str_def)

lemma demo_String [simp]: "String demo_json c = Some (demo_str c)"
  by (simp add: String_def demo_json_def)

lemma demo_FromString [simp]: "FromString demo_json (demo_str c) = Some c"
  by (simp add: FromString_def demo_json_def demo_str_def)

lemma demo_json_ok: "json_ok demo_json"
  using demo_String demo_FromString demo_str_ne unfolding json_ok_def sameCfg_def String_def FromString_def by blast

lemma demo_enc [simp]: "mg_enc demo_mapGob m = Some (packed (mapEntries m))"
  by (simp add: demo_mapGob_def)

lemma demo_dec [simp]: "finite (dom m) \<Longrightarrow> mg_dec demo_mapGob (packed (mapEntries m)) = Some m"
  by (simp add: demo_mapGob_def map_of_mapEntries)

lemma demo_shard: "Key2Shard ''x'' = 3"
  by (simp add: Key2Shard_def goBytes_def charByte_def NShards_def)

definition demo_cfgOf :: "int \<Rightarrow> int \<Rightarrow> ShardConfig" where
  "demo_cfgOf n g = \<lparr>sc_Num = n, sc_Shards = [1, 1, 1, g, 1, 1, 1, 1, 1, 1, 1, 1], sc_Groups = [(1, [''s1'']), (2, [''s2'']), (3, [''s3''])]\<rparr>"

lemma demo_firstCfg: "firstCfg (demo_cfgOf 1 1)"
  by (simp add: firstCfg_def demo_cfgOf_def goodCfg_def asciiCfg_def NShards_def NumFirst_def Gid1_def eval_nat_numeral)

definition demo_kput :: grpReq where
  "demo_kput = GrpPut \<lparr>pa_Key = ''x'', pa_Value = ''1'', pa_Version = 0\<rparr>"

definition demo_kget :: grpReq where
  "demo_kget = GrpGet \<lparr>ga_Key = ''x''\<rparr>"

definition demo_map :: kvMap where
  "demo_map = [''x'' \<mapsto> \<lparr>ke_value = ''1'', ke_version = 1\<rparr>]"

text \<open>The calls and replies of a controller that moves shard 3 for configuration \<open>n\<close>.\<close>

definition demo_migrate :: "nat \<Rightarrow> int \<Rightarrow> int \<Rightarrow> int \<Rightarrow> slice \<Rightarrow> sysAct list" where
  "demo_migrate c n src dst st =
     [GrpExec src (GrpFreeze \<lparr>fa_Shard = 3, fa_Num = n\<rparr>), GrpRet c (RFreeze \<lparr>fr_State = st, fr_Num = n, fr_Err = OK\<rparr>),
      GrpExec dst (GrpInstall \<lparr>ia_Shard = 3, ia_State = st, ia_Num = n\<rparr>), GrpRet c (RInstall \<lparr>ir_Err = OK\<rparr>),
      GrpExec src (GrpDelete \<lparr>da_Shard = 3, da_Num = n\<rparr>), GrpRet c (RDelete \<lparr>dr_Err = OK\<rparr>)]"

definition demo_propose :: "nat \<Rightarrow> ShardConfig \<Rightarrow> sysAct list" where
  "demo_propose c new = [StartChange c new, GetRet c,
     PutExec \<lparr>pa_Key = ''next'', pa_Value = demo_str new, pa_Version = word_of_int (sc_Num new - 1)\<rparr>, PutRet c OK]"

definition demo_publish :: "nat \<Rightarrow> ShardConfig \<Rightarrow> sysAct list" where
  "demo_publish c new = [PutExec \<lparr>pa_Key = ''cfg'', pa_Value = demo_str new, pa_Version = word_of_int (sc_Num new - 1)\<rparr>, PutRet c OK]"

definition demo_moves :: "sysAct list" where
  "demo_moves = [ClientCall 1 demo_kput, GrpExec 1 demo_kput] @ demo_propose 0 (demo_cfgOf 2 2) @
     demo_migrate 0 2 1 2 (Some (packed (mapEntries demo_map))) @ demo_publish 0 (demo_cfgOf 2 2) @
     [ClientCall 2 demo_kget, GrpExec 2 demo_kget]"

definition demo_kv :: KVServer where
  "demo_kv = \<lparr>kvMap = [''cfg'' \<mapsto> \<lparr>ke_value = demo_str (demo_cfgOf 1 1), ke_version = 1\<rparr>,
     ''next'' \<mapsto> \<lparr>ke_value = demo_str (demo_cfgOf 1 1), ke_version = 1\<rparr>]\<rparr>"

lemma demo_InitConfig: "InitConfig demo_json (demo_cfgOf 1 1) MakeKVServer = Some demo_kv"
  by (simp add: InitConfig_def putCfg_def KVServer_Put_def MakeKVServer_def demo_kv_def)

lemma demo_goodCfg: "g \<in> {1, 2, 3} \<Longrightarrow> goodCfg (demo_cfgOf n g)"
  by (auto simp: goodCfg_def demo_cfgOf_def asciiCfg_def NShards_def eval_nat_numeral)

lemma demo_data: "shardData 3 demo_map = demo_map" "finite (dom demo_map)" "shardData 3 Map.empty = Map.empty" "demo_map ''x'' = Some \<lparr>ke_value = ''1'', ke_version = 1\<rparr>"
  using demo_shard by (auto simp: demo_map_def shardData_def)

lemma demo_migrate_start:
  "h \<noteq> g \<Longrightarrow> h \<in> {1, 2, 3} \<Longrightarrow> migrate (demo_cfgOf m h) (demo_cfgOf n g) = Some (MigFreeze (demo_cfgOf m h) (demo_cfgOf n g) 3)"
  by (auto simp: migrate_def NShards_def upt_rec demo_cfgOf_def MakeGrpClerk_def eval_nat_numeral)

lemma demo_migrate_end: "migrateFrom (demo_cfgOf m h) (demo_cfgOf n g) [4..<NShards] = Some (Publish (demo_cfgOf n g))"
  by (simp add: NShards_def upt_rec demo_cfgOf_def eval_nat_numeral)

text \<open>A group with what it has of shard 3.\<close>

definition demo_grp :: "int \<Rightarrow> ShardState \<Rightarrow> int \<Rightarrow> kvMap \<Rightarrow> ShardServer" where
  "demo_grp gid st n d = (let s = (if gid = 1 then Ready else NotOwned) in
     \<lparr>ss_gid = gid, ss_kvMap = d, ss_shardState = [s, s, s, st, s, s, s, s, s, s, s, s], ss_cfgNum = [1, 1, 1, n, 1, 1, 1, 1, 1, 1, 1, 1]\<rparr>)"

lemma demo_start: "newShardServer g = demo_grp g (if g = 1 then Ready else NotOwned) 1 Map.empty"
  by (simp add: demo_grp_def newShardServer_def NShards_def NumFirst_def Gid1_def eval_nat_numeral)

lemma demo_put: "ShardServer_DoOp demo_mapGob i demo_kput (demo_grp gid Ready n Map.empty) = Some (RPut \<lparr>pr_Err = OK\<rparr>, demo_grp gid Ready n demo_map)"
  by (simp add: ShardServer_DoOp_def demo_kput_def DoPut_def demo_shard demo_grp_def demo_map_def Let_def)

lemma demo_get: "ShardServer_DoOp demo_mapGob i demo_kget (demo_grp gid Ready n d) =
    Some (RGet (KVServer_Get \<lparr>ga_Key = ''x''\<rparr> \<lparr>kvMap = d\<rparr>), demo_grp gid Ready n d)"
  by (simp add: ShardServer_DoOp_def demo_kget_def DoGet_def demo_shard demo_grp_def Let_def KVServer_Get_def split: option.splits)

lemma demo_freeze_op:
  "n \<le> N \<Longrightarrow> shardData 3 d = d \<Longrightarrow> ShardServer_DoOp demo_mapGob i (GrpFreeze \<lparr>fa_Shard = 3, fa_Num = N\<rparr>) (demo_grp gid st n d) =
     Some (RFreeze \<lparr>fr_State = Some (packed (mapEntries d)), fr_Num = N, fr_Err = OK\<rparr>, demo_grp gid Frozen N d)"
  by (simp add: ShardServer_DoOp_def DoFreezeShard_def dumpShard_def demo_grp_def Let_def)

lemma demo_install_op:
  "n < N \<Longrightarrow> finite (dom d') \<Longrightarrow> ShardServer_DoOp demo_mapGob i (GrpInstall \<lparr>ia_Shard = 3, ia_State = Some (packed (mapEntries d')), ia_Num = N\<rparr>) (demo_grp gid st n d) =
     Some (RInstall \<lparr>ir_Err = OK\<rparr>, demo_grp gid Ready N (d ++ d'))"
  by (simp add: ShardServer_DoOp_def DoInstallShard_def loadShard_data stateData_def sliceBytes_def demo_grp_def Let_def)

lemma demo_delete_op:
  "n \<le> N \<Longrightarrow> shardData 3 d = d \<Longrightarrow> ShardServer_DoOp demo_mapGob i (GrpDelete \<lparr>da_Shard = 3, da_Num = N\<rparr>) (demo_grp gid st n d) =
     Some (RDelete \<lparr>dr_Err = OK\<rparr>, demo_grp gid NotOwned N Map.empty)"
proof -
  assume n: "n \<le> N" and d: "shardData 3 d = d"
  have "(\<lambda>k. if Key2Shard k = 3 then None else d k) = Map.empty"
    by (rule ext) (metis d shardData_def)
  then show ?thesis using n by (simp add: ShardServer_DoOp_def DoDeleteShard_def deleteShardData_def demo_grp_def Let_def cong: if_cong)
qed

lemma demo_client:
  "case_grpReq f1 f2 f3 f4 f5 f6 demo_kput = f2 \<lparr>pa_Key = ''x'', pa_Value = ''1'', pa_Version = 0\<rparr>"
  "case_grpReq f1 f2 f3 f4 f5 f6 demo_kget = f1 \<lparr>ga_Key = ''x''\<rparr>"
  "accepted demo_kput (RPut \<lparr>pr_Err = OK\<rparr>) = [(ReqPut \<lparr>pa_Key = ''x'', pa_Value = ''1'', pa_Version = 0\<rparr>, ResPut \<lparr>pr_Err = OK\<rparr>)]"
  "accepted demo_kget (RGet r) = (if gr_Err r \<noteq> ErrWrongGroup then [(ReqGet \<lparr>ga_Key = ''x''\<rparr>, ResGet r)] else [])"
  "accepted (GrpFreeze fa) r' = []" "accepted (GrpInstall ia) r' = []" "accepted (GrpDelete da) r' = []"
  by (simp_all add: demo_kput_def demo_kget_def accepted_def)

lemmas demo_ops = demo_client demo_put demo_get demo_freeze_op demo_install_op demo_delete_op demo_start demo_data
  demo_migrate_start demo_migrate_end demo_goodCfg

lemmas demo_sys = setPc_def resumeWith_def ctlCallOf_def ctlResume_def getReply_def readCfg_def Query_def putCfg_def
  InitController_def InitController_resume_def ChangeConfigTo_def ChangeConfigTo_resume_def migrate_resume_def
  putExec_def KVServer_Put_def KVServer_Get_def MakeGrpClerk_def grpExec_def

lemma demo_cfg_fields: "sc_Num (demo_cfgOf n g) = n" "sc_Shards (demo_cfgOf n g) ! 3 = g" "map_of (sc_Groups (demo_cfgOf n g)) 1 = Some [''s1'']"
  "map_of (sc_Groups (demo_cfgOf n g)) 2 = Some [''s2'']" "map_of (sc_Groups (demo_cfgOf n g)) 3 = Some [''s3'']"
  by (simp_all add: demo_cfgOf_def)

abbreviation demo_put_done :: "kvReq \<times> kvRes" where
  "demo_put_done \<equiv> (ReqPut \<lparr>pa_Key = ''x'', pa_Value = ''1'', pa_Version = 0\<rparr>, ResPut \<lparr>pr_Err = OK\<rparr>)"

lemma demo_moves_run:
  "\<exists>x. sysRun demo_mapGob demo_json demo_moves (sysInit demo_kv (demo_cfgOf 1 1)) = Some x \<and> length (sk_cfgs x) = 2 \<and> sk_pub x = 2 \<and>
     sk_ops x = [demo_put_done, (ReqGet \<lparr>ga_Key = ''x''\<rparr>, ResGet \<lparr>gr_Value = ''1'', gr_Version = 1, gr_Err = OK\<rparr>)] \<and>
     last (sk_cfgs x) ! 3 = 2 \<and> CallGrp 2 demo_kget \<in> set (sk_calls x) \<and> \<not> sk_stale x"
  by (simp add: demo_moves_def demo_propose_def demo_migrate_def demo_publish_def sysInit_def demo_kv_def demo_sys demo_ops demo_cfg_fields
      consistentRead_def)

lemma demo_moves_reach:
  obtains x where "shard_reach demo_mapGob demo_json (demo_cfgOf 1 1) x" "length (sk_cfgs x) = 2" "sk_pub x = 2"
    "sk_ops x = [demo_put_done, (ReqGet \<lparr>ga_Key = ''x''\<rparr>, ResGet \<lparr>gr_Value = ''1'', gr_Version = 1, gr_Err = OK\<rparr>)]"
    "last (sk_cfgs x) ! 3 = 2" "CallGrp 2 demo_kget \<in> set (sk_calls x)" "\<not> sk_stale x"
proof -
  obtain x where x: "sysRun demo_mapGob demo_json demo_moves (sysInit demo_kv (demo_cfgOf 1 1)) = Some x" "length (sk_cfgs x) = 2" "sk_pub x = 2"
    "sk_ops x = [demo_put_done, (ReqGet \<lparr>ga_Key = ''x''\<rparr>, ResGet \<lparr>gr_Value = ''1'', gr_Version = 1, gr_Err = OK\<rparr>)]"
    "last (sk_cfgs x) ! 3 = 2" "CallGrp 2 demo_kget \<in> set (sk_calls x)" "\<not> sk_stale x"
    using demo_moves_run by (elim exE conjE)
  show ?thesis by (rule that [OF sysRun_reach [OF x(1) shard_reach.init [OF demo_InitConfig]] x(2-)])
qed

theorem shardkv_one_copy_witness:
  "\<exists>x. shard_reach demo_mapGob demo_json (demo_cfgOf 1 1) x \<and> \<not> sk_stale x \<and> length (sk_ops x) = 2 \<and>
     snd (sk_ops x ! 1) = fst (kvAnswer (fst (sk_ops x ! 1)) (kvAfter (map fst (take 1 (sk_ops x))) Map.empty)) \<and>
     snd (sk_ops x ! 1) = ResGet \<lparr>gr_Value = ''1'', gr_Version = 1, gr_Err = OK\<rparr> \<and>
     (\<exists>g. ss_kvMap (sk_grp x g) ''x'' = Some \<lparr>ke_value = ''1'', ke_version = 1\<rparr>)"
proof -
  obtain x where x: "shard_reach demo_mapGob demo_json (demo_cfgOf 1 1) x" "length (sk_cfgs x) = 2" "sk_pub x = 2"
    "sk_ops x = [demo_put_done, (ReqGet \<lparr>ga_Key = ''x''\<rparr>, ResGet \<lparr>gr_Value = ''1'', gr_Version = 1, gr_Err = OK\<rparr>)]"
    "\<not> sk_stale x" by (rule demo_moves_reach)
  have small: "length (sk_cfgs x) < 2 ^ 64" by (simp add: x(2))
  note one = shardkv_one_copy [OF demo_json_ok demo_mapGob_ok demo_mapGob_finite demo_firstCfg x(1) small x(5)]
  have "snd (sk_ops x ! 1) = fst (kvAnswer (fst (sk_ops x ! 1)) (kvAfter (map fst (take 1 (sk_ops x))) Map.empty))"
    by (rule conjunct1 [OF one, rule_format]) (simp add: x(4))
  moreover have "kvAfter (map fst (sk_ops x)) Map.empty ''x'' = Some \<lparr>ke_value = ''1'', ke_version = 1\<rparr>"
    by (simp add: x(4) kvAnswer_def KVServer_Put_def)
  then have "\<exists>g. ss_kvMap (sk_grp x g) ''x'' = Some \<lparr>ke_value = ''1'', ke_version = 1\<rparr>"
    using spec [OF conjunct2 [OF one], of "''x''"] by auto
  ultimately show ?thesis using x(1,4,5) by (intro exI [of _ x]) simp
qed

theorem shardkv_one_owner_witness:
  "\<exists>x. shard_reach demo_mapGob demo_json (demo_cfgOf 1 1) x \<and> \<not> sk_stale x \<and> sk_pub x = length (sk_cfgs x) \<and>
     ss_shardState (sk_grp x 2) ! Key2Shard ''x'' = Ready \<and> ss_shardState (sk_grp x 1) ! Key2Shard ''x'' \<noteq> Ready \<and>
     ss_kvMap (sk_grp x 2) ''x'' = Some \<lparr>ke_value = ''1'', ke_version = 1\<rparr>"
proof -
  obtain x where x: "shard_reach demo_mapGob demo_json (demo_cfgOf 1 1) x" "length (sk_cfgs x) = 2" "sk_pub x = 2"
    "sk_ops x = [demo_put_done, (ReqGet \<lparr>ga_Key = ''x''\<rparr>, ResGet \<lparr>gr_Value = ''1'', gr_Version = 1, gr_Err = OK\<rparr>)]"
    "last (sk_cfgs x) ! 3 = 2" "\<not> sk_stale x" by (rule demo_moves_reach)
  have small: "length (sk_cfgs x) < 2 ^ 64" by (simp add: x(2))
  have "kvAfter (map fst (sk_ops x)) Map.empty ''x'' = Some \<lparr>ke_value = ''1'', ke_version = 1\<rparr>"
    by (simp add: x(4) kvAnswer_def KVServer_Put_def)
  then show ?thesis
    using shardkv_one_owner [OF demo_json_ok demo_mapGob_ok demo_mapGob_finite demo_firstCfg x(1) small x(6), of 1 "''x''" 2] x
    by (intro exI [of _ x]) (auto simp: demo_shard Let_def)
qed

theorem shardkv_never_panics_witness:
  "\<exists>x. shard_reach demo_mapGob demo_json (demo_cfgOf 1 1) x \<and> \<not> sk_stale x \<and> CallGrp 2 demo_kget \<in> set (sk_calls x) \<and>
     grpExec demo_mapGob 2 demo_kget x \<noteq> None"
proof -
  obtain x where x: "shard_reach demo_mapGob demo_json (demo_cfgOf 1 1) x" "length (sk_cfgs x) = 2"
    "CallGrp 2 demo_kget \<in> set (sk_calls x)" "\<not> sk_stale x" by (rule demo_moves_reach)
  have small: "length (sk_cfgs x) < 2 ^ 64" by (simp add: x(2))
  show ?thesis
    using shardkv_never_panics [OF demo_json_ok demo_mapGob_ok demo_mapGob_finite demo_firstCfg x(1) small x(4), of 2 demo_kget] x(1,3,4) by blast
qed

section \<open>A recovery that reads at two times\<close>

text \<open>
  Controller 1 recovers and reads the current configuration 1. Controller 0 then moves the shard from group 1
  to group 2 for configuration 2, and proposes configuration 3. Controller 1 reads that one as the next one
  and moves the shard from group 1, where it is no more, to group 3.
\<close>

definition demo_stale :: "sysAct list" where
  "demo_stale = [ClientCall 1 demo_kput, GrpExec 1 demo_kput, StartInit 1, GetRet 1] @ demo_propose 0 (demo_cfgOf 2 2) @
     demo_migrate 0 2 1 2 (Some (packed (mapEntries demo_map))) @ demo_publish 0 (demo_cfgOf 2 2) @
     demo_propose 0 (demo_cfgOf 3 3) @ [GetRet 1] @ demo_migrate 1 3 1 3 (Some (packed (mapEntries Map.empty))) @
     demo_publish 1 (demo_cfgOf 3 3) @ [ClientCall 3 demo_kget, GrpExec 3 demo_kget]"

text \<open>
  C33. A recovering controller can lose data. There is an execution, with every call executed once and answered,
  in which a put succeeds and a later get of the same key, which the group of the last published configuration
  answers, reports that there is no such key: \<open>InitController\<close> reads \<open>cfg\<close> and \<open>next\<close> at different
  times and moves shards from a configuration that is two behind.
\<close>

theorem shardkv_stale_recovery_loses_data:
  "\<exists>x. sysRun demo_mapGob demo_json demo_stale (sysInit demo_kv (demo_cfgOf 1 1)) = Some x \<and> sk_pub x = 3 \<and>
     sk_ops x = [demo_put_done, (ReqGet \<lparr>ga_Key = ''x''\<rparr>, ResGet \<lparr>gr_Value = '''', gr_Version = 0, gr_Err = ErrNoKey\<rparr>)] \<and>
     fst (kvAnswer (fst (sk_ops x ! 1)) (kvAfter (map fst (take 1 (sk_ops x))) Map.empty)) =
       ResGet \<lparr>gr_Value = ''1'', gr_Version = 1, gr_Err = OK\<rparr>"
  by (simp add: demo_stale_def demo_propose_def demo_migrate_def demo_publish_def sysInit_def demo_kv_def demo_sys demo_ops demo_cfg_fields
      kvAnswer_def)

end
