(* ===== verification/PebbleStore.thy ===== *)
theory PebbleStore
  imports Demo RecordLog
begin

text \<open>
  The disk store of \<open>kvraft1/pebblestore/pebblestore.go\<close>. Pebble, gob and the tar format are
  parameters; what is used of them are the hypotheses \<open>pebble_ok\<close>, \<open>entryGob_ok\<close> and
  \<open>tar_ok\<close>.
\<close>

unbundle bit_operations_syntax

section \<open>Words of eight bytes\<close>

text \<open>\<open>binary.BigEndian.PutUint64\<close> and \<open>Uint64\<close>\<close>

definition putUint64 :: "64 word \<Rightarrow> bytes" where
  "putUint64 w = putUint32 (ucast (drop_bit 32 w)) @ putUint32 (ucast w)"

definition getUint64 :: "bytes \<Rightarrow> 64 word" where
  "getUint64 bs = push_bit 32 (ucast (getUint32 bs)) OR ucast (getUint32 (drop 4 bs))"

lemma length_putUint64 [simp]: "length (putUint64 w) = 8"
  by (simp add: putUint64_def)

lemma getUint64_put: "getUint64 (putUint64 w) = w"
proof (rule bit_word_eqI)
  fix n assume n: "n < LENGTH(64)"
  have "getUint32 (putUint32 a) = a" for a using getUint32_put [of a "[]"] by simp
  with n show "bit (getUint64 (putUint64 w)) n = bit w n"
    by (cases "n < 32") (auto simp: getUint64_def putUint64_def getUint32_put bit_simps)
qed

section \<open>Pebble\<close>

text \<open>
  The database: a lookup finds a value, finds none or fails; a batch is a list of writes that is
  committed as one; a checkpoint is a directory as \<open>filepath.Walk\<close> lists it, and a database can be
  opened on the files of a directory. \<open>pb_synced\<close> says that all that is committed is on the
  disk: a commit with \<open>Sync\<close> and an opened directory make it so. \<open>pb_Reopen\<close> is
  \<open>pebble.Open\<close> on the live directory of a database whose process has ended; only a synced
  database is then promised to be what it was.
\<close>

datatype walkItem = Dir string | File string bytes

text \<open>\<open>pebble.WriteOptions\<close>: a commit with \<open>Sync\<close> returns once it is on the disk.\<close>

datatype writeOptions = Sync | NoSync

record 'd pebble =
  pb_Get :: "bytes \<Rightarrow> 'd \<Rightarrow> bytes option option"
  pb_Commit :: "writeOptions \<Rightarrow> (bytes \<times> bytes) list \<Rightarrow> 'd \<Rightarrow> 'd option"
  pb_synced :: "'d \<Rightarrow> bool"
  pb_Checkpoint :: "'d \<Rightarrow> walkItem list option"
  pb_Open :: "(string \<rightharpoonup> bytes) \<Rightarrow> 'd option"
  pb_Reopen :: "'d \<Rightarrow> 'd option"

record entryGob =
  eg_enc :: "kvEntry \<Rightarrow> bytes option"
  eg_dec :: "bytes \<Rightarrow> kvEntry option"

record tarCodec =
  tar_write :: "(string \<times> bytes) list \<Rightarrow> bytes option"
  tar_read :: "bytes \<Rightarrow> (string \<times> bytes) list option"

fun filesOf :: "walkItem list \<Rightarrow> (string \<times> bytes) list" where
  "filesOf [] = []"
| "filesOf (Dir path # items) = filesOf items"
| "filesOf (File path content # items) = (path, content) # filesOf items"

definition pebble_ok :: "'d pebble \<Rightarrow> bool" where
  "pebble_ok pb \<longleftrightarrow>
     (\<forall>d k. pb_Get pb k d \<noteq> None) \<and>
     (\<forall>d ws opt. \<exists>d'. pb_Commit pb opt ws d = Some d' \<and> (opt = Sync \<longrightarrow> pb_synced pb d') \<and>
        (\<forall>k. pb_Get pb k d' = (case map_of (rev ws) k of Some v \<Rightarrow> Some (Some v) | None \<Rightarrow> pb_Get pb k d))) \<and>
     (\<forall>d. pb_synced pb d \<longrightarrow> (\<exists>items d'. pb_Checkpoint pb d = Some items \<and> distinct (map fst (filesOf items)) \<and>
        pb_Open pb (map_of (filesOf items)) = Some d' \<and> pb_synced pb d' \<and> (\<forall>k. pb_Get pb k d' = pb_Get pb k d))) \<and>
     (\<forall>d. pb_synced pb d \<longrightarrow> (\<exists>d'. pb_Reopen pb d = Some d' \<and> pb_synced pb d' \<and> (\<forall>k. pb_Get pb k d' = pb_Get pb k d)))"

definition entryGob_ok :: "entryGob \<Rightarrow> bool" where
  "entryGob_ok eg \<longleftrightarrow> (\<forall>e. \<exists>b. eg_enc eg e = Some b \<and> eg_dec eg b = Some e)"

definition tar_ok :: "tarCodec \<Rightarrow> bool" where
  "tar_ok T \<longleftrightarrow> (\<forall>fs. distinct (map fst fs) \<longrightarrow> (\<exists>b. tar_write T fs = Some b \<and> b \<noteq> [] \<and> tar_read T b = Some fs))"

definition appliedKey :: bytes where
  "appliedKey = [0]"

definition userKey :: "string \<Rightarrow> bytes" where
  "userKey k = 1 # goBytes k"

definition Pebble_encodeEntry :: "entryGob \<Rightarrow> kvEntry \<Rightarrow> bytes option" where
  "Pebble_encodeEntry eg e = eg_enc eg e"

definition Pebble_decodeEntry :: "entryGob \<Rightarrow> bytes \<Rightarrow> kvEntry option" where
  "Pebble_decodeEntry eg b = eg_dec eg b"

definition encodeIndex :: "int \<Rightarrow> bytes" where
  "encodeIndex i = putUint64 (word_of_int i)"

definition decodeIndex :: "bytes \<Rightarrow> int option" where
  "decodeIndex b = (if length b < 8 then None else Some (sint (getUint64 b)))"

definition Store_Get :: "'d pebble \<Rightarrow> entryGob \<Rightarrow> string \<Rightarrow> 'd \<Rightarrow> (string \<times> Tversion \<times> bool) option" where
  "Store_Get pb eg key db =
     do { r \<leftarrow> pb_Get pb (userKey key) db;
          case r of None \<Rightarrow> Some ('''', 0, False)
          | Some v \<Rightarrow> do { e \<leftarrow> Pebble_decodeEntry eg v; Some (ke_value e, ke_version e, True) } }"

definition Store_Put :: "'d pebble \<Rightarrow> entryGob \<Rightarrow> int \<Rightarrow> string \<Rightarrow> string \<Rightarrow> Tversion \<Rightarrow> 'd \<Rightarrow> 'd option" where
  "Store_Put pb eg index key value version db =
     do { b \<leftarrow> Pebble_encodeEntry eg \<lparr>ke_value = value, ke_version = version\<rparr>;
          pb_Commit pb Sync [(userKey key, b), (appliedKey, encodeIndex index)] db }"

definition Store_AppliedIndex :: "'d pebble \<Rightarrow> 'd \<Rightarrow> int option" where
  "Store_AppliedIndex pb db =
     do { r \<leftarrow> pb_Get pb appliedKey db;
          case r of None \<Rightarrow> Some 0 | Some v \<Rightarrow> decodeIndex v }"

definition tarDir :: "tarCodec \<Rightarrow> walkItem list \<Rightarrow> bytes option" where
  "tarDir T items = tar_write T (filesOf items)"

fun untarLoop :: "(string \<times> bytes) list \<Rightarrow> (string \<rightharpoonup> bytes) \<Rightarrow> (string \<rightharpoonup> bytes)" where
  "untarLoop [] dir = dir"
| "untarLoop ((name, content) # rest) dir = untarLoop rest (dir(name \<mapsto> content))"

definition untarDir :: "tarCodec \<Rightarrow> slice \<Rightarrow> (string \<rightharpoonup> bytes) option" where
  "untarDir T data = map_option (\<lambda>es. untarLoop es Map.empty) (tar_read T (case data of None \<Rightarrow> [] | Some b \<Rightarrow> b))"

definition Store_Snapshot :: "'d pebble \<Rightarrow> tarCodec \<Rightarrow> 'd \<Rightarrow> bytes option" where
  "Store_Snapshot pb T db = do { ckpt \<leftarrow> pb_Checkpoint pb db; tarDir T ckpt }"

definition Store_Restore :: "'d pebble \<Rightarrow> tarCodec \<Rightarrow> slice \<Rightarrow> 'd \<Rightarrow> 'd option" where
  "Store_Restore pb T data db = do { newDir \<leftarrow> untarDir T data; pb_Open pb newDir }"

definition Store_Open :: "'d pebble \<Rightarrow> 'd \<Rightarrow> 'd option" where
  "Store_Open pb db = pb_Reopen pb db"

definition pebbleStore :: "'d pebble \<Rightarrow> entryGob \<Rightarrow> tarCodec \<Rightarrow> 'd KVStore" where
  "pebbleStore pb eg T = \<lparr>kv_Get = Store_Get pb eg, kv_Put = Store_Put pb eg,
     kv_AppliedIndex = Store_AppliedIndex pb, kv_Snapshot = Store_Snapshot pb T, kv_Restore = Store_Restore pb T\<rparr>"


section \<open>The store keeps its contract\<close>

text \<open>The map that a database stands for, its mark, and what its values have to be.\<close>

definition pebble_kv :: "'d pebble \<Rightarrow> entryGob \<Rightarrow> 'd \<Rightarrow> kvMap" where
  "pebble_kv pb eg d k = (case pb_Get pb (userKey k) d of Some (Some v) \<Rightarrow> eg_dec eg v | _ \<Rightarrow> None)"

definition pebble_applied :: "'d pebble \<Rightarrow> 'd \<Rightarrow> int" where
  "pebble_applied pb d = (case Store_AppliedIndex pb d of Some i \<Rightarrow> i | None \<Rightarrow> 0)"

definition pebble_inv :: "'d pebble \<Rightarrow> entryGob \<Rightarrow> tarCodec \<Rightarrow> 'd \<Rightarrow> bool" where
  "pebble_inv pb eg T d \<longleftrightarrow> pebble_ok pb \<and> entryGob_ok eg \<and> tar_ok T \<and> pb_synced pb d \<and>
     (\<forall>k v. pb_Get pb (userKey k) d = Some (Some v) \<longrightarrow> eg_dec eg v \<noteq> None) \<and>
     (\<forall>v. pb_Get pb appliedKey d = Some (Some v) \<longrightarrow> 8 \<le> length v)"

lemma pebble_okD:
  assumes "pebble_ok pb"
  shows "\<exists>r. pb_Get pb k d = Some r"
    "\<exists>d'. pb_Commit pb opt ws d = Some d' \<and> (opt = Sync \<longrightarrow> pb_synced pb d') \<and>
      (\<forall>k. pb_Get pb k d' = (case map_of (rev ws) k of Some v \<Rightarrow> Some (Some v) | None \<Rightarrow> pb_Get pb k d))"
    "pb_synced pb d \<Longrightarrow> \<exists>items d'. pb_Checkpoint pb d = Some items \<and> distinct (map fst (filesOf items)) \<and>
      pb_Open pb (map_of (filesOf items)) = Some d' \<and> pb_synced pb d' \<and> (\<forall>k. pb_Get pb k d' = pb_Get pb k d)"
    "pb_synced pb d \<Longrightarrow> \<exists>d'. pb_Reopen pb d = Some d' \<and> pb_synced pb d' \<and> (\<forall>k. pb_Get pb k d' = pb_Get pb k d)"
  using assms unfolding pebble_ok_def by blast+

lemma userKey_inj [simp]: "userKey k = userKey k' \<longleftrightarrow> k = k'"
  by (simp add: userKey_def)

lemma userKey_applied [simp]: "userKey k \<noteq> appliedKey" "appliedKey \<noteq> userKey k"
  by (simp_all add: userKey_def appliedKey_def)

lemma decodeIndex_encode: "- (2 ^ 63) \<le> i \<Longrightarrow> i < 2 ^ 63 \<Longrightarrow> decodeIndex (encodeIndex i) = Some i"
  by (simp add: decodeIndex_def encodeIndex_def getUint64_put sint_sbintrunc' signed_take_bit_int_eq_self)

text \<open>A synced database is determined by its lookups.\<close>

lemma pebble_same_gets:
  assumes "\<And>k. pb_Get pb k d' = pb_Get pb k d"
  shows "pebble_kv pb eg d' = pebble_kv pb eg d" "pebble_applied pb d' = pebble_applied pb d"
    "pb_synced pb d' \<Longrightarrow> pebble_inv pb eg T d \<Longrightarrow> pebble_inv pb eg T d'"
  by (auto simp: pebble_kv_def fun_eq_iff pebble_applied_def Store_AppliedIndex_def pebble_inv_def assms)

lemma untarLoop_map_of: "distinct (map fst es) \<Longrightarrow> untarLoop es dir = dir ++ map_of es"
proof (induction es arbitrary: dir)
  case (Cons e rest)
  obtain name content where e: "e = (name, content)" by (cases e)
  with Cons.prems have none: "map_of rest name = None" by (simp add: map_of_eq_None_iff)
  have "untarLoop (e # rest) dir = untarLoop rest (dir(name \<mapsto> content))" by (simp only: e untarLoop.simps)
  also have "\<dots> = dir(name \<mapsto> content) ++ map_of rest" by (rule Cons.IH) (use Cons.prems in simp)
  also have "\<dots> = dir ++ map_of (e # rest)"
    by (rule ext) (simp add: map_add_def e none split: option.splits)
  finally show ?case .
qed simp

lemma pebble_invD:
  assumes "pebble_inv pb eg T d"
  shows "pebble_ok pb" "entryGob_ok eg" "tar_ok T"
    "pb_Get pb (userKey k) d = Some (Some v) \<Longrightarrow> \<exists>e. eg_dec eg v = Some e"
    "pb_Get pb appliedKey d = Some (Some v) \<Longrightarrow> 8 \<le> length v"
    "pb_synced pb d"
  using assms unfolding pebble_inv_def by auto

lemma Store_Get_kv:
  assumes "pebble_inv pb eg T d"
  shows "Store_Get pb eg k d = Some (case pebble_kv pb eg d k of None \<Rightarrow> ('''', 0, False)
    | Some e \<Rightarrow> (ke_value e, ke_version e, True))"
proof -
  obtain r where r: "pb_Get pb (userKey k) d = Some r" using pebble_okD(1) [OF pebble_invD(1) [OF assms]] by blast
  show ?thesis
  proof (cases r)
    case None
    then show ?thesis using r by (simp add: Store_Get_def pebble_kv_def)
  next
    case (Some v)
    then obtain e where "eg_dec eg v = Some e" using pebble_invD(4) [OF assms] r by blast
    then show ?thesis using r Some by (simp add: Store_Get_def pebble_kv_def Pebble_decodeEntry_def)
  qed
qed

lemma Store_AppliedIndex_kv:
  assumes "pebble_inv pb eg T d"
  shows "Store_AppliedIndex pb d = Some (pebble_applied pb d)"
proof -
  obtain r where r: "pb_Get pb appliedKey d = Some r" using pebble_okD(1) [OF pebble_invD(1) [OF assms]] by blast
  show ?thesis
  proof (cases r)
    case (Some v)
    then have "8 \<le> length v" using pebble_invD(5) [OF assms] r by blast
    then show ?thesis using r Some by (simp add: Store_AppliedIndex_def pebble_applied_def decodeIndex_def)
  qed (use r in \<open>simp add: Store_AppliedIndex_def pebble_applied_def\<close>)
qed

lemma Store_Put_kv:
  assumes inv: "pebble_inv pb eg T d" and i: "0 < i" "i < 2 ^ 63"
  shows "\<exists>d'. Store_Put pb eg i k v n d = Some d' \<and> pebble_inv pb eg T d' \<and>
    pebble_kv pb eg d' = (pebble_kv pb eg d)(k \<mapsto> \<lparr>ke_value = v, ke_version = n\<rparr>) \<and> pebble_applied pb d' = i"
proof -
  let ?e = "\<lparr>ke_value = v, ke_version = n\<rparr>"
  obtain b where b: "eg_enc eg ?e = Some b" "eg_dec eg b = Some ?e"
    using pebble_invD(2) [OF inv] unfolding entryGob_ok_def by blast
  let ?ws = "[(userKey k, b), (appliedKey, encodeIndex i)]"
  obtain d' where d': "pb_Commit pb Sync ?ws d = Some d'"
    "\<And>x. pb_Get pb x d' = (case map_of (rev ?ws) x of Some v \<Rightarrow> Some (Some v) | None \<Rightarrow> pb_Get pb x d)"
    "pb_synced pb d'"
    using pebble_okD(2) [OF pebble_invD(1) [OF inv], of Sync ?ws d] by blast
  have get: "pb_Get pb (userKey x) d' = (if x = k then Some (Some b) else pb_Get pb (userKey x) d)"
    "pb_Get pb appliedKey d' = Some (Some (encodeIndex i))" for x by (simp_all add: d'(2))
  have "pebble_inv pb eg T d'" using pebble_invD [OF inv] b(2) d'(3)
    by (auto simp: pebble_inv_def get encodeIndex_def split: if_splits)
  moreover have "pebble_kv pb eg d' = (pebble_kv pb eg d)(k \<mapsto> ?e)"
    by (rule ext) (simp add: pebble_kv_def get b(2))
  moreover have "pebble_applied pb d' = i"
    using i by (simp add: pebble_applied_def Store_AppliedIndex_def get decodeIndex_encode)
  ultimately show ?thesis using b d'(1) by (simp add: Store_Put_def Pebble_encodeEntry_def)
qed

lemma Store_Snapshot_kv:
  assumes inv: "pebble_inv pb eg T d"
  shows "\<exists>b d'. Store_Snapshot pb T d = Some b \<and> b \<noteq> [] \<and> Store_Restore pb T (Some b) d0 = Some d' \<and>
    pebble_inv pb eg T d' \<and> pebble_kv pb eg d' = pebble_kv pb eg d \<and> pebble_applied pb d' = pebble_applied pb d"
proof -
  obtain items d' where i: "pb_Checkpoint pb d = Some items" "distinct (map fst (filesOf items))"
    "pb_Open pb (map_of (filesOf items)) = Some d'" "\<And>k. pb_Get pb k d' = pb_Get pb k d" "pb_synced pb d'"
    using pebble_okD(3) [OF pebble_invD(1) [OF inv], of d] pebble_invD(6) [OF inv] by blast
  obtain b where b: "tar_write T (filesOf items) = Some b" "b \<noteq> []" "tar_read T b = Some (filesOf items)"
    using pebble_invD(3) [OF inv] i(2) unfolding tar_ok_def by blast
  show ?thesis
    using i b inv pebble_same_gets [OF i(4)] untarLoop_map_of [OF i(2), of Map.empty]
    by (simp add: Store_Snapshot_def tarDir_def Store_Restore_def untarDir_def)
qed

interpretation ps: kv_store "pebbleStore pb eg T" "pebble_inv pb eg T" "pebble_kv pb eg" "pebble_applied pb"
  "\<lambda>i. i" "\<lambda>i. 0 < i \<and> i < 2 ^ 63" for pb eg T
  by unfold_locales (use Store_Snapshot_kv in \<open>auto simp: pebbleStore_def Store_Get_kv Store_Put_kv Store_AppliedIndex_kv\<close>)

section \<open>Properties\<close>

lemma Store_Open_kv:
  assumes "pebble_inv pb eg T d"
  shows "\<exists>d'. Store_Open pb d = Some d' \<and> pebble_inv pb eg T d' \<and> pebble_kv pb eg d' = pebble_kv pb eg d \<and>
    pebble_applied pb d' = pebble_applied pb d"
proof -
  obtain d' where d': "pb_Reopen pb d = Some d'" "\<And>k. pb_Get pb k d' = pb_Get pb k d" "pb_synced pb d'"
    using pebble_okD(4) [OF pebble_invD(1) [OF assms], of d] pebble_invD(6) [OF assms] by blast
  then show ?thesis using assms pebble_same_gets [OF d'(2)] by (simp add: Store_Open_def)
qed

lemma pebble_new:
  assumes "pebble_ok pb" "entryGob_ok eg" "tar_ok T" "\<And>k. pb_Get pb k d0 = Some None" "pb_synced pb d0"
  shows "pebble_inv pb eg T d0" "pebble_kv pb eg d0 = newMapStore" "pebble_applied pb d0 = 0"
  using assms by (auto simp: pebble_inv_def pebble_kv_def pebble_applied_def Store_AppliedIndex_def newMapStore_def)

text \<open>
  What a reopened database makes of the operations behind index \<open>j\<close>, when it has executed the
  first \<open>k\<close> of the log.
\<close>

lemma kvRun_resume:
  assumes "k \<le> length L"
  shows "fst (kvRun (\<lambda>j. j) (1 + int j) (drop j L) (kvRun (\<lambda>j. j) 1 (take k L) (m, 0))) =
    fst (kvRun (\<lambda>_. -1) 1 (if j \<le> k then L else take k L @ drop j L) (m, -1))"
proof (cases "j \<le> k")
  case True
  let ?P = "take k L" and ?Q = "drop k L"
  have split: "drop j L = drop j ?P @ ?Q" using True assms
    by (metis append_take_drop_id drop_append drop0 diff_is_0_eq length_take min.absorb2)
  have "kvRun (\<lambda>j. j) (1 + int j) (drop j L) (kvRun (\<lambda>j. j) 1 ?P (m, 0)) = kvRun (\<lambda>j. j) 1 (?P @ ?Q) (m, 0)"
    using kvRun_replay [of "(m, 0)" 1 j ?P] True assms by (simp add: split kvRun_append del: append_take_drop_id)
  then show ?thesis using kvRun_first [of "(m, 0)" 1 L] True by simp
next
  case False
  let ?x = "kvRun (\<lambda>j. j) 1 (take k L) (m, 0)"
  have x: "fst ?x = fst (kvRun (\<lambda>_. -1) 1 (take k L) (m, -1))" "snd ?x < 1 + int j"
    using kvRun_first [of "(m, 0)" 1 "take k L"] False assms by auto
  have "kvRun (\<lambda>_. -1) 1 (take k L) (m, -1) = (fst ?x, -1)" unfolding x(1) by (rule kvRun_no_mark) simp
  then have "kvRun (\<lambda>_. -1) 1 (take k L @ drop j L) (m, -1) = kvRun (\<lambda>_. -1) (1 + int k) (drop j L) (fst ?x, -1)"
    using assms by (simp add: kvRun_append)
  then show ?thesis using kvRun_first [OF x(2), of "drop j L"] kvRun_index [of "1 + int j" "1 + int k"] False by simp
qed

text \<open>
  C14. Recovery of the disk store. A server on a new database executes the first \<open>k\<close> operations
  of the log \<open>L\<close>, its process ends, the database is opened again, and Raft delivers the
  operations behind the index \<open>j\<close> of its snapshot. All this returns. If the snapshot is not
  ahead of the database (\<open>j \<le> k\<close>), the database then holds what the in-memory store holds after
  the whole log, each operation executed once, those that are delivered again included. If it is
  ahead (\<open>k < j\<close>: a received snapshot was persisted, and the process ended before the database
  was replaced by it), the operations \<open>k + 1\<close> to \<open>j\<close> are missing.
\<close>

theorem pebble_replay_exactly_once:
  assumes "pebble_ok pb" "entryGob_ok eg" "tar_ok T" "mapGob_ok g" "\<And>k. pb_Get pb k d0 = Some None" "pb_synced pb d0"
    and "k \<le> length L" "int (length L) < 2 ^ 63 - 1"
  shows "\<exists>d d' e m.
    applyAll (pebbleStore pb eg T) 1 (take k L) d0 = Some d \<and> Store_Open pb d = Some d' \<and>
    applyAll (pebbleStore pb eg T) (1 + int j) (drop j L) d' = Some e \<and>
    applyAll (mapStore g) 1 (if j \<le> k then L else take k L @ drop j L) newMapStore = Some m \<and> pebble_kv pb eg e = m"
proof -
  note new = pebble_new [OF assms(1-3,5,6)]
  let ?run = "kvRun (\<lambda>j. j)" and ?L = "if j \<le> k then L else take k L @ drop j L"
  obtain d where d: "applyAll (pebbleStore pb eg T) 1 (take k L) d0 = Some d" "pebble_inv pb eg T d"
    "(pebble_kv pb eg d, pebble_applied pb d) = ?run 1 (take k L) (newMapStore, 0)"
    using ps.applyAll_kv [OF new(1), of 1 "take k L"] assms(8) new by fastforce
  obtain d' where d': "Store_Open pb d = Some d'" "pebble_inv pb eg T d'"
    "(pebble_kv pb eg d', pebble_applied pb d') = ?run 1 (take k L) (newMapStore, 0)"
    using Store_Open_kv [OF d(2)] d(3) by force
  obtain e where e: "applyAll (pebbleStore pb eg T) (1 + int j) (drop j L) d' = Some e"
    "(pebble_kv pb eg e, pebble_applied pb e) = ?run (1 + int j) (drop j L) (?run 1 (take k L) (newMapStore, 0))"
    using ps.applyAll_kv [OF d'(2), of "1 + int j" "drop j L"] assms(8) d'(3) by fastforce
  obtain m where m: "applyAll (mapStore g) 1 ?L newMapStore = Some m" "(m, -1) = kvRun (\<lambda>_. -1) 1 ?L (newMapStore, -1)"
    using ms.applyAll_kv [of newMapStore g 1 ?L] assms(4) by (auto simp: newMapStore_def)
  have "pebble_kv pb eg e = m" using kvRun_resume [OF assms(7), of j newMapStore] e(2) m(2) by (metis fst_conv)
  then show ?thesis using d(1) d'(1) e(1) m(1) by blast
qed

text \<open>
  A database for the example: the list of writes, those of them that are on the disk, and one file
  that holds the latter.
\<close>

definition demo_pebble :: "((bytes \<times> bytes) list \<times> (bytes \<times> bytes) list) pebble" where
  "demo_pebble = \<lparr>pb_Get = (\<lambda>k (mem, disk). Some (map_of mem k)),
     pb_Commit = (\<lambda>opt ws (mem, disk). Some (rev ws @ mem, if opt = Sync then rev ws @ mem else disk)),
     pb_synced = (\<lambda>(mem, disk). mem = disk),
     pb_Checkpoint = (\<lambda>(mem, disk). Some [Dir ''db'', File ''db/000001.sst'' (packed disk)]),
     pb_Open = (\<lambda>dir. map_option (\<lambda>b. (unpacked b, unpacked b)) (dir ''db/000001.sst'')),
     pb_Reopen = (\<lambda>(mem, disk). Some (disk, disk))\<rparr>"

definition demo_entryGob :: entryGob where
  "demo_entryGob = \<lparr>eg_enc = (\<lambda>e. Some (packed (ke_value e, ke_version e))),
     eg_dec = (\<lambda>b. case unpacked b of (v, n) \<Rightarrow> Some \<lparr>ke_value = v, ke_version = n\<rparr>)\<rparr>"

definition demo_tar :: tarCodec where
  "demo_tar = \<lparr>tar_write = (\<lambda>fs. Some (packed fs)), tar_read = (\<lambda>b. Some (unpacked b))\<rparr>"

lemma demo_pebble_ok: "pebble_ok demo_pebble"
  by (auto simp: pebble_ok_def demo_pebble_def map_add_def split: option.splits)

lemma demo_entryGob_ok: "entryGob_ok demo_entryGob"
  by (simp add: entryGob_ok_def demo_entryGob_def)

lemma demo_tar_ok: "tar_ok demo_tar"
  by (simp add: tar_ok_def demo_tar_def)

definition put_a :: kvReq where
  "put_a = ReqPut \<lparr>pa_Key = ''a'', pa_Value = ''x'', pa_Version = 0\<rparr>"

definition put_b :: kvReq where
  "put_b = ReqPut \<lparr>pa_Key = ''b'', pa_Value = ''y'', pa_Version = 0\<rparr>"

theorem pebble_replay_exactly_once_witness:
  "\<exists>d d' e m.
    applyAll (pebbleStore demo_pebble demo_entryGob demo_tar) 1 (take 2 [put_a, put_a, put_b]) ([], []) = Some d \<and>
    Store_Open demo_pebble d = Some d' \<and>
    applyAll (pebbleStore demo_pebble demo_entryGob demo_tar) (1 + int 1) (drop 1 [put_a, put_a, put_b]) d' = Some e \<and>
    applyAll (mapStore demo_mapGob) 1 (if (1::nat) \<le> 2 then [put_a, put_a, put_b]
      else take 2 [put_a, put_a, put_b] @ drop 1 [put_a, put_a, put_b]) newMapStore = Some m \<and>
    pebble_kv demo_pebble demo_entryGob e = m"
  by (rule pebble_replay_exactly_once [OF demo_pebble_ok demo_entryGob_ok demo_tar_ok demo_mapGob_ok])
    (simp_all add: demo_pebble_def)

end
