(* ===== verification/KvRaft.thy ===== *)
theory KvRaft
  imports Smr PebbleStore
begin

text \<open>
  The replicated key/value service of \<open>kvraft1\<close>: \<open>server.go\<close> as a state machine on Raft,
  and the clerk of \<open>client.go\<close> that looks for the leader.
\<close>

section \<open>The service\<close>

definition kvServer :: "'s KVStore \<Rightarrow> ('s, kvReq, kvRes) StateMachine" where
  "kvServer S = \<lparr>sm_DoOp = DoOp S, sm_Snapshot = kv_Snapshot S, sm_Restore = kv_Restore S\<rparr>"

text \<open>
  The start of a service on the in-memory store, in two parts: \<open>MakeRSM\<close> starts the reader on an
  empty store, and only then the persisted snapshot, if there is one, is restored.
\<close>

definition StartKVServer :: "mapGob \<Rightarrow> int \<Rightarrow> slice \<Rightarrow> ((kvMap, kvRes) RSM \<times> bool) option" where
  "StartKVServer g maxraftstate sn = startRSM ReaderFirst (kvServer (mapStore g)) newMapStore maxraftstate sn"

definition StartKVServer_restore :: "mapGob \<Rightarrow> slice \<Rightarrow> (kvMap, kvRes) RSM \<Rightarrow> (kvMap, kvRes) RSM option" where
  "StartKVServer_restore g sn rsm = lateRestore (kvServer (mapStore g)) sn rsm"

interpretation kvm: state_machine "kvServer (mapStore g)" "\<lambda>m. finite (dom m) \<and> mapGob_ok g" for g
proof unfold_locales
  fix sm i q r sm'
  assume "finite (dom sm) \<and> mapGob_ok g" "sm_DoOp (kvServer (mapStore g)) i q sm = Some (r, sm')"
  then show "finite (dom sm') \<and> mapGob_ok g" using ms.DoOp_kv [of sm g i q] by (auto simp: kvServer_def)
qed (auto simp: kvServer_def mapStore_def mapStore_Snapshot_def mapStore_Restore_def mapGob_ok_def)

lemma kvOp_map: "0 < i \<Longrightarrow> kvOp (\<lambda>_. -1) i q (m, -1) = (fst (kvAnswer q m), snd (kvAnswer q m), -1)"
  by (auto simp: kvOp_def kvAnswer_def split: kvReq.splits prod.splits)

lemma DoOp_map:
  assumes "finite (dom m)" "mapGob_ok g" "0 < i"
  shows "DoOp (mapStore g) i q m = Some (kvAnswer q m)"
  using ms.DoOp_kv [of m g i q] assms by (simp add: kvOp_map)

lemma kvAfter_inv:
  assumes "finite (dom m)" "mapGob_ok g"
  shows "finite (dom (snd (kvAnswer q m)))"
  using kvm.DoOp [of m g 1 q "fst (kvAnswer q m)" "snd (kvAnswer q m)"] DoOp_map [OF assms, of 1] assms(1,2)
  by (simp add: kvServer_def)

lemma smRun_kvAfter:
  "finite (dom m) \<Longrightarrow> mapGob_ok g \<Longrightarrow> 0 < i \<Longrightarrow> smRun (kvServer (mapStore g)) i qs m = Some (kvAfter qs m)"
proof (induction qs arbitrary: i m)
  case (Cons q qs)
  have "sm_DoOp (kvServer (mapStore g)) i q m = Some (kvAnswer q m)" using DoOp_map [OF Cons.prems, of q] by (simp add: kvServer_def)
  then show ?case using Cons.IH [OF kvAfter_inv [OF Cons.prems(1,2), of q] Cons.prems(2), of "i + 1"] Cons.prems(3)
    by (simp add: case_prod_unfold)
qed simp

text \<open>
  C1. The replicated service is one server: in every state that the group reaches, with lost,
  delayed and reordered messages, crashes at any point of the writes, and snapshots taken, sent and
  restored, there is one list of requests such that every replica that has finished its start has the
  data of the single server of \<open>kvsrv1\<close> after a prefix of the list, and every request that a
  replica has executed stands in the list at its index, with the answer that the single server gives
  there. The condition is that the start of a server was never overtaken (\<open>sg_raced\<close> is false):
  no reader took a message, and Raft took over no other snapshot, between the start of the reader and
  the restore of the snapshot in \<open>StartKVServer\<close>. The code does not enforce this.
\<close>

theorem kvraft_one_copy:
  assumes "distinct ids" "'''' \<notin> set ids" "mapGob_ok g"
    and "smr_reach ReaderFirst (kvServer (mapStore g)) G newMapStore maxraftstate ids x" "\<not> sg_raced x"
  shows "\<exists>qs. \<forall>n \<in> set ids.
    (\<not> sg_late x n \<longrightarrow> 0 \<le> sg_idx x n \<and> sg_idx x n \<le> int (length qs) \<and>
      rsm_sm (sg_rsm x n) = kvAfter (take (nat (sg_idx x n)) qs) newMapStore) \<and>
    (\<forall>(i, op, res) \<in> set (sg_done x n). 0 < i \<and> i \<le> int (length qs) \<and> op_Opcommad op = qs ! (nat i - 1) \<and>
      res = fst (kvAnswer (qs ! (nat i - 1)) (kvAfter (take (nat i - 1) qs) newMapStore)))"
proof -
  let ?M = "kvServer (mapStore g)"
  have fin: "finite (dom newMapStore)" by (simp add: newMapStore_def)
  obtain qs where qs: "\<And>n. n \<in> set ids \<Longrightarrow> \<not> sg_late x n \<Longrightarrow> smAt ?M newMapStore qs (sg_idx x n) (rsm_sm (sg_rsm x n))"
    "\<And>n y. n \<in> set ids \<Longrightarrow> y \<in> set (sg_done x n) \<Longrightarrow> smAnswered ?M newMapStore qs y"
    using kvm.one_history [OF _ assms(1,2,4,5)] fin assms(3) by blast
  have run: "smRun ?M 1 qs' newMapStore = Some (kvAfter qs' newMapStore)" for qs'
    by (rule smRun_kvAfter [OF fin assms(3)]) simp
  have res: "res = fst (kvAnswer q (kvAfter qs' newMapStore))"
    if "sm_DoOp ?M i q (kvAfter qs' newMapStore) = Some (res, m')" "0 < i" for i q qs' res m'
  proof -
    have "finite (dom (kvAfter qs' newMapStore))" using kvm.smRun_inv [OF _ run [of qs']] fin assms(3) by simp
    then show ?thesis using DoOp_map [OF _ assms(3) that(2)] that(1) by (simp add: kvServer_def)
  qed
  show ?thesis using qs res by (intro exI [of _ qs] ballI conjI impI) (fastforce simp: smAt_def smAnswered_def run)+
qed

text \<open>
  Why the condition is needed: an operation that the reader executes before the snapshot of
  \<open>m\<close> is restored is lost; the store is then in the state \<open>m\<close>, and the reader goes on
  with the next index.
\<close>

lemma StartKVServer_overtaken:
  assumes g: "mapGob_ok g" and m: "finite (dom m)" "kv_Snapshot (mapStore g) m = Some b"
    and start: "StartKVServer g maxraftstate (Some b) = Some (rsm, late)"
    and read: "am_CommandValid msg" "readApplyCh (kvServer (mapStore g)) G sz msg rsm = Some (rsm1, snap)"
  shows "\<exists>rsm2. StartKVServer_restore g (Some b) rsm1 = Some rsm2 \<and> rsm_sm rsm2 = m"
proof -
  have fin: "finite (dom (rsm_sm rsm))" using start
    by (auto simp: StartKVServer_def startRSM_def MakeRSM_def newMapStore_def)
  obtain op :: "kvReq Op" and res where "sm_DoOp (kvServer (mapStore g)) (am_CommandIndex msg) (op_Opcommad op) (rsm_sm rsm) = Some (res, rsm_sm rsm1)"
    by (rule readApplyCh_command [OF read(2,1)]) simp
  then have "finite (dom (rsm_sm rsm1))" using kvm.DoOp fin g by blast
  then have "b \<noteq> [] \<and> sm_Restore (kvServer (mapStore g)) (Some b) (rsm_sm rsm1) = Some m"
    by (intro kvm.Restore) (use g m in \<open>simp_all add: kvServer_def\<close>)
  then show ?thesis by (simp add: StartKVServer_restore_def lateRestore_def startState_def)
qed

theorem kvraft_one_copy_witness:
  "\<exists>x qs. smr_reach ReaderFirst (kvServer (mapStore demo_mapGob)) (demo_opGob put_a) newMapStore (-1) [''a'', ''b''] x \<and> \<not> sg_raced x \<and>
     sg_done x ''a'' = [(1, demo_op put_a, ResPut \<lparr>pr_Err = OK\<rparr>)] \<and> sg_done x ''b'' = [(1, demo_op put_a, ResPut \<lparr>pr_Err = OK\<rparr>)] \<and>
     rsm_sm (sg_rsm x ''a'') = kvAfter (take 1 qs) newMapStore \<and> rsm_sm (sg_rsm x ''b'') = kvAfter (take 1 qs) newMapStore \<and>
     qs ! 0 = put_a \<and> ResPut \<lparr>pr_Err = OK\<rparr> = fst (kvAnswer (qs ! 0) newMapStore)"
proof -
  obtain s1 where s1: "sm_DoOp (kvServer (mapStore demo_mapGob)) 1 put_a newMapStore = Some (ResPut \<lparr>pr_Err = OK\<rparr>, s1)"
    by (simp add: kvServer_def DoOp_def doPut_def mapStore_def mapStore_Get_def mapStore_AppliedIndex_def newMapStore_def put_a_def)
  obtain x where x: "smr_reach ReaderFirst (kvServer (mapStore demo_mapGob)) (demo_opGob put_a) newMapStore (-1) [''a'', ''b''] x"
    "sg_idx x ''a'' = 1" "sg_idx x ''b'' = 1"
    "sg_done x ''a'' = [(1, demo_op put_a, ResPut \<lparr>pr_Err = OK\<rparr>)]" "sg_done x ''b'' = [(1, demo_op put_a, ResPut \<lparr>pr_Err = OK\<rparr>)]"
    "\<not> sg_late x ''a''" "\<not> sg_late x ''b''" "\<not> sg_raced x"
    by (rule demo_smr [OF s1])
  have ids: "distinct [''a'', ''b'']" "'''' \<notin> set [''a'', ''b'']" by simp_all
  from kvraft_one_copy [OF ids demo_mapGob_ok x(1,8)] obtain qs where qs: "\<forall>n \<in> set [''a'', ''b''].
    (\<not> sg_late x n \<longrightarrow> 0 \<le> sg_idx x n \<and> sg_idx x n \<le> int (length qs) \<and>
      rsm_sm (sg_rsm x n) = kvAfter (take (nat (sg_idx x n)) qs) newMapStore) \<and>
    (\<forall>(i, op, res) \<in> set (sg_done x n). 0 < i \<and> i \<le> int (length qs) \<and> op_Opcommad op = qs ! (nat i - 1) \<and>
      res = fst (kvAnswer (qs ! (nat i - 1)) (kvAfter (take (nat i - 1) qs) newMapStore)))" by blast
  show ?thesis by (intro exI [of _ x] exI [of _ qs]) (use qs x in \<open>simp add: demo_op_def\<close>)
qed
section \<open>The clerk\<close>

text \<open>
  The clerk keeps the index of the server it takes for the leader. \<open>call k i\<close> is the result of its
  attempt \<open>k\<close> at server \<open>i\<close>, with \<open>None\<close> for a lost call; the loops get a bound on the
  number of attempts, and \<open>None\<close> is a clerk that is still trying after that many.
\<close>

fun KvClerk_Get :: "nat \<Rightarrow> (nat \<Rightarrow> nat \<Rightarrow> GetReply option) \<Rightarrow> nat \<Rightarrow> nat \<Rightarrow> nat \<Rightarrow> ((string \<times> Tversion \<times> Err) \<times> nat) option" where
  "KvClerk_Get n call 0 k leader = None"
| "KvClerk_Get n call (Suc fuel) k leader =
     (case call k leader of
        Some reply \<Rightarrow> if gr_Err reply \<noteq> ErrWrongLeader then Some ((gr_Value reply, gr_Version reply, gr_Err reply), leader)
          else KvClerk_Get n call fuel (Suc k) ((leader + 1) mod n)
      | None \<Rightarrow> KvClerk_Get n call fuel (Suc k) ((leader + 1) mod n))"

fun KvClerk_Put_again :: "nat \<Rightarrow> (nat \<Rightarrow> nat \<Rightarrow> PutReply option) \<Rightarrow> nat \<Rightarrow> nat \<Rightarrow> nat \<Rightarrow> (Err \<times> nat) option" where
  "KvClerk_Put_again n call 0 k leader = None"
| "KvClerk_Put_again n call (Suc fuel) k leader =
     (case call k leader of
        Some reply \<Rightarrow> if pr_Err reply = ErrVersion then Some (ErrMaybe, leader)
          else if pr_Err reply \<noteq> ErrWrongLeader then Some (pr_Err reply, leader)
          else KvClerk_Put_again n call fuel (Suc k) ((leader + 1) mod n)
      | None \<Rightarrow> KvClerk_Put_again n call fuel (Suc k) ((leader + 1) mod n))"

definition KvClerk_Put :: "nat \<Rightarrow> (nat \<Rightarrow> nat \<Rightarrow> PutReply option) \<Rightarrow> nat \<Rightarrow> nat \<Rightarrow> (Err \<times> nat) option" where
  "KvClerk_Put n call fuel leader =
     (case call 0 leader of
        Some reply \<Rightarrow> if pr_Err reply \<noteq> ErrWrongLeader then Some (pr_Err reply, leader)
          else KvClerk_Put_again n call fuel 1 ((leader + 1) mod n)
      | None \<Rightarrow> KvClerk_Put_again n call fuel 1 ((leader + 1) mod n))"

text \<open>The attempts of a clerk as the single-server clerk sees them: a wrong leader is a lost call.\<close>

definition putAttempts :: "nat \<Rightarrow> (nat \<Rightarrow> nat \<Rightarrow> PutReply option) \<Rightarrow> nat \<Rightarrow> nat \<Rightarrow> nat \<Rightarrow> PutReply option list" where
  "putAttempts n call k leader m =
     map (\<lambda>j. case call (k + j) ((leader + j) mod n) of Some r \<Rightarrow> if pr_Err r = ErrWrongLeader then None else Some r | None \<Rightarrow> None) [0..<m]"

lemma putAttempts_Suc:
  "leader < n \<Longrightarrow> putAttempts n call k leader (Suc m) =
     (case call k leader of Some r \<Rightarrow> if pr_Err r = ErrWrongLeader then None else Some r | None \<Rightarrow> None) #
     putAttempts n call (Suc k) ((leader + 1) mod n) m"
  by (simp add: putAttempts_def upt_conv_Cons map_Suc_upt [symmetric] comp_def mod_simps del: upt_Suc)

lemma next_leader: "1 < (d :: nat) \<Longrightarrow> ((leader + 1) mod n + (d - 1 - 1)) mod n = (leader + (d - 1)) mod n"
  by (cases d rule: nat.exhaust, simp, rename_tac c, case_tac c) (simp_all add: mod_simps)

lemma KvClerk_Put_again_spec:
  assumes "leader < n" "0 < d" "d \<le> fuel" "call (k + d - 1) ((leader + (d - 1)) mod n) = Some r" "pr_Err r \<noteq> ErrWrongLeader"
  shows "\<exists>e l m. KvClerk_Put_again n call fuel k leader = Some (e, l) \<and> l < n \<and> m \<le> d \<and>
    Clerk_Put_again (putAttempts n call k leader m) = Some e"
  using assms
proof (induction fuel arbitrary: k leader d)
  case (Suc fuel)
  let ?next = "KvClerk_Put_again n call fuel (Suc k) ((leader + 1) mod n)"
  show ?case
  proof (cases "\<exists>r. call k leader = Some r \<and> pr_Err r \<noteq> ErrWrongLeader")
    case True
    then obtain r' where r': "call k leader = Some r'" "pr_Err r' \<noteq> ErrWrongLeader" by blast
    let ?e = "if pr_Err r' = ErrVersion then ErrMaybe else pr_Err r'"
    have "putAttempts n call k leader 1 = [Some r']"
      using putAttempts_Suc [of leader n call k 0] Suc.prems(1) r' by (simp add: putAttempts_def)
    then show ?thesis using Suc.prems(1,2) r' by (intro exI [of _ ?e] exI [of _ leader] exI [of _ 1]) simp
  next
    case False
    then have eq: "KvClerk_Put_again n call (Suc fuel) k leader = ?next" by (auto split: option.splits)
    have d: "1 < d" using False Suc.prems(1,2,4,5) by (cases "d = 1") auto
    have "\<exists>e l m. ?next = Some (e, l) \<and> l < n \<and> m \<le> d - 1 \<and>
        Clerk_Put_again (putAttempts n call (Suc k) ((leader + 1) mod n) m) = Some e"
    proof (rule Suc.IH)
      show "call (Suc k + (d - 1) - 1) (((leader + 1) mod n + (d - 1 - 1)) mod n) = Some r" unfolding next_leader [OF d] using Suc.prems(4) d by simp
    qed (use Suc.prems d in auto)
    then obtain e l m where m: "?next = Some (e, l)" "l < n" "m \<le> d - 1"
      "Clerk_Put_again (putAttempts n call (Suc k) ((leader + 1) mod n) m) = Some e" by blast
    have "Clerk_Put_again (putAttempts n call k leader (Suc m)) = Some e"
      using m(4) False Suc.prems(1) by (auto simp: putAttempts_Suc split: option.splits)
    moreover have "Suc m \<le> d" using m(3) d by simp
    ultimately show ?thesis using m(1,2) unfolding eq by blast
  qed
qed simp

lemma KvClerk_Get_spec:
  assumes "leader < n" "0 < d" "d \<le> fuel" "call (k + d - 1) ((leader + (d - 1)) mod n) = Some r" "gr_Err r \<noteq> ErrWrongLeader"
  shows "\<exists>j l reply. j < d \<and> l < n \<and> call (k + j) l = Some reply \<and> gr_Err reply \<noteq> ErrWrongLeader \<and>
    KvClerk_Get n call fuel k leader = Some ((gr_Value reply, gr_Version reply, gr_Err reply), l)"
  using assms
proof (induction fuel arbitrary: k leader d)
  case (Suc fuel)
  let ?next = "KvClerk_Get n call fuel (Suc k) ((leader + 1) mod n)"
  show ?case
  proof (cases "\<exists>r. call k leader = Some r \<and> gr_Err r \<noteq> ErrWrongLeader")
    case True
    then show ?thesis using Suc.prems(1,2) by (intro exI [of _ 0] exI [of _ leader]) auto
  next
    case False
    then have eq: "KvClerk_Get n call (Suc fuel) k leader = ?next" by (auto split: option.splits)
    have d: "1 < d" using False Suc.prems(1,2,4,5) by (cases "d = 1") auto
    have "\<exists>j l reply. j < d - 1 \<and> l < n \<and> call (Suc k + j) l = Some reply \<and> gr_Err reply \<noteq> ErrWrongLeader \<and>
        ?next = Some ((gr_Value reply, gr_Version reply, gr_Err reply), l)"
    proof (rule Suc.IH)
      show "call (Suc k + (d - 1) - 1) (((leader + 1) mod n + (d - 1 - 1)) mod n) = Some r" unfolding next_leader [OF d] using Suc.prems(4) d by simp
    qed (use Suc.prems d in auto)
    then obtain j l reply where "j < d - 1" "l < n" "call (Suc k + j) l = Some reply" "gr_Err reply \<noteq> ErrWrongLeader"
      "?next = Some ((gr_Value reply, gr_Version reply, gr_Err reply), l)" by blast
    then show ?thesis unfolding eq by (intro exI [of _ "Suc j"] exI [of _ l] exI [of _ reply]) simp
  qed
qed simp

text \<open>Within \<open>n\<close> attempts the clerk asks every server.\<close>

lemma asked_soon:
  assumes "leader < n" "s < (n :: nat)"
  shows "\<exists>j. k0 \<le> j \<and> j < k0 + n \<and> (leader + j) mod n = s"
proof -
  let ?a = "(leader + k0) mod n" and ?j = "k0 + (s + n - (leader + k0) mod n) mod n"
  have "(leader + ?j) mod n = (?a + (s + n - ?a)) mod n" by (simp add: mod_simps add.assoc [symmetric])
  also have "?a + (s + n - ?a) = s + n" using assms mod_less_divisor [of n "leader + k0"] by linarith
  also have "(s + n) mod n = s" using assms(2) by simp
  finally show ?thesis using assms by (intro exI [of _ ?j]) simp
qed

text \<open>
  C40. The clerk finds the leader: if from attempt \<open>k0\<close> on some server answers every call with
  something else than \<open>ErrWrongLeader\<close>, then a \<open>Get\<close> and a \<open>Put\<close> return within
  \<open>k0 + n\<close> attempts, whatever all other calls do. A \<open>Get\<close> returns the answer of a server. A
  \<open>Put\<close> returns what the clerk of the single server returns for the same calls, with
  \<open>ErrWrongLeader\<close> taken for a lost call, which may be executed later all the same.
\<close>

theorem kvraft_clerk_finds_leader:
  assumes "leader < n" "s < n"
    and "\<And>k. k0 \<le> k \<Longrightarrow> \<exists>r. put k s = Some r \<and> pr_Err r \<noteq> ErrWrongLeader"
    and "\<And>k. k0 \<le> k \<Longrightarrow> \<exists>r. get k s = Some r \<and> gr_Err r \<noteq> ErrWrongLeader"
  shows "(\<exists>e l m. KvClerk_Put n put (k0 + n) leader = Some (e, l) \<and> l < n \<and> m \<le> k0 + n \<and>
      Clerk_Put (putAttempts n put 0 leader m) = Some e) \<and>
    (\<exists>k l reply. KvClerk_Get n get (k0 + n) 0 leader = Some ((gr_Value reply, gr_Version reply, gr_Err reply), l) \<and>
      l < n \<and> k < k0 + n \<and> get k l = Some reply \<and> gr_Err reply \<noteq> ErrWrongLeader)"
proof
  obtain j where j: "k0 \<le> j" "j < k0 + n" "(leader + j) mod n = s" using asked_soon [OF assms(1,2)] by blast
  obtain r where r: "get j s = Some r" "gr_Err r \<noteq> ErrWrongLeader" using assms(4) [OF j(1)] by blast
  show "\<exists>k l reply. KvClerk_Get n get (k0 + n) 0 leader = Some ((gr_Value reply, gr_Version reply, gr_Err reply), l) \<and>
      l < n \<and> k < k0 + n \<and> get k l = Some reply \<and> gr_Err reply \<noteq> ErrWrongLeader"
  proof -
    obtain i l reply where "i < Suc j" "l < n" "get (0 + i) l = Some reply" "gr_Err reply \<noteq> ErrWrongLeader"
      "KvClerk_Get n get (k0 + n) 0 leader = Some ((gr_Value reply, gr_Version reply, gr_Err reply), l)"
      using KvClerk_Get_spec [OF assms(1), of "Suc j" "k0 + n" get 0 r] j r by auto
    then show ?thesis using j(2) by (intro exI [of _ i] exI [of _ l] exI [of _ reply]) simp
  qed
  obtain r' where r': "put j s = Some r'" "pr_Err r' \<noteq> ErrWrongLeader" using assms(3) [OF j(1)] by blast
  show "\<exists>e l m. KvClerk_Put n put (k0 + n) leader = Some (e, l) \<and> l < n \<and> m \<le> k0 + n \<and>
      Clerk_Put (putAttempts n put 0 leader m) = Some e"
  proof (cases "\<exists>r. put 0 leader = Some r \<and> pr_Err r \<noteq> ErrWrongLeader")
    case True
    then obtain r0 where r0: "put 0 leader = Some r0" "pr_Err r0 \<noteq> ErrWrongLeader" by blast
    have "putAttempts n put 0 leader 1 = [Some r0]"
      using putAttempts_Suc [of leader n put 0 0] assms(1) r0 by (simp add: putAttempts_def)
    then show ?thesis using r0 assms(1)
      by (intro exI [of _ "pr_Err r0"] exI [of _ leader] exI [of _ 1]) (simp add: KvClerk_Put_def)
  next
    case False
    then have j0: "0 < j" using r' j(3) assms(1) by (cases j) auto
    have eq: "KvClerk_Put n put (k0 + n) leader = KvClerk_Put_again n put (k0 + n) 1 ((leader + 1) mod n)"
      using False by (auto simp: KvClerk_Put_def split: option.splits)
    have "((leader + 1) mod n + (j - 1)) mod n = s" using next_leader [of "Suc j" leader n] j(3) j0 by simp
    then obtain e l m where m: "KvClerk_Put_again n put (k0 + n) 1 ((leader + 1) mod n) = Some (e, l)" "l < n" "m \<le> j"
      "Clerk_Put_again (putAttempts n put 1 ((leader + 1) mod n) m) = Some e"
      using KvClerk_Put_again_spec [of "(leader + 1) mod n" n j "k0 + n" put 1 r'] r' j j0 assms(1) by auto
    have "Clerk_Put (putAttempts n put 0 leader (Suc m)) = Some e"
      using m(4) False assms(1) by (auto simp: putAttempts_Suc split: option.splits)
    moreover have "Suc m \<le> k0 + n" using m(3) j(2) by simp
    ultimately show ?thesis using m(1,2) unfolding eq by blast
  qed
qed

text \<open>Of three servers, the last is the leader; the call to the first is lost.\<close>

definition demo_put :: "nat \<Rightarrow> nat \<Rightarrow> PutReply option" where
  "demo_put k s = (if s = 2 then Some \<lparr>pr_Err = ErrVersion\<rparr> else if s = 1 then Some \<lparr>pr_Err = ErrWrongLeader\<rparr> else None)"

definition demo_get :: "nat \<Rightarrow> nat \<Rightarrow> GetReply option" where
  "demo_get k s = (if s = 2 then Some \<lparr>gr_Value = ''x'', gr_Version = 1, gr_Err = OK\<rparr> else None)"

theorem kvraft_clerk_finds_leader_witness:
  "(\<exists>e l m. KvClerk_Put 3 demo_put (0 + 3) 0 = Some (e, l) \<and> l < 3 \<and> m \<le> 0 + 3 \<and> e = ErrMaybe \<and>
      Clerk_Put (putAttempts 3 demo_put 0 0 m) = Some e) \<and>
    (\<exists>k l reply. KvClerk_Get 3 demo_get (0 + 3) 0 0 = Some ((gr_Value reply, gr_Version reply, gr_Err reply), l) \<and>
      l < 3 \<and> k < 0 + 3 \<and> demo_get k l = Some reply \<and> gr_Err reply \<noteq> ErrWrongLeader)"
proof -
  have f: "0 + 3 = Suc (Suc (Suc 0))" by simp
  have e: "KvClerk_Put 3 demo_put (0 + 3) 0 = Some (ErrMaybe, 2)"
    unfolding f by (simp add: KvClerk_Put_def demo_put_def)
  have t: "(\<exists>e l m. KvClerk_Put 3 demo_put (0 + 3) 0 = Some (e, l) \<and> l < 3 \<and> m \<le> 0 + 3 \<and>
      Clerk_Put (putAttempts 3 demo_put 0 0 m) = Some e) \<and>
    (\<exists>k l reply. KvClerk_Get 3 demo_get (0 + 3) 0 0 = Some ((gr_Value reply, gr_Version reply, gr_Err reply), l) \<and>
      l < 3 \<and> k < 0 + 3 \<and> demo_get k l = Some reply \<and> gr_Err reply \<noteq> ErrWrongLeader)"
    by (rule kvraft_clerk_finds_leader [of 0 3 2 0 demo_put demo_get]) (simp_all add: demo_put_def demo_get_def)
  then obtain c l m where "KvClerk_Put 3 demo_put (0 + 3) 0 = Some (c, l)" "l < 3" "m \<le> 0 + 3"
    "Clerk_Put (putAttempts 3 demo_put 0 0 m) = Some c" by blast
  moreover have "c = ErrMaybe" using calculation(1) unfolding e by simp
  ultimately show ?thesis using conjunct2 [OF t] by blast
qed

end
