(* ===== verification/ShardClient.thy ===== *)
theory ShardClient
  imports ShardKV KvRaft
begin

text \<open>
  The clerk of a shard group, \<open>shardkv1/shardgrp/client.go\<close>, and the client of the sharded service,
  \<open>shardkv1/client.go\<close>. \<open>call k i\<close> is the result of attempt \<open>k\<close> at server \<open>i\<close>, with
  \<open>None\<close> for a lost call. The loops of the group clerk that serve clients give up after
  \<open>maxRetries\<close>; the other loops have no bound in the code and get one here, with \<open>None\<close> for a caller that
  is still trying.
\<close>

section \<open>The clerk of a group\<close>

record GrpClerk =
  gc_servers :: "string list"
  gc_leader :: nat

definition maxRetries :: nat where
  "maxRetries = 30"

definition nextServer :: "GrpClerk \<Rightarrow> GrpClerk" where
  "nextServer ck = ck\<lparr>gc_leader := (gc_leader ck + 1) mod length (gc_servers ck)\<rparr>"

fun GrpClerk_GetLoop :: "nat \<Rightarrow> (nat \<Rightarrow> nat \<Rightarrow> GetReply option) \<Rightarrow> nat \<Rightarrow> GrpClerk \<Rightarrow> (string \<times> Tversion \<times> Err) \<times> GrpClerk" where
  "GrpClerk_GetLoop 0 call k ck = (('''', 0, ErrWrongGroup), ck)"
| "GrpClerk_GetLoop (Suc tries) call k ck =
     (case call k (gc_leader ck) of
        Some reply \<Rightarrow> if gr_Err reply \<noteq> ErrWrongLeader then ((gr_Value reply, gr_Version reply, gr_Err reply), ck)
          else GrpClerk_GetLoop tries call (Suc k) (nextServer ck)
      | None \<Rightarrow> GrpClerk_GetLoop tries call (Suc k) (nextServer ck))"

definition GrpClerk_Get :: "(nat \<Rightarrow> nat \<Rightarrow> GetReply option) \<Rightarrow> GrpClerk \<Rightarrow> (string \<times> Tversion \<times> Err) \<times> GrpClerk" where
  "GrpClerk_Get call ck = GrpClerk_GetLoop maxRetries call 0 ck"

fun GrpClerk_PutLoop :: "nat \<Rightarrow> (nat \<Rightarrow> nat \<Rightarrow> PutReply option) \<Rightarrow> nat \<Rightarrow> GrpClerk \<Rightarrow> Err \<times> GrpClerk" where
  "GrpClerk_PutLoop 0 call k ck = (ErrWrongGroup, ck)"
| "GrpClerk_PutLoop (Suc tries) call k ck =
     (case call k (gc_leader ck) of
        Some reply \<Rightarrow> if pr_Err reply = ErrVersion then (ErrMaybe, ck)
          else if pr_Err reply \<noteq> ErrWrongLeader then (pr_Err reply, ck)
          else GrpClerk_PutLoop tries call (Suc k) (nextServer ck)
      | None \<Rightarrow> GrpClerk_PutLoop tries call (Suc k) (nextServer ck))"

definition GrpClerk_Put :: "(nat \<Rightarrow> nat \<Rightarrow> PutReply option) \<Rightarrow> GrpClerk \<Rightarrow> Err \<times> GrpClerk" where
  "GrpClerk_Put call ck =
     (case call 0 (gc_leader ck) of
        Some reply \<Rightarrow> if pr_Err reply \<noteq> ErrWrongLeader then (pr_Err reply, ck)
          else GrpClerk_PutLoop maxRetries call 1 (nextServer ck)
      | None \<Rightarrow> GrpClerk_PutLoop maxRetries call 1 (nextServer ck))"

text \<open>The calls of the controller go on for ever.\<close>

fun GrpClerk_FreezeShard :: "nat \<Rightarrow> (nat \<Rightarrow> nat \<Rightarrow> FreezeShardReply option) \<Rightarrow> nat \<Rightarrow> GrpClerk \<Rightarrow> ((slice \<times> Err) \<times> GrpClerk) option" where
  "GrpClerk_FreezeShard 0 call k ck = None"
| "GrpClerk_FreezeShard (Suc fuel) call k ck =
     (case call k (gc_leader ck) of
        Some reply \<Rightarrow> if fr_Err reply \<noteq> ErrWrongLeader then Some ((fr_State reply, fr_Err reply), ck)
          else GrpClerk_FreezeShard fuel call (Suc k) (nextServer ck)
      | None \<Rightarrow> GrpClerk_FreezeShard fuel call (Suc k) (nextServer ck))"

fun GrpClerk_InstallShard :: "nat \<Rightarrow> (nat \<Rightarrow> nat \<Rightarrow> InstallShardReply option) \<Rightarrow> nat \<Rightarrow> GrpClerk \<Rightarrow> (Err \<times> GrpClerk) option" where
  "GrpClerk_InstallShard 0 call k ck = None"
| "GrpClerk_InstallShard (Suc fuel) call k ck =
     (case call k (gc_leader ck) of
        Some reply \<Rightarrow> if ir_Err reply \<noteq> ErrWrongLeader then Some (ir_Err reply, ck)
          else GrpClerk_InstallShard fuel call (Suc k) (nextServer ck)
      | None \<Rightarrow> GrpClerk_InstallShard fuel call (Suc k) (nextServer ck))"

fun GrpClerk_DeleteShard :: "nat \<Rightarrow> (nat \<Rightarrow> nat \<Rightarrow> DeleteShardReply option) \<Rightarrow> nat \<Rightarrow> GrpClerk \<Rightarrow> (Err \<times> GrpClerk) option" where
  "GrpClerk_DeleteShard 0 call k ck = None"
| "GrpClerk_DeleteShard (Suc fuel) call k ck =
     (case call k (gc_leader ck) of
        Some reply \<Rightarrow> if dr_Err reply \<noteq> ErrWrongLeader then Some (dr_Err reply, ck)
          else GrpClerk_DeleteShard fuel call (Suc k) (nextServer ck)
      | None \<Rightarrow> GrpClerk_DeleteShard fuel call (Suc k) (nextServer ck))"

section \<open>The client\<close>

record ShardClerk =
  sc_rcks :: "int \<rightharpoonup> GrpClerk"
  sc_cfg :: "ShardConfig option"

definition MakeShardClerk :: ShardClerk where
  "MakeShardClerk = \<lparr>sc_rcks = Map.empty, sc_cfg = None\<rparr>"

definition GetClerk :: "int \<Rightarrow> ShardClerk \<Rightarrow> GrpClerk option" where
  "GetClerk gid ck = sc_rcks ck gid"

text \<open>A new group clerk starts at a random server, \<open>rnd\<close>; it panics if there are none.\<close>

definition getOrCreateGrpClerk :: "nat \<Rightarrow> int \<Rightarrow> ShardConfig \<Rightarrow> ShardClerk \<Rightarrow> (GrpClerk \<times> ShardClerk) option" where
  "getOrCreateGrpClerk rnd gid cfg ck = (case GetClerk gid ck of
       Some rck \<Rightarrow> Some (rck, ck)
     | None \<Rightarrow> do { servers \<leftarrow> MakeGrpClerk gid cfg;
                let rck = \<lparr>gc_servers = servers, gc_leader = rnd mod length servers\<rparr>;
                Some (rck, ck\<lparr>sc_rcks := (sc_rcks ck)(gid \<mapsto> rck)\<rparr>) })"

text \<open>\<open>query k\<close> is the configuration that the query of round \<open>k\<close> returns.\<close>

definition refreshCfg :: "ShardConfig option \<Rightarrow> ShardClerk \<Rightarrow> ShardClerk option" where
  "refreshCfg answer ck = do { cfg \<leftarrow> answer; Some (ck\<lparr>sc_cfg := Some cfg\<rparr>) }"

text \<open>\<open>call k gid j i\<close> is attempt \<open>j\<close> of round \<open>k\<close> at server \<open>i\<close> of a group.\<close>

fun ShardClerk_Get :: "nat \<Rightarrow> (nat \<Rightarrow> ShardConfig option) \<Rightarrow> (nat \<Rightarrow> int \<Rightarrow> nat \<Rightarrow> nat \<Rightarrow> GetReply option) \<Rightarrow> (nat \<Rightarrow> nat) \<Rightarrow>
    nat \<Rightarrow> string \<Rightarrow> ShardClerk \<Rightarrow> ((string \<times> Tversion \<times> Err) \<times> ShardClerk) option" where
  "ShardClerk_Get 0 query call rnd k key ck = None"
| "ShardClerk_Get (Suc fuel) query call rnd k key ck =
     do { ck \<leftarrow> (if sc_cfg ck = None then refreshCfg (query k) ck else Some ck);
          cfg \<leftarrow> sc_cfg ck;
          let gid = sc_Shards cfg ! Key2Shard key;
          (rck, ck) \<leftarrow> getOrCreateGrpClerk (rnd k) gid cfg ck;
          let ((v, ver, err), rck) = GrpClerk_Get (call k gid) rck;
          let ck = ck\<lparr>sc_rcks := (sc_rcks ck)(gid \<mapsto> rck)\<rparr>;
          if err = ErrWrongGroup then ShardClerk_Get fuel query call rnd (Suc k) key (ck\<lparr>sc_cfg := None\<rparr>)
          else Some ((v, ver, err), ck) }"

fun ShardClerk_Put :: "nat \<Rightarrow> (nat \<Rightarrow> ShardConfig option) \<Rightarrow> (nat \<Rightarrow> int \<Rightarrow> nat \<Rightarrow> nat \<Rightarrow> PutReply option) \<Rightarrow> (nat \<Rightarrow> nat) \<Rightarrow>
    nat \<Rightarrow> string \<Rightarrow> ShardClerk \<Rightarrow> (Err \<times> ShardClerk) option" where
  "ShardClerk_Put 0 query call rnd k key ck = None"
| "ShardClerk_Put (Suc fuel) query call rnd k key ck =
     do { ck \<leftarrow> (if sc_cfg ck = None then refreshCfg (query k) ck else Some ck);
          cfg \<leftarrow> sc_cfg ck;
          let gid = sc_Shards cfg ! Key2Shard key;
          (rck, ck) \<leftarrow> getOrCreateGrpClerk (rnd k) gid cfg ck;
          let (err, rck) = GrpClerk_Put (call k gid) rck;
          let ck = ck\<lparr>sc_rcks := (sc_rcks ck)(gid \<mapsto> rck)\<rparr>;
          if err = ErrWrongGroup then ShardClerk_Put fuel query call rnd (Suc k) key (ck\<lparr>sc_cfg := None\<rparr>)
          else Some (err, ck) }"

section \<open>The client returns\<close>

definition clerk_wf :: "GrpClerk \<Rightarrow> bool" where
  "clerk_wf ck \<longleftrightarrow> gc_leader ck < length (gc_servers ck)"

lemma nextServer_wf: "clerk_wf ck \<Longrightarrow> clerk_wf (nextServer ck) \<and> gc_servers (nextServer ck) = gc_servers ck"
  by (auto simp: clerk_wf_def nextServer_def intro!: mod_less_divisor)

lemma GetLoop_wf: "clerk_wf ck \<Longrightarrow> clerk_wf (snd (GrpClerk_GetLoop tries call k ck)) \<and> gc_servers (snd (GrpClerk_GetLoop tries call k ck)) = gc_servers ck"
  by (induction tries arbitrary: k ck) (auto simp: nextServer_wf split: option.splits)

lemma PutLoop_wf: "clerk_wf ck \<Longrightarrow> clerk_wf (snd (GrpClerk_PutLoop tries call k ck)) \<and> gc_servers (snd (GrpClerk_PutLoop tries call k ck)) = gc_servers ck"
  by (induction tries arbitrary: k ck) (auto simp: nextServer_wf split: option.splits)

text \<open>A group answers if one of its servers always answers as the leader, and no server refuses the shard.\<close>

definition getAnswers :: "nat \<Rightarrow> nat \<Rightarrow> (nat \<Rightarrow> nat \<Rightarrow> GetReply option) \<Rightarrow> bool" where
  "getAnswers n s call \<longleftrightarrow> s < n \<and> (\<forall>k. \<exists>r. call k s = Some r \<and> gr_Err r \<noteq> ErrWrongLeader) \<and> (\<forall>k i r. call k i = Some r \<longrightarrow> gr_Err r \<noteq> ErrWrongGroup)"

definition putAnswers :: "nat \<Rightarrow> nat \<Rightarrow> (nat \<Rightarrow> nat \<Rightarrow> PutReply option) \<Rightarrow> bool" where
  "putAnswers n s call \<longleftrightarrow> s < n \<and> (\<forall>k. \<exists>r. call k s = Some r \<and> pr_Err r \<noteq> ErrWrongLeader) \<and> (\<forall>k i r. call k i = Some r \<longrightarrow> pr_Err r \<noteq> ErrWrongGroup)"

lemma GetLoop_found:
  assumes "getAnswers (length (gc_servers ck)) s call" "(gc_leader ck + d) mod length (gc_servers ck) = s" "d < tries" "clerk_wf ck"
  shows "snd (snd (fst (GrpClerk_GetLoop tries call k ck))) \<noteq> ErrWrongGroup"
  using assms
proof (induction tries arbitrary: k ck d)
  case (Suc tries)
  show ?case
  proof (cases "\<exists>r. call k (gc_leader ck) = Some r \<and> gr_Err r \<noteq> ErrWrongLeader")
    case True
    then show ?thesis using Suc.prems(1) by (auto simp: getAnswers_def)
  next
    case False
    then obtain d' where d: "d = Suc d'" using Suc.prems(1,2,4) by (cases d) (auto simp: getAnswers_def clerk_wf_def)
    have eq: "GrpClerk_GetLoop (Suc tries) call k ck = GrpClerk_GetLoop tries call (Suc k) (nextServer ck)"
      using False by (auto split: option.splits)
    have "(gc_leader (nextServer ck) + d') mod length (gc_servers ck) = s"
      using Suc.prems(2) by (simp add: nextServer_def d mod_simps)
    then show ?thesis unfolding eq using Suc.IH [of "nextServer ck" d' "Suc k"] Suc.prems(1,3,4) nextServer_wf [of ck] d by simp
  qed
qed simp

lemma PutLoop_found:
  assumes "putAnswers (length (gc_servers ck)) s call" "(gc_leader ck + d) mod length (gc_servers ck) = s" "d < tries" "clerk_wf ck"
  shows "fst (GrpClerk_PutLoop tries call k ck) \<noteq> ErrWrongGroup"
  using assms
proof (induction tries arbitrary: k ck d)
  case (Suc tries)
  show ?case
  proof (cases "\<exists>r. call k (gc_leader ck) = Some r \<and> pr_Err r \<noteq> ErrWrongLeader")
    case True
    then show ?thesis using Suc.prems(1) by (auto simp: putAnswers_def split: if_splits)
  next
    case False
    then obtain d' where d: "d = Suc d'" using Suc.prems(1,2,4) by (cases d) (auto simp: putAnswers_def clerk_wf_def)
    have eq: "GrpClerk_PutLoop (Suc tries) call k ck = GrpClerk_PutLoop tries call (Suc k) (nextServer ck)"
      using False by (auto split: option.splits)
    have "(gc_leader (nextServer ck) + d') mod length (gc_servers ck) = s"
      using Suc.prems(2) by (simp add: nextServer_def d mod_simps)
    then show ?thesis unfolding eq using Suc.IH [of "nextServer ck" d' "Suc k"] Suc.prems(1,3,4) nextServer_wf [of ck] d by simp
  qed
qed simp

lemma reach_server:
  assumes "clerk_wf ck" "s < length (gc_servers ck)" "length (gc_servers ck) \<le> maxRetries"
  obtains d where "d < maxRetries" "(gc_leader ck + d) mod length (gc_servers ck) = s"
proof -
  obtain d where "d < length (gc_servers ck)" "(gc_leader ck + d) mod length (gc_servers ck) = s"
    using asked_soon [of "gc_leader ck" "length (gc_servers ck)" s 0] assms(1,2) by (auto simp: clerk_wf_def)
  then show ?thesis using that [of d] assms(3) by simp
qed

lemma GrpClerk_Get_found:
  assumes "clerk_wf ck" "length (gc_servers ck) \<le> maxRetries" "getAnswers (length (gc_servers ck)) s call"
  shows "snd (snd (fst (GrpClerk_Get call ck))) \<noteq> ErrWrongGroup"
proof -
  have "s < length (gc_servers ck)" using assms(3) by (simp add: getAnswers_def)
  then obtain d where "d < maxRetries" "(gc_leader ck + d) mod length (gc_servers ck) = s" by (rule reach_server [OF assms(1) _ assms(2)])
  then show ?thesis using GetLoop_found [OF assms(3)] assms(1) by (simp add: GrpClerk_Get_def)
qed

lemma GrpClerk_Put_found:
  assumes "clerk_wf ck" "length (gc_servers ck) \<le> maxRetries" "putAnswers (length (gc_servers ck)) s call"
  shows "fst (GrpClerk_Put call ck) \<noteq> ErrWrongGroup"
proof -
  have s: "s < length (gc_servers ck)" using assms(3) by (simp add: putAnswers_def)
  have w: "clerk_wf (nextServer ck)" "gc_servers (nextServer ck) = gc_servers ck" using nextServer_wf [OF assms(1)] by auto
  obtain d where "d < maxRetries" "(gc_leader (nextServer ck) + d) mod length (gc_servers (nextServer ck)) = s"
    using reach_server [OF w(1)] s assms(2) w(2) by metis
  then have "fst (GrpClerk_PutLoop maxRetries call 1 (nextServer ck)) \<noteq> ErrWrongGroup" using PutLoop_found [of "nextServer ck" s call d] assms(3) w by simp
  then show ?thesis using assms(3) by (auto simp: GrpClerk_Put_def putAnswers_def split: option.splits)
qed

lemma GrpClerk_Put_wf: "clerk_wf ck \<Longrightarrow> clerk_wf (snd (GrpClerk_Put call ck)) \<and> gc_servers (snd (GrpClerk_Put call ck)) = gc_servers ck"
  using PutLoop_wf [of "nextServer ck" maxRetries call 1] nextServer_wf [of ck] by (auto simp: GrpClerk_Put_def split: option.splits)

definition clerks_wf :: "int \<Rightarrow> string list \<Rightarrow> ShardClerk \<Rightarrow> bool" where
  "clerks_wf gid srvs ck \<longleftrightarrow> (\<forall>g rck. sc_rcks ck g = Some rck \<longrightarrow> clerk_wf rck \<and> (g = gid \<longrightarrow> gc_servers rck = srvs))"

definition serves :: "ShardConfig \<Rightarrow> int \<Rightarrow> string list \<Rightarrow> bool" where
  "serves c gid srvs \<longleftrightarrow> (case map_of (sc_Groups c) gid of None \<Rightarrow> True | Some s \<Rightarrow> s = srvs)"



lemma clerk_of_group:
  assumes "goodCfg c" "serves c gid srvs" "clerks_wf gid srvs ck" "g = sc_Shards c ! Key2Shard key"
  obtains rck ck' where "getOrCreateGrpClerk r g c ck = Some (rck, ck')" "clerk_wf rck" "g = gid \<longrightarrow> gc_servers rck = srvs" "clerks_wf gid srvs ck'"
proof (cases "sc_rcks ck g")
  case None
  have "g \<in> set (sc_Shards c)" using assms(1,4) Key2Shard_less [of key] by (simp add: goodCfg_def)
  then obtain s where s: "map_of (sc_Groups c) g = Some s" "s \<noteq> []" using assms(1) by (auto simp: goodCfg_def split: option.splits)
  then show thesis using None assms(2,3)
    by (intro that [of "\<lparr>gc_servers = s, gc_leader = r mod length s\<rparr>" "ck\<lparr>sc_rcks := (sc_rcks ck)(g \<mapsto> \<lparr>gc_servers = s, gc_leader = r mod length s\<rparr>)\<rparr>"])
      (auto simp: getOrCreateGrpClerk_def GetClerk_def MakeGrpClerk_def Let_def clerk_wf_def clerks_wf_def serves_def)
next
  case (Some rck)
  then show thesis using assms(3) that [of rck ck] by (auto simp: getOrCreateGrpClerk_def GetClerk_def clerks_wf_def)
qed

lemma clerks_wf_update:
  "clerks_wf gid srvs ck \<Longrightarrow> clerk_wf rck \<Longrightarrow> (g = gid \<longrightarrow> gc_servers rck = srvs) \<Longrightarrow> clerks_wf gid srvs (ck\<lparr>sc_rcks := (sc_rcks ck)(g \<mapsto> rck), sc_cfg := x\<rparr>)"
  by (auto simp: clerks_wf_def)

lemma Get_round:
  assumes "goodCfg c" "serves c gid srvs" "clerks_wf gid srvs ck" "sc_cfg ck = Some c \<or> sc_cfg ck = None \<and> query k = Some c"
  obtains v ck' where "ShardClerk_Get (Suc fuel) query call rnd k key ck = Some (v, ck')" "snd (snd v) \<noteq> ErrWrongGroup"
  | ck' where "ShardClerk_Get (Suc fuel) query call rnd k key ck = ShardClerk_Get fuel query call rnd (Suc k) key ck'" "clerks_wf gid srvs ck'" "sc_cfg ck' = None"
      "\<not> (sc_Shards c ! Key2Shard key = gid \<and> length srvs \<le> maxRetries \<and> (\<exists>s. getAnswers (length srvs) s (call k gid)))"
proof -
  define g ck1 where "g = sc_Shards c ! Key2Shard key" and "ck1 = (if sc_cfg ck = None then ck\<lparr>sc_cfg := Some c\<rparr> else ck)"
  have w1: "clerks_wf gid srvs ck1" using assms(3) by (simp add: ck1_def clerks_wf_def)
  obtain rck ck2 where r: "getOrCreateGrpClerk (rnd k) g c ck1 = Some (rck, ck2)" "clerk_wf rck" "g = gid \<longrightarrow> gc_servers rck = srvs" "clerks_wf gid srvs ck2"
    by (rule clerk_of_group [OF assms(1,2) w1 g_def])
  obtain v ver err rck' where e: "GrpClerk_Get (call k g) rck = ((v, ver, err), rck')" by (metis prod.exhaust)
  have w2: "clerk_wf rck'" "gc_servers rck' = gc_servers rck" using GetLoop_wf [OF r(2)] e by (metis GrpClerk_Get_def snd_conv)+
  have eq: "ShardClerk_Get (Suc fuel) query call rnd k key ck = (if err = ErrWrongGroup
      then ShardClerk_Get fuel query call rnd (Suc k) key (ck2\<lparr>sc_rcks := (sc_rcks ck2)(g \<mapsto> rck'), sc_cfg := None\<rparr>)
      else Some ((v, ver, err), ck2\<lparr>sc_rcks := (sc_rcks ck2)(g \<mapsto> rck')\<rparr>))"
    using assms(4) r(1) e by (auto simp: refreshCfg_def ck1_def g_def [symmetric])
  show thesis
  proof (cases "err = ErrWrongGroup")
    case False
    then show thesis using eq that(1) by simp
  next
    case True
    have "\<not> (g = gid \<and> length srvs \<le> maxRetries \<and> (\<exists>s. getAnswers (length srvs) s (call k gid)))"
      using GrpClerk_Get_found [OF r(2), of _ "call k g"] r(3) e True by auto
    moreover have "clerks_wf gid srvs (ck2\<lparr>sc_rcks := (sc_rcks ck2)(g \<mapsto> rck'), sc_cfg := None\<rparr>)"
      using clerks_wf_update [OF r(4) w2(1)] r(3) w2(2) by simp
    ultimately show thesis using eq True that(2) g_def by simp
  qed
qed

lemma Put_round:
  assumes "goodCfg c" "serves c gid srvs" "clerks_wf gid srvs ck" "sc_cfg ck = Some c \<or> sc_cfg ck = None \<and> query k = Some c"
  obtains err ck' where "ShardClerk_Put (Suc fuel) query call rnd k key ck = Some (err, ck')" "err \<noteq> ErrWrongGroup"
  | ck' where "ShardClerk_Put (Suc fuel) query call rnd k key ck = ShardClerk_Put fuel query call rnd (Suc k) key ck'" "clerks_wf gid srvs ck'" "sc_cfg ck' = None"
      "\<not> (sc_Shards c ! Key2Shard key = gid \<and> length srvs \<le> maxRetries \<and> (\<exists>s. putAnswers (length srvs) s (call k gid)))"
proof -
  define g ck1 where "g = sc_Shards c ! Key2Shard key" and "ck1 = (if sc_cfg ck = None then ck\<lparr>sc_cfg := Some c\<rparr> else ck)"
  have w1: "clerks_wf gid srvs ck1" using assms(3) by (simp add: ck1_def clerks_wf_def)
  obtain rck ck2 where r: "getOrCreateGrpClerk (rnd k) g c ck1 = Some (rck, ck2)" "clerk_wf rck" "g = gid \<longrightarrow> gc_servers rck = srvs" "clerks_wf gid srvs ck2"
    by (rule clerk_of_group [OF assms(1,2) w1 g_def])
  obtain err rck' where e: "GrpClerk_Put (call k g) rck = (err, rck')" by (metis prod.exhaust)
  have w2: "clerk_wf rck'" "gc_servers rck' = gc_servers rck" using GrpClerk_Put_wf [OF r(2), of "call k g"] e by auto
  have eq: "ShardClerk_Put (Suc fuel) query call rnd k key ck = (if err = ErrWrongGroup
      then ShardClerk_Put fuel query call rnd (Suc k) key (ck2\<lparr>sc_rcks := (sc_rcks ck2)(g \<mapsto> rck'), sc_cfg := None\<rparr>)
      else Some (err, ck2\<lparr>sc_rcks := (sc_rcks ck2)(g \<mapsto> rck')\<rparr>))"
    using assms(4) r(1) e by (auto simp: refreshCfg_def ck1_def g_def [symmetric])
  show thesis
  proof (cases "err = ErrWrongGroup")
    case False
    then show thesis using eq that(1) by simp
  next
    case True
    have "\<not> (g = gid \<and> length srvs \<le> maxRetries \<and> (\<exists>s. putAnswers (length srvs) s (call k gid)))"
      using GrpClerk_Put_found [OF r(2), of _ "call k g"] r(3) e True by auto
    moreover have "clerks_wf gid srvs (ck2\<lparr>sc_rcks := (sc_rcks ck2)(g \<mapsto> rck'), sc_cfg := None\<rparr>)"
      using clerks_wf_update [OF r(4) w2(1)] r(3) w2(2) by simp
    ultimately show thesis using eq True that(2) g_def by simp
  qed
qed

text \<open>C34. A client finds the group of its key. If the queries return the configuration \<open>cfg\<close>, and in the
  group \<open>gid\<close> that \<open>cfg\<close> gives the key to one of at most \<open>maxRetries\<close> servers answers as the leader and none
  refuses the shard, then \<open>Get\<close> and \<open>Put\<close> do not panic and return within two rounds, with a result that is not
  \<open>ErrWrongGroup\<close>. The client may start from no configuration, or from a well-formed older one in which the key belongs
  to another group; but if the older one knows \<open>gid\<close>, or a clerk for \<open>gid\<close> is cached, it must be with the same
  servers. A group that comes back with other servers is not covered: the client goes on asking the cached ones.\<close>

theorem shard_client_finds_group:
  assumes "goodCfg cfg" "gid = sc_Shards cfg ! Key2Shard key" "map_of (sc_Groups cfg) gid = Some srvs" "length srvs \<le> maxRetries"
    and "\<And>k. query k = Some cfg" "clerks_wf gid srvs ck" "\<And>old. sc_cfg ck = Some old \<Longrightarrow> goodCfg old \<and> serves old gid srvs"
    and "\<And>k. getAnswers (length srvs) s (get k gid)" "\<And>k. putAnswers (length srvs) s (put k gid)"
  shows "(\<exists>v ck'. ShardClerk_Get 2 query get rnd 0 key ck = Some (v, ck') \<and> snd (snd v) \<noteq> ErrWrongGroup) \<and>
    (\<exists>err ck'. ShardClerk_Put 2 query put rnd 0 key ck = Some (err, ck') \<and> err \<noteq> ErrWrongGroup)"
proof -
  have s: "serves cfg gid srvs" using assms(3) by (simp add: serves_def)
  obtain c where c: "goodCfg c" "serves c gid srvs" "sc_cfg ck = Some c \<or> sc_cfg ck = None \<and> query 0 = Some c"
    using assms(1,5,7) s by (cases "sc_cfg ck") auto
  have g1: "\<exists>v ck'. ShardClerk_Get (Suc 0) query get rnd 1 key ck1 = Some (v, ck') \<and> snd (snd v) \<noteq> ErrWrongGroup"
    if "clerks_wf gid srvs ck1" "sc_cfg ck1 = None" for ck1
    using Get_round [OF assms(1) s that(1), of query 1 0 get rnd key] that(2) assms(2,4,5,8) by metis
  have p1: "\<exists>err ck'. ShardClerk_Put (Suc 0) query put rnd 1 key ck1 = Some (err, ck') \<and> err \<noteq> ErrWrongGroup"
    if "clerks_wf gid srvs ck1" "sc_cfg ck1 = None" for ck1
    using Put_round [OF assms(1) s that(1), of query 1 0 put rnd key] that(2) assms(2,4,5,9) by metis
  have "\<exists>v ck'. ShardClerk_Get (Suc (Suc 0)) query get rnd 0 key ck = Some (v, ck') \<and> snd (snd v) \<noteq> ErrWrongGroup"
    by (rule Get_round [of c gid srvs ck query 0, OF c(1,2) assms(6) c(3), of "Suc 0" get rnd key]) (use g1 in auto)
  moreover have "\<exists>err ck'. ShardClerk_Put (Suc (Suc 0)) query put rnd 0 key ck = Some (err, ck') \<and> err \<noteq> ErrWrongGroup"
    by (rule Put_round [of c gid srvs ck query 0, OF c(1,2) assms(6) c(3), of "Suc 0" put rnd key]) (use p1 in auto)
  ultimately show ?thesis by (simp add: numeral_2_eq_2)
qed

text \<open>A client that still has the first configuration, while the key has moved to group 2.\<close>

definition demo_clerk :: ShardClerk where
  "demo_clerk = MakeShardClerk\<lparr>sc_cfg := Some (demo_cfgOf 1 1)\<rparr>"

definition demo_getCall :: "nat \<Rightarrow> int \<Rightarrow> nat \<Rightarrow> nat \<Rightarrow> GetReply option" where
  "demo_getCall k g j i = Some \<lparr>gr_Value = ''1'', gr_Version = 1, gr_Err = (if g = 2 then OK else ErrWrongGroup)\<rparr>"

definition demo_putCall :: "nat \<Rightarrow> int \<Rightarrow> nat \<Rightarrow> nat \<Rightarrow> PutReply option" where
  "demo_putCall k g j i = Some \<lparr>pr_Err = (if g = 2 then OK else ErrWrongGroup)\<rparr>"

theorem shard_client_finds_group_witness:
  "(\<exists>v ck'. ShardClerk_Get 2 (\<lambda>k. Some (demo_cfgOf 2 2)) demo_getCall (\<lambda>k. 0) 0 ''x'' demo_clerk = Some (v, ck') \<and> snd (snd v) \<noteq> ErrWrongGroup) \<and>
   (\<exists>err ck'. ShardClerk_Put 2 (\<lambda>k. Some (demo_cfgOf 2 2)) demo_putCall (\<lambda>k. 0) 0 ''x'' demo_clerk = Some (err, ck') \<and> err \<noteq> ErrWrongGroup)"
  by (rule shard_client_finds_group [where cfg = "demo_cfgOf 2 2" and gid = 2 and srvs = "[''s2'']" and s = 0])
    (auto simp: demo_goodCfg demo_shard demo_cfg_fields maxRetries_def demo_clerk_def MakeShardClerk_def clerks_wf_def serves_def
      getAnswers_def putAnswers_def demo_getCall_def demo_putCall_def)

text \<open>The reply to the first put gets lost; before the group is asked again, the shard moves.\<close>

definition demo_resend :: "nat \<Rightarrow> int \<Rightarrow> nat \<Rightarrow> nat \<Rightarrow> PutReply option" where
  "demo_resend k g j i = (if g = 1 \<and> j = 0 then None
     else case ShardServer_DoOp demo_mapGob 0 demo_kput (if g = 1 then demo_grp 1 Frozen 2 demo_map else demo_grp 2 Ready 2 demo_map) of
       Some (RPut r, _) \<Rightarrow> Some r | _ \<Rightarrow> None)"

text \<open>C35. What a client learns from \<open>Put\<close> is not always true: the put below is performed by group 1 and its reply is lost; then the
  shard moves to group 2 with the written value. Asked again, group 1 answers \<open>ErrWrongGroup\<close>, and the client sends
  the put to group 2 as if for the first time, where it gets \<open>ErrVersion\<close>. So \<open>Put\<close> returns \<open>ErrVersion\<close>,
  which by its contract means that the put was not performed, and not \<open>ErrMaybe\<close>.\<close>

theorem shard_put_forgets_resend:
  "\<exists>ck. ShardServer_DoOp demo_mapGob 0 demo_kput (demo_grp 1 Ready 1 Map.empty) = Some (RPut \<lparr>pr_Err = OK\<rparr>, demo_grp 1 Ready 1 demo_map) \<and>
     ShardServer_DoOp demo_mapGob 0 (GrpFreeze \<lparr>fa_Shard = 3, fa_Num = 2\<rparr>) (demo_grp 1 Ready 1 demo_map) =
       Some (RFreeze \<lparr>fr_State = Some (packed (mapEntries demo_map)), fr_Num = 2, fr_Err = OK\<rparr>, demo_grp 1 Frozen 2 demo_map) \<and>
     ShardServer_DoOp demo_mapGob 0 (GrpInstall \<lparr>ia_Shard = 3, ia_State = Some (packed (mapEntries demo_map)), ia_Num = 2\<rparr>) (demo_grp 2 NotOwned 1 Map.empty) =
       Some (RInstall \<lparr>ir_Err = OK\<rparr>, demo_grp 2 Ready 2 demo_map) \<and>
     ShardClerk_Put 2 (\<lambda>k. Some (demo_cfgOf 2 2)) demo_resend (\<lambda>k. 0) 0 ''x'' demo_clerk = Some (ErrVersion, ck)"
proof -
  have r1: "ShardServer_DoOp demo_mapGob 0 demo_kput (demo_grp 1 Frozen 2 demo_map) = Some (RPut \<lparr>pr_Err = ErrWrongGroup\<rparr>, demo_grp 1 Frozen 2 demo_map)"
    by (simp add: ShardServer_DoOp_def demo_kput_def DoPut_def demo_shard demo_grp_def Let_def)
  have r2: "ShardServer_DoOp demo_mapGob 0 demo_kput (demo_grp 2 Ready 2 demo_map) = Some (RPut \<lparr>pr_Err = ErrVersion\<rparr>, demo_grp 2 Ready 2 demo_map)"
    by (simp add: ShardServer_DoOp_def demo_kput_def DoPut_def demo_shard demo_grp_def demo_map_def Let_def)
  have p1: "GrpClerk_Put (demo_resend k 1) \<lparr>gc_servers = [''s1''], gc_leader = 0\<rparr> = (ErrWrongGroup, \<lparr>gc_servers = [''s1''], gc_leader = 0\<rparr>)" for k
    by (simp add: GrpClerk_Put_def demo_resend_def r1 maxRetries_def nextServer_def eval_nat_numeral)
  have p2: "GrpClerk_Put (demo_resend k 2) \<lparr>gc_servers = [''s2''], gc_leader = 0\<rparr> = (ErrVersion, \<lparr>gc_servers = [''s2''], gc_leader = 0\<rparr>)" for k
    by (simp add: GrpClerk_Put_def demo_resend_def r2)
  have "\<exists>ck. ShardClerk_Put 2 (\<lambda>k. Some (demo_cfgOf 2 2)) demo_resend (\<lambda>k. 0) 0 ''x'' demo_clerk = Some (ErrVersion, ck)"
    by (simp add: numeral_2_eq_2 demo_clerk_def MakeShardClerk_def refreshCfg_def demo_shard demo_cfg_fields getOrCreateGrpClerk_def GetClerk_def MakeGrpClerk_def
        p1 p2 Let_def)
  then show ?thesis using demo_put [of 0 1 1] demo_freeze_op [of 1 2 demo_map 0 1 Ready] demo_install_op [of 1 2 demo_map 0 2 NotOwned Map.empty] by (simp add: demo_data)
qed

end
