(* ===== verification/GrpcTransport.thy ===== *)
theory GrpcTransport
  imports RaftCluster KvStore
begin

text \<open>
  The gRPC transport, \<open>transport/grpc\<close>: the conversion between the messages of Raft and those of
  \<open>proto/raft.proto\<close> (\<open>raft_conv.go\<close>), the services of a node (\<open>raft_service.go\<close>, \<open>kv_service.go\<close>), and
  the dispatch of a call by the name of its method (\<open>grpc_end.go\<close>). Numbers on the wire have 64 bits. The
  generated stubs and the wire are parameters; a stub may run the service at the peer, whose state is the \<open>'s\<close> of a stub, may fail, or
  both.
\<close>

section \<open>The messages\<close>

record pbLogEntry =
  pe_Command :: slice
  pe_Term :: "64 word"

record pbRequestVoteArgs =
  prv_Term :: "64 word"
  prv_CandidateId :: string
  prv_LastLogIndex :: "64 word"
  prv_LastLogTerm :: "64 word"

record pbRequestVoteReply =
  prvr_Term :: "64 word"
  prvr_VoteGranted :: bool

record pbAppendEntriesArgs =
  pae_Term :: "64 word"
  pae_LeaderId :: string
  pae_PrevLogIndex :: "64 word"
  pae_PrevLogTerm :: "64 word"
  pae_Entries :: "pbLogEntry list"
  pae_LeaderCommit :: "64 word"

record pbAppendEntriesReply =
  paer_Term :: "64 word"
  paer_Success :: bool
  paer_LastMatchIndex :: "64 word"

record pbInstallSnapshotArgs =
  pis_Term :: "64 word"
  pis_LeaderId :: string
  pis_LastIncludedIndex :: "64 word"
  pis_LastIncludedTerm :: "64 word"
  pis_Data :: slice

record pbInstallSnapshotReply =
  pisr_Term :: "64 word"

record pbTimeoutNowArgs =
  ptn_Term :: "64 word"
  ptn_LeaderId :: string
  ptn_LastLogIndex :: "64 word"
  ptn_LastLogTerm :: "64 word"

record pbTimeoutNowReply =
  ptnr_Term :: "64 word"
  ptnr_Accepted :: bool

datatype pbErr = Err_ERR_UNSPECIFIED | Err_OK | Err_ERR_NO_KEY | Err_ERR_VERSION | Err_ERR_MAYBE | Err_ERR_WRONG_LEADER | Err_ERR_WRONG_GROUP

record pbGetArgs =
  pga_Key :: string

record pbGetReply =
  pgr_Value :: string
  pgr_Version :: "64 word"
  pgr_Err :: pbErr

record pbPutArgs =
  ppa_Key :: string
  ppa_Value :: string
  ppa_Version :: "64 word"

record pbPutReply =
  ppr_Err :: pbErr

record pbAppendArgs =
  paa_Key :: string
  paa_Value :: string

record pbAppendReply =
  par_Err :: pbErr
  par_Value :: string
  par_Version :: "64 word"

section \<open>Conversion\<close>

definition int64 :: "int \<Rightarrow> 64 word" where
  "int64 i = word_of_int i"

definition goInt :: "64 word \<Rightarrow> int" where
  "goInt w = sint w"

text \<open>A command is an interface value: a byte slice, or something else in tests of Raft alone.\<close>

datatype command = BytesCommand slice | OtherCommand int

definition requestVoteToPB :: "RequestVoteArgs \<Rightarrow> pbRequestVoteArgs" where
  "requestVoteToPB a = \<lparr>prv_Term = int64 (rv_Term a), prv_CandidateId = rv_CandidateId a,
     prv_LastLogIndex = int64 (rv_LastLogIndex a), prv_LastLogTerm = int64 (rv_LastLogTerm a)\<rparr>"

definition requestVoteFromPB :: "pbRequestVoteArgs \<Rightarrow> RequestVoteArgs" where
  "requestVoteFromPB pb = \<lparr>rv_Term = goInt (prv_Term pb), rv_CandidateId = prv_CandidateId pb,
     rv_LastLogIndex = goInt (prv_LastLogIndex pb), rv_LastLogTerm = goInt (prv_LastLogTerm pb)\<rparr>"

definition requestVoteReplyToPB :: "RequestVoteReply \<Rightarrow> pbRequestVoteReply" where
  "requestVoteReplyToPB r = \<lparr>prvr_Term = int64 (rvr_Term r), prvr_VoteGranted = rvr_VoteGranted r\<rparr>"

definition requestVoteReplyFromPB :: "pbRequestVoteReply \<Rightarrow> RequestVoteReply \<Rightarrow> RequestVoteReply" where
  "requestVoteReplyFromPB pb r = r\<lparr>rvr_Term := goInt (prvr_Term pb), rvr_VoteGranted := prvr_VoteGranted pb\<rparr>"

definition timeoutNowToPB :: "TimeoutNowArgs \<Rightarrow> pbTimeoutNowArgs" where
  "timeoutNowToPB a = \<lparr>ptn_Term = int64 (tn_Term a), ptn_LeaderId = tn_LeaderId a,
     ptn_LastLogIndex = int64 (tn_LastLogIndex a), ptn_LastLogTerm = int64 (tn_LastLogTerm a)\<rparr>"

definition timeoutNowFromPB :: "pbTimeoutNowArgs \<Rightarrow> TimeoutNowArgs" where
  "timeoutNowFromPB pb = \<lparr>tn_Term = goInt (ptn_Term pb), tn_LeaderId = ptn_LeaderId pb,
     tn_LastLogIndex = goInt (ptn_LastLogIndex pb), tn_LastLogTerm = goInt (ptn_LastLogTerm pb)\<rparr>"

definition timeoutNowReplyToPB :: "TimeoutNowReply \<Rightarrow> pbTimeoutNowReply" where
  "timeoutNowReplyToPB r = \<lparr>ptnr_Term = int64 (tnr_Term r), ptnr_Accepted = tnr_Accepted r\<rparr>"

definition timeoutNowReplyFromPB :: "pbTimeoutNowReply \<Rightarrow> TimeoutNowReply \<Rightarrow> TimeoutNowReply" where
  "timeoutNowReplyFromPB pb r = r\<lparr>tnr_Term := goInt (ptnr_Term pb), tnr_Accepted := ptnr_Accepted pb\<rparr>"

definition logEntryToPB :: "command LogEntry \<Rightarrow> pbLogEntry" where
  "logEntryToPB e = \<lparr>pe_Command = (case le_Command e of Some (BytesCommand b) \<Rightarrow> b | _ \<Rightarrow> None), pe_Term = int64 (le_Term e)\<rparr>"

definition logEntryFromPB :: "pbLogEntry \<Rightarrow> command LogEntry" where
  "logEntryFromPB pb = \<lparr>le_Command = (if pe_Command pb \<noteq> None then Some (BytesCommand (pe_Command pb)) else None), le_Term = goInt (pe_Term pb)\<rparr>"

definition appendEntriesToPB :: "command AppendEntries \<Rightarrow> pbAppendEntriesArgs" where
  "appendEntriesToPB a = \<lparr>pae_Term = int64 (ae_Term a), pae_LeaderId = ae_LeaderId a,
     pae_PrevLogIndex = int64 (ae_PrevLogIndex a), pae_PrevLogTerm = int64 (ae_PrevLogTerm a),
     pae_Entries = map logEntryToPB (ae_Entries a), pae_LeaderCommit = int64 (ae_LeaderCommit a)\<rparr>"

definition appendEntriesFromPB :: "pbAppendEntriesArgs \<Rightarrow> command AppendEntries" where
  "appendEntriesFromPB pb = \<lparr>ae_Term = goInt (pae_Term pb), ae_LeaderId = pae_LeaderId pb,
     ae_PrevLogIndex = goInt (pae_PrevLogIndex pb), ae_PrevLogTerm = goInt (pae_PrevLogTerm pb),
     ae_Entries = map logEntryFromPB (pae_Entries pb), ae_LeaderCommit = goInt (pae_LeaderCommit pb),
     ae_Snapshot = None, ae_SnapshotIndex = 0, ae_SnapshotTerm = 0\<rparr>"

definition appendEntriesReplyToPB :: "AppendEntriesReply \<Rightarrow> pbAppendEntriesReply" where
  "appendEntriesReplyToPB r = \<lparr>paer_Term = int64 (aer_Term r), paer_Success = aer_Success r, paer_LastMatchIndex = int64 (aer_LastMatchIndex r)\<rparr>"

definition appendEntriesReplyFromPB :: "pbAppendEntriesReply \<Rightarrow> AppendEntriesReply \<Rightarrow> AppendEntriesReply" where
  "appendEntriesReplyFromPB pb r = r\<lparr>aer_Term := goInt (paer_Term pb), aer_Success := paer_Success pb, aer_LastMatchIndex := goInt (paer_LastMatchIndex pb)\<rparr>"

definition installSnapshotToPB :: "command AppendEntries \<Rightarrow> pbInstallSnapshotArgs" where
  "installSnapshotToPB a = \<lparr>pis_Term = int64 (ae_Term a), pis_LeaderId = ae_LeaderId a,
     pis_LastIncludedIndex = int64 (ae_SnapshotIndex a), pis_LastIncludedTerm = int64 (ae_SnapshotTerm a), pis_Data = ae_Snapshot a\<rparr>"

definition installSnapshotFromPB :: "pbInstallSnapshotArgs \<Rightarrow> command AppendEntries" where
  "installSnapshotFromPB pb = \<lparr>ae_Term = goInt (pis_Term pb), ae_LeaderId = pis_LeaderId pb,
     ae_PrevLogIndex = 0, ae_PrevLogTerm = 0, ae_Entries = [], ae_LeaderCommit = 0,
     ae_Snapshot = pis_Data pb, ae_SnapshotIndex = goInt (pis_LastIncludedIndex pb), ae_SnapshotTerm = goInt (pis_LastIncludedTerm pb)\<rparr>"

section \<open>The services of a node\<close>

text \<open>A node with the elections it started and the calls it made on its write-ahead log.\<close>

type_synonym peer = "command Raft \<times> electionRound list \<times> command WalOp list"

definition RaftService_RequestVote :: "pbRequestVoteArgs \<Rightarrow> peer \<Rightarrow> (pbRequestVoteReply \<times> peer) option" where
  "RaftService_RequestVote pb s = (case s of (rf, rs, ops) \<Rightarrow>
     do { (rf', reply, ops') \<leftarrow> RequestVote (requestVoteFromPB pb) rf;
          Some (requestVoteReplyToPB reply, (rf', rs, ops @ ops')) })"

definition RaftService_AppendEntries :: "pbAppendEntriesArgs \<Rightarrow> peer \<Rightarrow> (pbAppendEntriesReply \<times> peer) option" where
  "RaftService_AppendEntries pb s = (case s of (rf, rs, ops) \<Rightarrow>
     do { (rf', reply, ops') \<leftarrow> AppendEntriesHandler (appendEntriesFromPB pb) rf;
          Some (appendEntriesReplyToPB reply, (rf', rs, ops @ ops')) })"

definition RaftService_InstallSnapshot :: "pbInstallSnapshotArgs \<Rightarrow> peer \<Rightarrow> (pbInstallSnapshotReply \<times> peer) option" where
  "RaftService_InstallSnapshot pb s = (case s of (rf, rs, ops) \<Rightarrow>
     do { (rf', reply, ops') \<leftarrow> AppendEntriesHandler (installSnapshotFromPB pb) rf;
          Some (\<lparr>pisr_Term = int64 (aer_Term reply)\<rparr>, (rf', rs, ops @ ops')) })"

definition RaftService_TimeoutNow :: "pbTimeoutNowArgs \<Rightarrow> peer \<Rightarrow> (pbTimeoutNowReply \<times> peer) option" where
  "RaftService_TimeoutNow pb s = (case s of (rf, rs, ops) \<Rightarrow>
     do { (rf', reply, round, ops') \<leftarrow> TimeoutNow (timeoutNowFromPB pb) rf;
          Some (timeoutNowReplyToPB reply, (rf', rs @ (case round of None \<Rightarrow> [] | Some r \<Rightarrow> [r]), ops @ ops')) })"

text \<open>The handlers of the key/value server get and return the messages of \<open>kvsrv1/rpc\<close>.\<close>

fun errToPB :: "Err \<Rightarrow> pbErr" where
  "errToPB OK = Err_OK"
| "errToPB ErrNoKey = Err_ERR_NO_KEY"
| "errToPB ErrVersion = Err_ERR_VERSION"
| "errToPB ErrWrongLeader = Err_ERR_WRONG_LEADER"
| "errToPB ErrMaybe = Err_ERR_MAYBE"
| "errToPB e = Err_ERR_UNSPECIFIED"

definition KVService_Get :: "(GetArgs \<Rightarrow> 's \<Rightarrow> (GetReply \<times> 's) option) \<Rightarrow> pbGetArgs \<Rightarrow> 's \<Rightarrow> (pbGetReply \<times> 's) option" where
  "KVService_Get h pb s =
     do { (reply, s') \<leftarrow> h \<lparr>ga_Key = pga_Key pb\<rparr> s;
          Some (\<lparr>pgr_Value = gr_Value reply, pgr_Version = gr_Version reply, pgr_Err = errToPB (gr_Err reply)\<rparr>, s') }"

definition KVService_Put :: "(PutArgs \<Rightarrow> 's \<Rightarrow> (PutReply \<times> 's) option) \<Rightarrow> pbPutArgs \<Rightarrow> 's \<Rightarrow> (pbPutReply \<times> 's) option" where
  "KVService_Put h pb s =
     do { (reply, s') \<leftarrow> h \<lparr>pa_Key = ppa_Key pb, pa_Value = ppa_Value pb, pa_Version = ppa_Version pb\<rparr> s;
          Some (\<lparr>ppr_Err = errToPB (pr_Err reply)\<rparr>, s') }"

section \<open>The dispatch of a call\<close>

type_synonym ('a, 'r, 's) stub = "'a \<Rightarrow> 's \<Rightarrow> ('r option \<times> 's) option"

record 's RaftClient =
  rc_RequestVote :: "(pbRequestVoteArgs, pbRequestVoteReply, 's) stub"
  rc_AppendEntries :: "(pbAppendEntriesArgs, pbAppendEntriesReply, 's) stub"
  rc_InstallSnapshot :: "(pbInstallSnapshotArgs, pbInstallSnapshotReply, 's) stub"
  rc_TimeoutNow :: "(pbTimeoutNowArgs, pbTimeoutNowReply, 's) stub"

record 's KVClient =
  kc_Get :: "(pbGetArgs, pbGetReply, 's) stub"
  kc_Put :: "(pbPutArgs, pbPutReply, 's) stub"
  kc_Append :: "(pbAppendArgs, pbAppendReply, 's) stub"

text \<open>The pointers that a caller may pass.\<close>

datatype callArgs = RequestVoteA RequestVoteArgs | AppendEntriesA "command AppendEntries" | TimeoutNowA TimeoutNowArgs
  | PbGetA pbGetArgs | PbPutA pbPutArgs | PbAppendA pbAppendArgs | OtherA

datatype callReply = RequestVoteR RequestVoteReply | AppendEntriesR AppendEntriesReply | TimeoutNowR TimeoutNowReply
  | PbGetR pbGetReply | PbPutR pbPutReply | PbAppendR pbAppendReply | OtherR

definition callRequestVote :: "'s RaftClient \<Rightarrow> callArgs \<Rightarrow> callReply \<Rightarrow> 's \<Rightarrow> ((bool \<times> callReply) \<times> 's) option" where
  "callRequestVote c args reply s = (case (args, reply) of
     (RequestVoteA a, RequestVoteR r) \<Rightarrow>
       do { (resp, s) \<leftarrow> rc_RequestVote c (requestVoteToPB a) s;
            case resp of None \<Rightarrow> Some ((False, reply), s)
            | Some resp \<Rightarrow> Some ((True, RequestVoteR (requestVoteReplyFromPB resp r)), s) }
   | _ \<Rightarrow> Some ((False, reply), s))"

definition callAppendEntries :: "'s RaftClient \<Rightarrow> callArgs \<Rightarrow> callReply \<Rightarrow> 's \<Rightarrow> ((bool \<times> callReply) \<times> 's) option" where
  "callAppendEntries c args reply s = (case (args, reply) of
     (AppendEntriesA a, AppendEntriesR r) \<Rightarrow>
       if ae_Snapshot a \<noteq> None then
         do { (resp, s) \<leftarrow> rc_InstallSnapshot c (installSnapshotToPB a) s;
              case resp of None \<Rightarrow> Some ((False, reply), s)
              | Some resp \<Rightarrow>
                 let r1 = r\<lparr>aer_Term := goInt (pisr_Term resp), aer_Success := pisr_Term resp \<le>s int64 (ae_Term a)\<rparr>;
                   r2 = (if aer_Success r1 then r1\<lparr>aer_LastMatchIndex := ae_SnapshotIndex a\<rparr> else r1)
                 in Some ((True, AppendEntriesR r2), s) }
       else
         do { (resp, s) \<leftarrow> rc_AppendEntries c (appendEntriesToPB a) s;
              case resp of None \<Rightarrow> Some ((False, reply), s)
              | Some resp \<Rightarrow> Some ((True, AppendEntriesR (appendEntriesReplyFromPB resp r)), s) }
   | _ \<Rightarrow> Some ((False, reply), s))"

definition callTimeoutNow :: "'s RaftClient \<Rightarrow> callArgs \<Rightarrow> callReply \<Rightarrow> 's \<Rightarrow> ((bool \<times> callReply) \<times> 's) option" where
  "callTimeoutNow c args reply s = (case (args, reply) of
     (TimeoutNowA a, TimeoutNowR r) \<Rightarrow>
       do { (resp, s) \<leftarrow> rc_TimeoutNow c (timeoutNowToPB a) s;
            case resp of None \<Rightarrow> Some ((False, reply), s)
            | Some resp \<Rightarrow> Some ((True, TimeoutNowR (timeoutNowReplyFromPB resp r)), s) }
   | _ \<Rightarrow> Some ((False, reply), s))"

text \<open>The methods of the client plane look at the type of the reply only after the call.\<close>

definition callGet :: "'s KVClient \<Rightarrow> callArgs \<Rightarrow> callReply \<Rightarrow> 's \<Rightarrow> ((bool \<times> callReply) \<times> 's) option" where
  "callGet k args reply s = (case args of
     PbGetA req \<Rightarrow>
       do { (resp, s) \<leftarrow> kc_Get k req s;
            case (resp, reply) of (Some resp, PbGetR r) \<Rightarrow> Some ((True, PbGetR resp), s) | _ \<Rightarrow> Some ((False, reply), s) }
   | _ \<Rightarrow> Some ((False, reply), s))"

definition callPut :: "'s KVClient \<Rightarrow> callArgs \<Rightarrow> callReply \<Rightarrow> 's \<Rightarrow> ((bool \<times> callReply) \<times> 's) option" where
  "callPut k args reply s = (case args of
     PbPutA req \<Rightarrow>
       do { (resp, s) \<leftarrow> kc_Put k req s;
            case (resp, reply) of (Some resp, PbPutR r) \<Rightarrow> Some ((True, PbPutR resp), s) | _ \<Rightarrow> Some ((False, reply), s) }
   | _ \<Rightarrow> Some ((False, reply), s))"

definition callAppend :: "'s KVClient \<Rightarrow> callArgs \<Rightarrow> callReply \<Rightarrow> 's \<Rightarrow> ((bool \<times> callReply) \<times> 's) option" where
  "callAppend k args reply s = (case args of
     PbAppendA req \<Rightarrow>
       do { (resp, s) \<leftarrow> kc_Append k req s;
            case (resp, reply) of (Some resp, PbAppendR r) \<Rightarrow> Some ((True, PbAppendR resp), s) | _ \<Rightarrow> Some ((False, reply), s) }
   | _ \<Rightarrow> Some ((False, reply), s))"

definition ClientEnd_Call ::
    "'s RaftClient \<Rightarrow> 's KVClient \<Rightarrow> string \<Rightarrow> callArgs \<Rightarrow> callReply \<Rightarrow> 's \<Rightarrow> ((bool \<times> callReply) \<times> 's) option" where
  "ClientEnd_Call c k svcMeth args reply s =
     (if svcMeth = ''Raft.RequestVote'' then callRequestVote c args reply s
      else if svcMeth = ''Raft.AppendEntriesHandler'' then callAppendEntries c args reply s
      else if svcMeth = ''Raft.TimeoutNow'' then callTimeoutNow c args reply s
      else if svcMeth = ''KVServer.Get'' then callGet k args reply s
      else if svcMeth = ''KVServer.Put'' then callPut k args reply s
      else if svcMeth = ''KVServer.Append'' then callAppend k args reply s
      else Some ((False, reply), s))"

section \<open>A peer behind the wire\<close>

text \<open>
  The wire loses messages, and delivers what was sent, except that proto3 does not tell an empty byte field from an absent
  one.
\<close>

record wire =
  w_rv :: "pbRequestVoteArgs \<Rightarrow> pbRequestVoteArgs option"
  w_rvr :: "pbRequestVoteReply \<Rightarrow> pbRequestVoteReply option"
  w_ae :: "pbAppendEntriesArgs \<Rightarrow> pbAppendEntriesArgs option"
  w_aer :: "pbAppendEntriesReply \<Rightarrow> pbAppendEntriesReply option"
  w_is :: "pbInstallSnapshotArgs \<Rightarrow> pbInstallSnapshotArgs option"
  w_isr :: "pbInstallSnapshotReply \<Rightarrow> pbInstallSnapshotReply option"
  w_tn :: "pbTimeoutNowArgs \<Rightarrow> pbTimeoutNowArgs option"
  w_tnr :: "pbTimeoutNowReply \<Rightarrow> pbTimeoutNowReply option"

definition sameField :: "slice \<Rightarrow> slice \<Rightarrow> bool" where
  "sameField a b \<longleftrightarrow> a = b \<or> a \<in> {None, Some []} \<and> b \<in> {None, Some []}"

definition sameEntry :: "pbLogEntry \<Rightarrow> pbLogEntry \<Rightarrow> bool" where
  "sameEntry a b \<longleftrightarrow> sameField (pe_Command a) (pe_Command b) \<and> b = a\<lparr>pe_Command := pe_Command b\<rparr>"

definition faithful :: "('m \<Rightarrow> 'm option) \<Rightarrow> bool" where
  "faithful w \<longleftrightarrow> (\<forall>m m'. w m = Some m' \<longrightarrow> m' = m)"

definition wire_ok :: "wire \<Rightarrow> bool" where
  "wire_ok W \<longleftrightarrow> faithful (w_rv W) \<and> faithful (w_rvr W) \<and> faithful (w_aer W) \<and> faithful (w_isr W) \<and> faithful (w_tn W) \<and> faithful (w_tnr W) \<and>
     (\<forall>m m'. w_ae W m = Some m' \<longrightarrow> list_all2 sameEntry (pae_Entries m) (pae_Entries m') \<and> m' = m\<lparr>pae_Entries := pae_Entries m'\<rparr>) \<and>
     (\<forall>m m'. w_is W m = Some m' \<longrightarrow> sameField (pis_Data m) (pis_Data m') \<and> m' = m\<lparr>pis_Data := pis_Data m'\<rparr>)"

text \<open>The wire that loses nothing.\<close>

definition delivers :: "wire \<Rightarrow> bool" where
  "delivers W \<longleftrightarrow> (\<forall>m. w_rv W m \<noteq> None) \<and> (\<forall>m. w_rvr W m \<noteq> None) \<and> (\<forall>m. w_ae W m \<noteq> None) \<and> (\<forall>m. w_aer W m \<noteq> None) \<and>
     (\<forall>m. w_is W m \<noteq> None) \<and> (\<forall>m. w_isr W m \<noteq> None) \<and> (\<forall>m. w_tn W m \<noteq> None) \<and> (\<forall>m. w_tnr W m \<noteq> None)"

definition overWire :: "('a \<Rightarrow> 'a option) \<Rightarrow> ('r \<Rightarrow> 'r option) \<Rightarrow> ('a \<Rightarrow> 's \<Rightarrow> ('r \<times> 's) option) \<Rightarrow> ('a, 'r, 's) stub" where
  "overWire w wr service pb s = (case w pb of None \<Rightarrow> Some (None, s)
     | Some pb' \<Rightarrow> do { (r, s') \<leftarrow> service pb' s; Some (wr r, s') })"

definition peerOver :: "wire \<Rightarrow> peer RaftClient" where
  "peerOver W = \<lparr>rc_RequestVote = overWire (w_rv W) (w_rvr W) RaftService_RequestVote,
     rc_AppendEntries = overWire (w_ae W) (w_aer W) RaftService_AppendEntries,
     rc_InstallSnapshot = overWire (w_is W) (w_isr W) RaftService_InstallSnapshot,
     rc_TimeoutNow = overWire (w_tn W) (w_tnr W) RaftService_TimeoutNow\<rparr>"

text \<open>The call of a handler without conversions, as the simulated network of the tests makes it.\<close>

fun directCall :: "callArgs \<Rightarrow> peer \<Rightarrow> (callReply \<times> peer) option" where
  "directCall (RequestVoteA a) (rf, rs, ops) = do { (rf', r, ops') \<leftarrow> RequestVote a rf; Some (RequestVoteR r, (rf', rs, ops @ ops')) }"
| "directCall (AppendEntriesA a) (rf, rs, ops) = do { (rf', r, ops') \<leftarrow> AppendEntriesHandler a rf; Some (AppendEntriesR r, (rf', rs, ops @ ops')) }"
| "directCall (TimeoutNowA a) (rf, rs, ops) = do { (rf', r, round, ops') \<leftarrow> TimeoutNow a rf;
     Some (TimeoutNowR r, (rf', rs @ (case round of None \<Rightarrow> [] | Some x \<Rightarrow> [x]), ops @ ops')) }"
| "directCall _ _ = None"

fun methodOf :: "callArgs \<Rightarrow> string" where
  "methodOf (RequestVoteA a) = ''Raft.RequestVote''"
| "methodOf (AppendEntriesA a) = ''Raft.AppendEntriesHandler''"
| "methodOf (TimeoutNowA a) = ''Raft.TimeoutNow''"
| "methodOf _ = ''''"

fun newReply :: "callArgs \<Rightarrow> callReply" where
  "newReply (RequestVoteA a) = RequestVoteR \<lparr>rvr_Term = 0, rvr_VoteGranted = False\<rparr>"
| "newReply (AppendEntriesA a) = AppendEntriesR AppendEntriesReply0"
| "newReply (TimeoutNowA a) = TimeoutNowR \<lparr>tnr_Term = 0, tnr_Accepted = False\<rparr>"
| "newReply _ = OtherR"

text \<open>The numbers of a message are 64-bit integers, as all integers of the program are; the commands and the snapshot are not empty.\<close>

definition in64 :: "int \<Rightarrow> bool" where
  "in64 i \<longleftrightarrow> - (2 ^ 63) \<le> i \<and> i < 2 ^ 63"

definition entryOk :: "command LogEntry \<Rightarrow> bool" where
  "entryOk e \<longleftrightarrow> in64 (le_Term e) \<and> (case le_Command e of Some (BytesCommand (Some b)) \<Rightarrow> b \<noteq> [] | _ \<Rightarrow> False)"

fun argsOk :: "callArgs \<Rightarrow> bool" where
  "argsOk (RequestVoteA a) \<longleftrightarrow> in64 (rv_Term a) \<and> in64 (rv_LastLogIndex a) \<and> in64 (rv_LastLogTerm a)"
| "argsOk (AppendEntriesA a) \<longleftrightarrow> in64 (ae_Term a) \<and> (case ae_Snapshot a of
       None \<Rightarrow> in64 (ae_PrevLogIndex a) \<and> in64 (ae_PrevLogTerm a) \<and> in64 (ae_LeaderCommit a) \<and> list_all entryOk (ae_Entries a)
     | Some d \<Rightarrow> in64 (ae_SnapshotIndex a) \<and> in64 (ae_SnapshotTerm a) \<and> d \<noteq> [])"
| "argsOk (TimeoutNowA a) \<longleftrightarrow> in64 (tn_Term a) \<and> in64 (tn_LastLogIndex a) \<and> in64 (tn_LastLogTerm a)"
| "argsOk _ \<longleftrightarrow> False"

fun replyOk :: "callReply \<Rightarrow> bool" where
  "replyOk (RequestVoteR r) \<longleftrightarrow> in64 (rvr_Term r)"
| "replyOk (AppendEntriesR r) \<longleftrightarrow> in64 (aer_Term r) \<and> in64 (aer_LastMatchIndex r)"
| "replyOk (TimeoutNowR r) \<longleftrightarrow> in64 (tnr_Term r)"
| "replyOk _ \<longleftrightarrow> False"

text \<open>The caller acts on two replies in the same way.\<close>

fun sameUse :: "callArgs \<Rightarrow> callReply \<Rightarrow> callReply \<Rightarrow> bool" where
  "sameUse (AppendEntriesA a) (AppendEntriesR r) (AppendEntriesR r') \<longleftrightarrow>
     (\<forall>server rf. sendAppendEntries server a r' rf = sendAppendEntries server a r rf)"
| "sameUse _ r r' \<longleftrightarrow> r' = r"

lemma goInt_int64 [simp]: "in64 i \<Longrightarrow> goInt (int64 i) = i"
  unfolding goInt_def int64_def in64_def by transfer (simp add: signed_take_bit_int_eq_self)

lemma requestVote_roundtrip: "argsOk (RequestVoteA a) \<Longrightarrow> requestVoteFromPB (requestVoteToPB a) = a"
  by (simp add: requestVoteFromPB_def requestVoteToPB_def)

lemma timeoutNow_roundtrip: "argsOk (TimeoutNowA a) \<Longrightarrow> timeoutNowFromPB (timeoutNowToPB a) = a"
  by (simp add: timeoutNowFromPB_def timeoutNowToPB_def)

lemma logEntry_roundtrip:
  assumes "entryOk e" "sameEntry (logEntryToPB e) pb"
  shows "logEntryFromPB pb = e"
proof -
  obtain b where c: "le_Command e = Some (BytesCommand (Some b))" "b \<noteq> []" and t: "in64 (le_Term e)"
    using assms(1) by (auto simp: entryOk_def split: option.splits command.splits)
  have "pe_Command pb = Some b" "pe_Term pb = int64 (le_Term e)"
    using assms(2) c by (auto simp: sameEntry_def sameField_def logEntryToPB_def) (metis pbLogEntry.select_convs(2) pbLogEntry.update_convs(1))+
  then show ?thesis using c t by (simp add: logEntryFromPB_def)
qed

lemma entries_roundtrip:
  "list_all entryOk es \<Longrightarrow> list_all2 sameEntry (map logEntryToPB es) pbs \<Longrightarrow> map logEntryFromPB pbs = es"
  by (induction es arbitrary: pbs) (auto simp: list_all2_Cons1 logEntry_roundtrip)

lemma appendEntries_fields_used:
  "appendEntries (a\<lparr>ae_SnapshotIndex := i, ae_SnapshotTerm := t\<rparr>) rf = appendEntries a rf"
proof -
  have "appendNew (a\<lparr>ae_SnapshotIndex := i, ae_SnapshotTerm := t\<rparr>) = (appendNew a :: 'a Raft \<Rightarrow> _)" by (rule ext) (simp add: appendNew_def cong: if_cong)
  then show ?thesis by (simp add: appendEntries_def cong: if_cong)
qed

lemma installSnapshot_fields_used:
  "installSnapshot (a\<lparr>ae_PrevLogIndex := i, ae_PrevLogTerm := t, ae_Entries := es, ae_LeaderCommit := c\<rparr>) rf = installSnapshot a rf"
  by (simp add: installSnapshot_def cong: if_cong)

lemma appendEntries_roundtrip:
  assumes "argsOk (AppendEntriesA a)" "ae_Snapshot a = None" "wire_ok W" "w_ae W (appendEntriesToPB a) = Some pb"
  shows "AppendEntriesHandler (appendEntriesFromPB pb) rf = AppendEntriesHandler a rf"
proof -
  have "list_all2 sameEntry (pae_Entries (appendEntriesToPB a)) (pae_Entries pb)" and pb: "pb = (appendEntriesToPB a)\<lparr>pae_Entries := pae_Entries pb\<rparr>"
    using assms(3,4) unfolding wire_ok_def by blast+
  then have es: "map logEntryFromPB (pae_Entries pb) = ae_Entries a"
    using assms(1,2) by (intro entries_roundtrip) (simp_all add: appendEntriesToPB_def)
  have "appendEntriesFromPB pb = a\<lparr>ae_SnapshotIndex := 0, ae_SnapshotTerm := 0\<rparr>"
    by (subst pb) (use es assms(1,2) in \<open>simp add: appendEntriesFromPB_def appendEntriesToPB_def\<close>)
  then show ?thesis using assms(2) by (simp add: AppendEntriesHandler_def appendEntries_fields_used cong: if_cong)
qed

lemma installSnapshot_roundtrip:
  assumes "argsOk (AppendEntriesA a)" "ae_Snapshot a = Some d" "wire_ok W" "w_is W (installSnapshotToPB a) = Some pb"
  shows "AppendEntriesHandler (installSnapshotFromPB pb) rf = AppendEntriesHandler a rf"
proof -
  have s: "sameField (Some d) (pis_Data pb)" and pb: "pb = (installSnapshotToPB a)\<lparr>pis_Data := pis_Data pb\<rparr>"
    using assms(2,3,4) unfolding wire_ok_def installSnapshotToPB_def by fastforce+
  have d: "pis_Data pb = Some d" using s assms(1,2) by (auto simp: sameField_def)
  have "installSnapshotFromPB pb = a\<lparr>ae_PrevLogIndex := 0, ae_PrevLogTerm := 0, ae_Entries := [], ae_LeaderCommit := 0\<rparr>"
    by (subst pb) (use d assms(1,2) in \<open>simp add: installSnapshotFromPB_def installSnapshotToPB_def\<close>)
  then show ?thesis using assms(2) by (simp add: AppendEntriesHandler_def installSnapshot_fields_used cong: if_cong)
qed

text \<open>What the handler answers to a snapshot, and what the client end makes up from the term.\<close>

lemma observeTerm_le: "rf_term (fst (observeTerm t rf)) = max t (rf_term rf)"
  by (auto simp: observeTerm_def stepDown_def split: if_splits)

lemma snapshot_reply:
  assumes "AppendEntriesHandler a rf = Some (rf', r, ops)" "ae_Snapshot a = Some d"
  shows "aer_Success r \<longleftrightarrow> aer_Term r \<le> ae_Term a" and "\<not> aer_Success r \<Longrightarrow> aer_LastMatchIndex r = 0"
proof -
  have "(aer_Success r \<longleftrightarrow> aer_Term r \<le> ae_Term a) \<and> (\<not> aer_Success r \<longrightarrow> aer_LastMatchIndex r = 0)"
  proof (cases "ae_Term a < rf_term rf")
    case True
    then show ?thesis using assms(1) by (auto simp: AppendEntriesHandler_def)
  next
    case False
    define rf2 where "rf2 = resetElectionTimerLocked ((fst (observeTerm (ae_Term a) rf))\<lparr>rf_customerId := Follower, rf_leaderId := ae_LeaderId a\<rparr>)"
    have t: "rf_term rf2 = ae_Term a" using False observeTerm_le [of "ae_Term a" rf] by (simp add: rf2_def resetElectionTimerLocked_def)
    obtain ops2 where "installSnapshot a rf2 = Some (rf', r, ops2)"
      using assms False by (auto simp: AppendEntriesHandler_def rf2_def Let_def case_prod_unfold)
    then show ?thesis using t by (auto simp: installSnapshot_def Let_def split: if_splits)
  qed
  then show "aer_Success r \<longleftrightarrow> aer_Term r \<le> ae_Term a" and "\<not> aer_Success r \<Longrightarrow> aer_LastMatchIndex r = 0" by auto
qed

text \<open>A stub loses the call, or its answer, or returns what the service returns.\<close>

lemma overWire_outcome:
  assumes "\<And>pb'. w pb = Some pb' \<Longrightarrow> service pb' s = Some (x, s')" "faithful wr"
  obtains q where "overWire w wr service pb s = Some (None, q)" "q = s \<or> q = s'" "\<not> (w pb \<noteq> None \<and> wr x \<noteq> None)"
  | "overWire w wr service pb s = Some (Some x, s')"
proof (cases "w pb")
  case None
  then show thesis using that(1) [of s] by (simp add: overWire_def)
next
  case (Some pb')
  then show thesis using assms that(1) [of s'] that(2) by (cases "wr x") (auto simp: overWire_def faithful_def)
qed

definition transparent :: "wire \<Rightarrow> callArgs \<Rightarrow> callReply \<Rightarrow> peer \<Rightarrow> peer \<Rightarrow> ((bool \<times> callReply) \<times> peer) option \<Rightarrow> bool" where
  "transparent W args reply p p' res \<longleftrightarrow> (\<exists>ok r q. res = Some ((ok, r), q) \<and> (q = p \<or> q = p') \<and> (ok \<longrightarrow> q = p' \<and> sameUse args reply r) \<and> (delivers W \<longrightarrow> ok))"

lemma transparent_lost: "res = Some ((False, r), q) \<Longrightarrow> q = p \<or> q = p' \<Longrightarrow> \<not> delivers W \<Longrightarrow> transparent W args reply p p' res"
  by (auto simp: transparent_def)

lemma transparent_returns: "res = Some ((True, r), p') \<Longrightarrow> sameUse args reply r \<Longrightarrow> transparent W args reply p p' res"
  by (auto simp: transparent_def)

lemma AppendEntriesReply_eta: "\<lparr>aer_Term = aer_Term r, aer_Success = aer_Success r, aer_LastMatchIndex = aer_LastMatchIndex r\<rparr> = (r :: AppendEntriesReply)"
  by simp

lemma transparent_RequestVote:
  assumes "wire_ok W" "argsOk (RequestVoteA a)" "directCall (RequestVoteA a) p = Some (reply, p')" "replyOk reply"
  shows "transparent W (RequestVoteA a) reply p p' (callRequestVote (peerOver W) (RequestVoteA a) (newReply (RequestVoteA a)) p)"
proof -
  obtain r where r: "reply = RequestVoteR r" "in64 (rvr_Term r)" using assms(3,4) by (cases p) auto
  have s: "RaftService_RequestVote pb' p = Some (requestVoteReplyToPB r, p')" if "w_rv W (requestVoteToPB a) = Some pb'" for pb'
  proof -
    have "pb' = requestVoteToPB a" using that assms(1) by (simp add: wire_ok_def faithful_def)
    then show ?thesis using assms(2,3) r by (cases p) (auto simp: RaftService_RequestVote_def requestVote_roundtrip)
  qed
  have f: "faithful (w_rvr W)" using assms(1) by (simp add: wire_ok_def)
  consider q where "overWire (w_rv W) (w_rvr W) RaftService_RequestVote (requestVoteToPB a) p = Some (None, q)" "q = p \<or> q = p'" "\<not> (w_rv W (requestVoteToPB a) \<noteq> None \<and> w_rvr W (requestVoteReplyToPB r) \<noteq> None)"
    | "overWire (w_rv W) (w_rvr W) RaftService_RequestVote (requestVoteToPB a) p = Some (Some (requestVoteReplyToPB r), p')"
    by (rule overWire_outcome [of "w_rv W" "requestVoteToPB a" RaftService_RequestVote p "requestVoteReplyToPB r" p' "w_rvr W"]) (use s f in blast)+
  then show ?thesis
  proof cases
    case 1
    then show ?thesis by (intro transparent_lost [of _ "newReply (RequestVoteA a)" q]) (simp_all add: callRequestVote_def peerOver_def, auto simp: delivers_def)
  next
    case 2
    then show ?thesis by (intro transparent_returns) (simp add: callRequestVote_def peerOver_def, simp add: requestVoteReplyFromPB_def requestVoteReplyToPB_def r)
  qed
qed

lemma transparent_TimeoutNow:
  assumes "wire_ok W" "argsOk (TimeoutNowA a)" "directCall (TimeoutNowA a) p = Some (reply, p')" "replyOk reply"
  shows "transparent W (TimeoutNowA a) reply p p' (callTimeoutNow (peerOver W) (TimeoutNowA a) (newReply (TimeoutNowA a)) p)"
proof -
  obtain r where r: "reply = TimeoutNowR r" "in64 (tnr_Term r)" using assms(3,4) by (cases p) auto
  have s: "RaftService_TimeoutNow pb' p = Some (timeoutNowReplyToPB r, p')" if "w_tn W (timeoutNowToPB a) = Some pb'" for pb'
  proof -
    have "pb' = timeoutNowToPB a" using that assms(1) by (simp add: wire_ok_def faithful_def)
    then show ?thesis using assms(2,3) r by (cases p) (auto simp: RaftService_TimeoutNow_def timeoutNow_roundtrip)
  qed
  have f: "faithful (w_tnr W)" using assms(1) by (simp add: wire_ok_def)
  consider q where "overWire (w_tn W) (w_tnr W) RaftService_TimeoutNow (timeoutNowToPB a) p = Some (None, q)" "q = p \<or> q = p'" "\<not> (w_tn W (timeoutNowToPB a) \<noteq> None \<and> w_tnr W (timeoutNowReplyToPB r) \<noteq> None)"
    | "overWire (w_tn W) (w_tnr W) RaftService_TimeoutNow (timeoutNowToPB a) p = Some (Some (timeoutNowReplyToPB r), p')"
    by (rule overWire_outcome [of "w_tn W" "timeoutNowToPB a" RaftService_TimeoutNow p "timeoutNowReplyToPB r" p' "w_tnr W"]) (use s f in blast)+
  then show ?thesis
  proof cases
    case 1
    then show ?thesis by (intro transparent_lost [of _ "newReply (TimeoutNowA a)" q]) (simp_all add: callTimeoutNow_def peerOver_def, auto simp: delivers_def)
  next
    case 2
    then show ?thesis by (intro transparent_returns) (simp add: callTimeoutNow_def peerOver_def, simp add: timeoutNowReplyFromPB_def timeoutNowReplyToPB_def r)
  qed
qed

lemma transparent_entries:
  assumes "wire_ok W" "argsOk (AppendEntriesA a)" "directCall (AppendEntriesA a) p = Some (reply, p')" "replyOk reply" "ae_Snapshot a = None"
  shows "transparent W (AppendEntriesA a) reply p p' (callAppendEntries (peerOver W) (AppendEntriesA a) (newReply (AppendEntriesA a)) p)"
proof -
  obtain r where r: "reply = AppendEntriesR r" "in64 (aer_Term r)" "in64 (aer_LastMatchIndex r)" using assms(3,4) by (cases p) auto
  have s: "RaftService_AppendEntries pb' p = Some (appendEntriesReplyToPB r, p')" if "w_ae W (appendEntriesToPB a) = Some pb'" for pb'
    using appendEntries_roundtrip [OF assms(2,5,1) that] assms(3) r by (cases p) (auto simp: RaftService_AppendEntries_def)
  have f: "faithful (w_aer W)" using assms(1) by (simp add: wire_ok_def)
  consider q where "overWire (w_ae W) (w_aer W) RaftService_AppendEntries (appendEntriesToPB a) p = Some (None, q)" "q = p \<or> q = p'" "\<not> (w_ae W (appendEntriesToPB a) \<noteq> None \<and> w_aer W (appendEntriesReplyToPB r) \<noteq> None)"
    | "overWire (w_ae W) (w_aer W) RaftService_AppendEntries (appendEntriesToPB a) p = Some (Some (appendEntriesReplyToPB r), p')"
    by (rule overWire_outcome [of "w_ae W" "appendEntriesToPB a" RaftService_AppendEntries p "appendEntriesReplyToPB r" p' "w_aer W"]) (use s f in blast)+
  then show ?thesis
  proof cases
    case 1
    then show ?thesis by (intro transparent_lost [of _ "newReply (AppendEntriesA a)" q]) (simp_all add: callAppendEntries_def peerOver_def assms(5), auto simp: delivers_def)
  next
    case 2
    then show ?thesis by (intro transparent_returns) (simp add: callAppendEntries_def peerOver_def assms(5), simp add: appendEntriesReplyFromPB_def appendEntriesReplyToPB_def r AppendEntriesReply0_def AppendEntriesReply_eta)
  qed
qed

lemma int64_less_eq: "in64 i \<Longrightarrow> in64 j \<Longrightarrow> int64 i \<le>s int64 j \<longleftrightarrow> i \<le> j"
  by (simp add: word_sle_eq goInt_int64 [unfolded goInt_def])

lemma transparent_snapshot:
  assumes "wire_ok W" "argsOk (AppendEntriesA a)" "directCall (AppendEntriesA a) p = Some (reply, p')" "replyOk reply" "ae_Snapshot a = Some d"
  shows "transparent W (AppendEntriesA a) reply p p' (callAppendEntries (peerOver W) (AppendEntriesA a) (newReply (AppendEntriesA a)) p)"
proof -
  obtain r rf rf' ops where r: "reply = AppendEntriesR r" "in64 (aer_Term r)" "fst p = rf" "AppendEntriesHandler a rf = Some (rf', r, ops)"
    using assms(3,4) by (cases p) auto
  have s: "RaftService_InstallSnapshot pb' p = Some (\<lparr>pisr_Term = int64 (aer_Term r)\<rparr>, p')" if "w_is W (installSnapshotToPB a) = Some pb'" for pb'
    using installSnapshot_roundtrip [OF assms(2,5,1) that] assms(3) r by (cases p) (auto simp: RaftService_InstallSnapshot_def)
  have f: "faithful (w_isr W)" using assms(1) by (simp add: wire_ok_def)
  have t: "int64 (aer_Term r) \<le>s int64 (ae_Term a) \<longleftrightarrow> aer_Success r"
    using snapshot_reply(1) [OF r(4) assms(5)] assms(2) r(2) by (simp add: int64_less_eq)
  have u: "sendAppendEntries server a r' rf = sendAppendEntries server a r rf"
    if "aer_Term r' = aer_Term r" "aer_Success r' = aer_Success r" "\<not> aer_Success r \<Longrightarrow> aer_LastMatchIndex r' = 0" for server r' and rf :: "command Raft"
    using that snapshot_reply(2) [OF r(4) assms(5)] by (simp add: sendAppendEntries_def)
  consider q where "overWire (w_is W) (w_isr W) RaftService_InstallSnapshot (installSnapshotToPB a) p = Some (None, q)" "q = p \<or> q = p'" "\<not> (w_is W (installSnapshotToPB a) \<noteq> None \<and> w_isr W (\<lparr>pisr_Term = int64 (aer_Term r)\<rparr>) \<noteq> None)"
    | "overWire (w_is W) (w_isr W) RaftService_InstallSnapshot (installSnapshotToPB a) p = Some (Some (\<lparr>pisr_Term = int64 (aer_Term r)\<rparr>), p')"
    by (rule overWire_outcome [of "w_is W" "installSnapshotToPB a" RaftService_InstallSnapshot p "\<lparr>pisr_Term = int64 (aer_Term r)\<rparr>" p' "w_isr W"]) (use s f in blast)+
  then show ?thesis
  proof cases
    case 1
    then show ?thesis by (intro transparent_lost [of _ "newReply (AppendEntriesA a)" q]) (simp_all add: callAppendEntries_def peerOver_def assms(5), auto simp: delivers_def)
  next
    case 2
    then show ?thesis by (intro transparent_returns) (simp add: callAppendEntries_def peerOver_def assms(5) t Let_def, simp add: u r AppendEntriesReply0_def)
  qed
qed

text \<open>C21. A call over gRPC is a call of the handler. If the wire delivers what was sent or nothing, the numbers are 64-bit integers and no
  command and no snapshot is empty, then a call that the handler answers with \<open>reply\<close>, taking the peer from \<open>p\<close>
  to \<open>p'\<close>, leaves the peer at \<open>p\<close> or \<open>p'\<close>. If it returns true the peer is at \<open>p'\<close> and the caller acts on the
  reply as on \<open>reply\<close>, although a snapshot travels as another message whose answer has only a term. If nothing is lost it returns true.\<close>

theorem grpc_transparent:
  assumes "wire_ok W" "argsOk args" "directCall args p = Some (reply, p')" "replyOk reply"
  shows "\<exists>ok r q. ClientEnd_Call (peerOver W) k (methodOf args) args (newReply args) p = Some ((ok, r), q) \<and>
    (q = p \<or> q = p') \<and> (ok \<longrightarrow> q = p' \<and> sameUse args reply r) \<and> (delivers W \<longrightarrow> ok)"
proof -
  have "transparent W args reply p p' (ClientEnd_Call (peerOver W) k (methodOf args) args (newReply args) p)"
  proof (cases args)
    case (RequestVoteA a)
    then show ?thesis using transparent_RequestVote [OF assms(1)] assms by (simp add: ClientEnd_Call_def)
  next
    case (AppendEntriesA a)
    have m: "ClientEnd_Call (peerOver W) k (methodOf args) args (newReply args) p = callAppendEntries (peerOver W) (AppendEntriesA a) (newReply (AppendEntriesA a)) p"
      by (simp add: AppendEntriesA ClientEnd_Call_def)
    show ?thesis unfolding m unfolding AppendEntriesA
      using transparent_entries [OF assms [unfolded AppendEntriesA]] transparent_snapshot [OF assms [unfolded AppendEntriesA]] by (cases "ae_Snapshot a") blast+
  next
    case (TimeoutNowA a)
    then show ?thesis using transparent_TimeoutNow [OF assms(1)] assms by (simp add: ClientEnd_Call_def)
  qed (use assms(2) in simp_all)
  then show ?thesis unfolding transparent_def .
qed

text \<open>A leader sends its snapshot to a new node, over a wire that drops empty fields.\<close>

definition dropEmpty :: "slice \<Rightarrow> slice" where
  "dropEmpty b = (if b = Some [] then None else b)"

definition demo_wire :: wire where
  "demo_wire = \<lparr>w_rv = Some, w_rvr = Some, w_ae = (\<lambda>m. Some (m\<lparr>pae_Entries := map (\<lambda>e. e\<lparr>pe_Command := dropEmpty (pe_Command e)\<rparr>) (pae_Entries m)\<rparr>)), w_aer = Some,
     w_is = (\<lambda>m. Some (m\<lparr>pis_Data := dropEmpty (pis_Data m)\<rparr>)), w_isr = Some, w_tn = Some, w_tnr = Some\<rparr>"

lemma demo_wire_ok: "wire_ok demo_wire \<and> delivers demo_wire"
  by (auto simp: wire_ok_def delivers_def demo_wire_def faithful_def sameField_def sameEntry_def dropEmpty_def list_all2_conv_all_nth)

definition demo_peer :: peer where
  "demo_peer = (MakeWithWAL ''n2'' [''n1'', ''n2''] (\<lparr>ps_Term = 0, ps_Vote = '''', ps_Logs = [], ps_SnapshotIndex = 0, ps_Snapshot = None\<rparr>, False), [], [])"

definition demo_snapshot :: "command AppendEntries" where
  "demo_snapshot = \<lparr>ae_Term = 3, ae_LeaderId = ''n1'', ae_PrevLogIndex = 7, ae_PrevLogTerm = 2, ae_Entries = [], ae_LeaderCommit = 9,
     ae_Snapshot = Some [1, 2], ae_SnapshotIndex = 7, ae_SnapshotTerm = 2\<rparr>"

theorem grpc_transparent_witness:
  "\<exists>reply p'. directCall (AppendEntriesA demo_snapshot) demo_peer = Some (reply, p') \<and> rf_snapshotIndex (fst p') = 7 \<and>
    (\<exists>r. ClientEnd_Call (peerOver demo_wire) undefined ''Raft.AppendEntriesHandler'' (AppendEntriesA demo_snapshot) (AppendEntriesR AppendEntriesReply0) demo_peer =
       Some ((True, r), p') \<and> sameUse (AppendEntriesA demo_snapshot) reply r)"
proof -
  have "\<exists>r p'. directCall (AppendEntriesA demo_snapshot) demo_peer = Some (AppendEntriesR r, p') \<and> rf_snapshotIndex (fst p') = 7 \<and> aer_Term r = 3 \<and> aer_LastMatchIndex r = 7"
    by (simp add: demo_peer_def demo_snapshot_def MakeWithWAL_def AppendEntriesHandler_def installSnapshot_def observeTerm_def stepDown_def
        resetElectionTimerLocked_def relIdx_def Let_def)
  then obtain r p' where d: "directCall (AppendEntriesA demo_snapshot) demo_peer = Some (AppendEntriesR r, p')" "rf_snapshotIndex (fst p') = 7"
      and r: "replyOk (AppendEntriesR r)"
    by (auto simp: in64_def)
  have a: "argsOk (AppendEntriesA demo_snapshot)" by (simp add: demo_snapshot_def in64_def)
  have w: "wire_ok demo_wire" "delivers demo_wire" using demo_wire_ok by auto
  show ?thesis using grpc_transparent [OF w(1) a d(1) r, of undefined] d w(2) by auto
qed

end
