(* ===== verification/Raftkvd.thy ===== *)
theory Raftkvd
  imports GrpcTransport "HOL-Library.AList" "HOL-Library.Char_ord" "HOL-Library.List_Lexorder"
begin

text \<open>
  The configuration of the daemon, \<open>cmd/raftkvd/config.go\<close>, the order of the members in \<open>cmd/raftkvd/main.go\<close>, and the command-line
  client, \<open>cmd/raftkvctl/main.go\<close>. A function that may fail returns \<open>Inl\<close> of its error. A table of members is an
  association list in the order of insertion. Strings are ASCII text: \<open>TrimSpace\<close> has the white space of ASCII only.
\<close>

section \<open>The library functions the code uses\<close>

definition isSpace :: "char \<Rightarrow> bool" where
  "isSpace c \<longleftrightarrow> (of_char c :: int) \<in> {9, 10, 11, 12, 13, 32}"

definition TrimSpace :: "string \<Rightarrow> string" where
  "TrimSpace s = rev (dropWhile isSpace (rev (dropWhile isSpace s)))"

definition TrimSuffixDot :: "string \<Rightarrow> string" where
  "TrimSuffixDot s = (if s \<noteq> [] \<and> last s = CHR ''.'' then butlast s else s)"

fun Split :: "char \<Rightarrow> string \<Rightarrow> string list" where
  "Split c [] = [[]]"
| "Split c (x # xs) = (if x = c then [] # Split c xs
     else case Split c xs of w # ws \<Rightarrow> (x # w) # ws | [] \<Rightarrow> [[x]])"

definition Cut :: "char \<Rightarrow> string \<Rightarrow> string \<times> string \<times> bool" where
  "Cut c s = (if c \<in> set s then (takeWhile (\<lambda>x. x \<noteq> c) s, tl (dropWhile (\<lambda>x. x \<noteq> c) s), True) else (s, '''', False))"

definition digit :: "char \<Rightarrow> int option" where
  "digit c = (let n = of_char c in if 48 \<le> n \<and> n \<le> (57::int) then Some (n - 48) else None)"

fun decimal :: "int \<Rightarrow> string \<Rightarrow> int option" where
  "decimal acc [] = Some acc"
| "decimal acc (c # cs) = do { d \<leftarrow> digit c; decimal (10 * acc + d) cs }"

definition unsigned :: "string \<Rightarrow> int option" where
  "unsigned s = (if s = '''' then None else decimal 0 s)"

definition Atoi :: "string \<Rightarrow> int option" where
  "Atoi s = do {
     n \<leftarrow> (case s of CHR ''-'' # r \<Rightarrow> map_option (\<lambda>n. - n) (unsigned r)
          | CHR ''+'' # r \<Rightarrow> unsigned r
          | _ \<Rightarrow> unsigned s);
     if - (2 ^ 63) \<le> n \<and> n < 2 ^ 63 then Some n else None }"

definition ParseUint :: "string \<Rightarrow> 64 word option" where
  "ParseUint s = do { n \<leftarrow> unsigned s; if n < 2 ^ 64 then Some (word_of_int n) else None }"

text \<open>Only numbers that are not negative are printed.\<close>

function Itoa :: "int \<Rightarrow> string" where
  "Itoa n = (if n < 10 then [char_of (48 + n)] else Itoa (n div 10) @ [char_of (48 + n mod 10)])"
  by auto
termination
  by (relation "measure nat") auto

declare Itoa.simps [simp del]

section \<open>Flags\<close>

datatype configErr = ErrHelp | ErrFlag | ErrPositional | ErrNotInteger string | ErrPortRange string | ErrNoNodeID | ErrNoListen | ErrNoDataDir
  | ErrReplicas | ErrStatefulSetName | ErrServiceDNS | ErrPeersEmpty | ErrPeersEntry string | ErrPeersDuplicate string | ErrNotMember string

text \<open>The flags of a command are strings; the result has the flags that were set and the arguments that are left.\<close>

fun parseFlagSet :: "string list \<Rightarrow> string list \<Rightarrow> (string \<times> string) list \<Rightarrow> configErr + (string \<times> string) list \<times> string list" where
  "parseFlagSet names [] m = Inr (m, [])"
| "parseFlagSet names (s # args) m =
     (if length s < 2 \<or> s ! 0 \<noteq> CHR ''-'' then Inr (m, s # args)
      else if s = ''--'' then Inr (m, args)
      else let name0 = drop (if s ! 1 = CHR ''-'' then 2 else 1) s in
        if hd name0 = CHR ''-'' \<or> hd name0 = CHR ''='' then Inl ErrFlag
        else let (name, v, hasValue) = Cut CHR ''='' name0 in
          if name \<notin> set names then Inl (if name = ''help'' \<or> name = ''h'' then ErrHelp else ErrFlag)
          else if hasValue then parseFlagSet names args (AList.update name v m)
          else case args of [] \<Rightarrow> Inl ErrFlag | v # rest \<Rightarrow> parseFlagSet names rest (AList.update name v m))"

definition configFlags :: "string list" where
  "configFlags = [''node-id'', ''listen'', ''peer-port'', ''client-port'', ''data-dir'', ''peers'', ''replicas'', ''statefulset-name'',
     ''service-dns'', ''max-raft-bytes'']"

section \<open>The configuration of the daemon\<close>

record config =
  cf_nodeID :: NodeID
  cf_listen :: string
  cf_peerPort :: int
  cf_clientPort :: int
  cf_dataDir :: string
  cf_peers :: "(NodeID \<times> string) list"
  cf_replicas :: int
  cf_statefulSetName :: string
  cf_serviceDNS :: string
  cf_peersDerived :: bool
  cf_maxRaftState :: int

definition defaultPeerPort :: string where
  "defaultPeerPort = ''7000''"

definition defaultClientPort :: string where
  "defaultClientPort = ''7001''"

definition resolve :: "(string \<times> string) list \<Rightarrow> (string \<Rightarrow> string option) \<Rightarrow> string \<Rightarrow> string \<Rightarrow> string \<Rightarrow> string" where
  "resolve explicit lookupEnv flagName envName defaultValue = (case map_of explicit flagName of
       Some flagValue \<Rightarrow> TrimSpace flagValue
     | None \<Rightarrow> (case lookupEnv envName of
         Some v \<Rightarrow> if TrimSpace v \<noteq> '''' then TrimSpace v else defaultValue
       | None \<Rightarrow> defaultValue))"

definition parseInt :: "string \<Rightarrow> string \<Rightarrow> configErr + int" where
  "parseInt name v = (case Atoi v of None \<Rightarrow> Inl (ErrNotInteger name) | Some i \<Rightarrow> Inr i)"

definition parsePort :: "string \<Rightarrow> string \<Rightarrow> configErr + int" where
  "parsePort name v = (case parseInt name v of Inl e \<Rightarrow> Inl e
     | Inr port \<Rightarrow> if port < 1 \<or> port > 65535 then Inl (ErrPortRange name) else Inr port)"

definition derivedID :: "string \<Rightarrow> nat \<Rightarrow> NodeID" where
  "derivedID statefulSetName ordinal = statefulSetName @ ''-'' @ Itoa (int ordinal)"

definition derivedAddr :: "NodeID \<Rightarrow> string \<Rightarrow> int \<Rightarrow> string" where
  "derivedAddr nid serviceDNS peerPort = nid @ ''.'' @ serviceDNS @ '':'' @ Itoa peerPort"

definition derivePeers :: "int \<Rightarrow> string \<Rightarrow> string \<Rightarrow> int \<Rightarrow> configErr + (NodeID \<times> string) list" where
  "derivePeers replicas statefulSetName serviceDNS peerPort =
     (if replicas \<le> 0 then Inl ErrReplicas
      else if statefulSetName = '''' then Inl ErrStatefulSetName
      else if serviceDNS = '''' then Inl ErrServiceDNS
      else Inr (foldl (\<lambda>peers ordinal. let nid = derivedID statefulSetName ordinal in AList.update nid (derivedAddr nid serviceDNS peerPort) peers)
        [] [0..<nat replicas]))"

fun parsePeersLoop :: "string list \<Rightarrow> (NodeID \<times> string) list \<Rightarrow> configErr + (NodeID \<times> string) list" where
  "parsePeersLoop [] m = Inr m"
| "parsePeersLoop (part # parts) m =
     (let part = TrimSpace part in
      if part = '''' then parsePeersLoop parts m
      else let (nid, addr, ok) = Cut CHR ''='' part; nid = TrimSpace nid; addr = TrimSpace addr in
        if \<not> ok \<or> nid = '''' \<or> addr = '''' then Inl (ErrPeersEntry part)
        else if map_of m nid \<noteq> None then Inl (ErrPeersDuplicate nid)
        else parsePeersLoop parts (m @ [(nid, addr)]))"

definition parsePeers :: "string \<Rightarrow> configErr + (NodeID \<times> string) list" where
  "parsePeers s = (if TrimSpace s = '''' then Inl ErrPeersEmpty
     else case parsePeersLoop (Split CHR '','' s) [] of
       Inl e \<Rightarrow> Inl e
     | Inr m \<Rightarrow> if m = [] then Inl ErrPeersEmpty else Inr m)"

definition withPeers :: "(string \<times> string) list \<Rightarrow> (string \<Rightarrow> string option) \<Rightarrow> config \<Rightarrow> configErr + config" where
  "withPeers explicit env cfg =
     (if cf_nodeID cfg = '''' then Inl ErrNoNodeID
      else if cf_listen cfg = '''' then Inl ErrNoListen
      else if cf_dataDir cfg = '''' then Inl ErrNoDataDir
      else
        let peersValue = resolve explicit env ''peers'' ''PEERS'' '''';
          found = (if peersValue \<noteq> '''' then parsePeers peersValue
            else derivePeers (cf_replicas cfg) (cf_statefulSetName cfg) (cf_serviceDNS cfg) (cf_peerPort cfg))
        in case found of
          Inl e \<Rightarrow> Inl e
        | Inr peers \<Rightarrow> if map_of peers (cf_nodeID cfg) = None then Inl (ErrNotMember (cf_nodeID cfg))
            else Inr (cfg\<lparr>cf_peers := peers, cf_peersDerived := (peersValue = '''')\<rparr>))"

definition parseConfig :: "string list \<Rightarrow> (string \<Rightarrow> string option) \<Rightarrow> configErr + config" where
  "parseConfig args env = (case parseFlagSet configFlags args [] of
       Inl e \<Rightarrow> Inl e
     | Inr (explicit, rest) \<Rightarrow>
       if rest \<noteq> [] then Inl ErrPositional
       else case parsePort ''peer-port'' (resolve explicit env ''peer-port'' ''PEER_PORT'' defaultPeerPort) of Inl e \<Rightarrow> Inl e | Inr peerPort \<Rightarrow>
         (case parsePort ''client-port'' (resolve explicit env ''client-port'' ''CLIENT_PORT'' defaultClientPort) of Inl e \<Rightarrow> Inl e | Inr clientPort \<Rightarrow>
         (case parseInt ''replicas'' (resolve explicit env ''replicas'' ''REPLICAS'' ''0'') of Inl e \<Rightarrow> Inl e | Inr replicas \<Rightarrow>
         (case parseInt ''max-raft-bytes'' (resolve explicit env ''max-raft-bytes'' ''MAX_RAFT_BYTES'' ''-1'') of Inl e \<Rightarrow> Inl e | Inr maxRaftState \<Rightarrow>
           withPeers explicit env \<lparr>cf_nodeID = resolve explicit env ''node-id'' ''NODE_ID'' '''',
             cf_listen = resolve explicit env ''listen'' ''LISTEN'' '''', cf_peerPort = peerPort, cf_clientPort = clientPort,
             cf_dataDir = resolve explicit env ''data-dir'' ''DATA_DIR'' '''', cf_peers = [], cf_replicas = replicas,
             cf_statefulSetName = resolve explicit env ''statefulset-name'' ''STATEFULSET_NAME'' '''',
             cf_serviceDNS = TrimSuffixDot (resolve explicit env ''service-dns'' ''SERVICE_DNS'' ''''),
             cf_peersDerived = False, cf_maxRaftState = maxRaftState\<rparr>))))"

text \<open>The members in the order in which the daemon gives them to Raft, and the address behind each.\<close>

definition runNodeIDs :: "config \<Rightarrow> NodeID list" where
  "runNodeIDs cfg = sort (map fst (cf_peers cfg))"

definition runEnds :: "config \<Rightarrow> string list" where
  "runEnds cfg = map (\<lambda>nid. case map_of (cf_peers cfg) nid of None \<Rightarrow> '''' | Some addr \<Rightarrow> addr) (runNodeIDs cfg)"

section \<open>The command-line client\<close>

fun parseAddrsLoop :: "string list \<Rightarrow> string list" where
  "parseAddrsLoop [] = []"
| "parseAddrsLoop (part # parts) =
     (let part = TrimSpace part in
      if part = '''' then parseAddrsLoop parts
      else let (_, addr, ok) = Cut CHR ''='' part; addr = TrimSpace (if ok then addr else part) in
        if addr \<noteq> '''' then addr # parseAddrsLoop parts else parseAddrsLoop parts)"

definition parseAddrs :: "string \<Rightarrow> string list" where
  "parseAddrs s = parseAddrsLoop (Split CHR '','' s)"

fun pbErr_String :: "pbErr \<Rightarrow> string" where
  "pbErr_String Err_ERR_UNSPECIFIED = ''ERR_UNSPECIFIED''"
| "pbErr_String Err_OK = ''OK''"
| "pbErr_String Err_ERR_NO_KEY = ''ERR_NO_KEY''"
| "pbErr_String Err_ERR_VERSION = ''ERR_VERSION''"
| "pbErr_String Err_ERR_MAYBE = ''ERR_MAYBE''"
| "pbErr_String Err_ERR_WRONG_LEADER = ''ERR_WRONG_LEADER''"
| "pbErr_String Err_ERR_WRONG_GROUP = ''ERR_WRONG_GROUP''"

text \<open>\<open>call r i\<close> is the answer of member \<open>i\<close> in round \<open>r\<close>, \<open>None\<close> if there is none; the time limit allows \<open>rounds\<close> rounds.\<close>

fun askMembers :: "('r \<Rightarrow> pbErr) \<Rightarrow> (nat \<Rightarrow> 'r option) \<Rightarrow> nat list \<Rightarrow> 'r option" where
  "askMembers err call [] = None"
| "askMembers err call (i # members) = (case call i of
       None \<Rightarrow> askMembers err call members
     | Some rep \<Rightarrow> if err rep = Err_ERR_WRONG_LEADER then askMembers err call members else Some rep)"

fun ctl_doPut :: "nat \<Rightarrow> (nat \<Rightarrow> nat \<Rightarrow> pbPutReply option) \<Rightarrow> nat \<Rightarrow> nat \<Rightarrow> string option" where
  "ctl_doPut 0 call r n = None"
| "ctl_doPut (Suc rounds) call r n = (case askMembers ppr_Err (call r) [0..<n] of
       None \<Rightarrow> ctl_doPut rounds call (Suc r) n
     | Some rep \<Rightarrow> Some (pbErr_String (ppr_Err rep)))"

fun ctl_doGet :: "nat \<Rightarrow> (nat \<Rightarrow> nat \<Rightarrow> pbGetReply option) \<Rightarrow> nat \<Rightarrow> nat \<Rightarrow> string option" where
  "ctl_doGet 0 call r n = None"
| "ctl_doGet (Suc rounds) call r n = (case askMembers pgr_Err (call r) [0..<n] of
       None \<Rightarrow> ctl_doGet rounds call (Suc r) n
     | Some rep \<Rightarrow> Some (if pgr_Err rep = Err_OK then pgr_Value rep @ [CHR 0x09] @ ''(version='' @ Itoa (uint (pgr_Version rep)) @ '')''
         else pbErr_String (pgr_Err rep)))"

text \<open>What \<open>main\<close> is asked to do.\<close>

datatype ctlCommand = CtlUsage | CtlBadVersion | CtlPut string string "64 word" | CtlGet string

definition ctl_main :: "string list \<Rightarrow> string list \<times> ctlCommand" where
  "ctl_main argv = (case parseFlagSet [''peers''] argv [] of
       Inl e \<Rightarrow> ([], CtlUsage)
     | Inr (explicit, args) \<Rightarrow>
       let addrs = parseAddrs (case map_of explicit ''peers'' of None \<Rightarrow> '''' | Some v \<Rightarrow> v) in
       (addrs, if addrs = [] \<or> args = [] then CtlUsage
         else if args ! 0 = ''put'' then
           (if length args < 3 then CtlUsage
            else if length args \<ge> 4 then
              (case ParseUint (args ! 3) of None \<Rightarrow> CtlBadVersion | Some ver \<Rightarrow> CtlPut (args ! 1) (args ! 2) ver)
            else CtlPut (args ! 1) (args ! 2) 0)
         else if args ! 0 = ''get'' then (if length args < 2 then CtlUsage else CtlGet (args ! 1))
         else CtlUsage))"

section \<open>Numbers\<close>

lemma digit_char [simp]: "0 \<le> d \<Longrightarrow> d < 10 \<Longrightarrow> digit (char_of (48 + d)) = Some d"
  by (simp add: digit_def)

lemma decimal_append: "decimal acc (xs @ ys) = Option.bind (decimal acc xs) (\<lambda>a. decimal a ys)"
  by (induction xs arbitrary: acc) (auto split: bind_splits)

lemma decimal_Itoa: "0 \<le> n \<Longrightarrow> decimal 0 (Itoa n) = Some n"
proof (induction n rule: Itoa.induct)
  case (1 n)
  show ?case
  proof (cases "n < 10")
    case False
    then have "decimal 0 (Itoa (n div 10)) = Some (n div 10)" using 1 by simp
    then show ?thesis using False by (subst Itoa.simps) (simp add: decimal_append)
  qed (use 1(2) in \<open>simp add: Itoa.simps [of n]\<close>)
qed

lemma derivedID_inj: "derivedID name i = derivedID name j \<longleftrightarrow> i = j"
proof -
  have "Itoa (int i) = Itoa (int j) \<Longrightarrow> Some (int i) = Some (int j)" using decimal_Itoa [of "int i"] decimal_Itoa [of "int j"] by (metis of_nat_0_le_iff)
  then show ?thesis unfolding derivedID_def by (metis append_same_eq of_nat_eq_iff option.inject same_append_eq)
qed

lemma Atoi_bounds: "Atoi s = Some i \<Longrightarrow> - (2 ^ 63) \<le> i \<and> i < 2 ^ 63"
  by (auto simp: Atoi_def split: if_splits)

lemma parseInt_bounds: "parseInt name v = Inr i \<Longrightarrow> - (2 ^ 63) \<le> i \<and> i < 2 ^ 63"
  using Atoi_bounds [of v] by (auto simp: parseInt_def split: option.splits)

lemma parsePort_bounds: "parsePort name v = Inr i \<Longrightarrow> 1 \<le> i \<and> i \<le> 65535"
  by (auto simp: parsePort_def split: sum.splits if_splits)

section \<open>Tables of members\<close>

definition tableOk :: "(NodeID \<times> string) list \<Rightarrow> bool" where
  "tableOk m \<longleftrightarrow> distinct (map fst m) \<and> list_all (\<lambda>(nid, addr). nid \<noteq> '''' \<and> addr \<noteq> '''') m"

lemma parsePeersLoop_ok: "parsePeersLoop parts m = Inr m' \<Longrightarrow> tableOk m \<Longrightarrow> tableOk m'"
  by (induction parts m rule: parsePeersLoop.induct) (auto simp: Let_def tableOk_def map_of_eq_None_iff split: if_splits prod.splits)

lemma parsePeers_ok: "parsePeers s = Inr m \<Longrightarrow> tableOk m"
  using parsePeersLoop_ok [of "Split CHR '','' s" "[]"] by (auto simp: parsePeers_def tableOk_def split: if_splits sum.splits)

lemma update_new: "k \<notin> set (map fst m) \<Longrightarrow> AList.update k v m = m @ [(k, v)]"
  by (induction m) auto

definition derivedTable :: "nat \<Rightarrow> string \<Rightarrow> string \<Rightarrow> int \<Rightarrow> (NodeID \<times> string) list" where
  "derivedTable n name dns port = map (\<lambda>i. (derivedID name i, derivedAddr (derivedID name i) dns port)) [0..<n]"

lemma derive_loop:
  "foldl (\<lambda>peers ordinal. let nid = derivedID name ordinal in AList.update nid (derivedAddr nid dns port) peers) [] [0..<n] = derivedTable n name dns port"
proof (induction n)
  case (Suc n)
  have "derivedID name n \<notin> set (map fst (derivedTable n name dns port))" by (auto simp: derivedTable_def derivedID_inj)
  then show ?case using Suc by (simp add: update_new Let_def) (simp add: derivedTable_def)
qed (simp add: derivedTable_def)

lemma derivedTable_ok: "tableOk (derivedTable n name dns port)"
  by (simp add: tableOk_def derivedTable_def list_all_iff comp_def distinct_map inj_on_def derivedID_inj) (simp add: derivedID_def derivedAddr_def)

lemma withPeers_ok:
  assumes "withPeers explicit env c = Inr cfg"
  shows "cf_nodeID cfg \<noteq> '''' \<and> cf_listen cfg \<noteq> '''' \<and> cf_dataDir cfg \<noteq> '''' \<and> tableOk (cf_peers cfg) \<and> cf_nodeID cfg \<in> set (map fst (cf_peers cfg)) \<and>
    (cf_peersDerived cfg \<longrightarrow> cf_replicas cfg = int (length (cf_peers cfg)) \<and>
       cf_peers cfg = derivedTable (length (cf_peers cfg)) (cf_statefulSetName cfg) (cf_serviceDNS cfg) (cf_peerPort cfg))" (is ?ok)
    and "\<exists>ps d. cfg = c\<lparr>cf_peers := ps, cf_peersDerived := d\<rparr>"
proof -
  define found where "found = (if resolve explicit env ''peers'' ''PEERS'' '''' \<noteq> '''' then parsePeers (resolve explicit env ''peers'' ''PEERS'' '''')
    else derivePeers (cf_replicas c) (cf_statefulSetName c) (cf_serviceDNS c) (cf_peerPort c))"
  obtain ps where ps: "found = Inr ps" "map_of ps (cf_nodeID c) \<noteq> None" "cf_nodeID c \<noteq> ''''" "cf_listen c \<noteq> ''''" "cf_dataDir c \<noteq> ''''"
      and cfg: "cfg = c\<lparr>cf_peers := ps, cf_peersDerived := (resolve explicit env ''peers'' ''PEERS'' '''' = '''')\<rparr>"
    using assms by (auto simp: withPeers_def found_def [symmetric] Let_def split: if_splits sum.splits)
  have d: "0 < cf_replicas c \<and> ps = derivedTable (nat (cf_replicas c)) (cf_statefulSetName c) (cf_serviceDNS c) (cf_peerPort c)"
    if "resolve explicit env ''peers'' ''PEERS'' '''' = ''''"
    using ps(1) that by (auto simp: found_def derivePeers_def derive_loop split: if_splits)
  then have "tableOk ps" using ps(1) parsePeers_ok derivedTable_ok unfolding found_def by metis
  moreover have "length (derivedTable n a b e) = n" for n a b e by (simp add: derivedTable_def)
  moreover have "cf_nodeID c \<in> fst ` set ps" using ps(2) by (auto simp: map_of_eq_None_iff)
  ultimately show ?ok using ps(3-5) cfg d by auto
  show "\<exists>ps d. cfg = c\<lparr>cf_peers := ps, cf_peersDerived := d\<rparr>" using cfg by blast
qed

text \<open>C37. Every configuration that \<open>parseConfig\<close> accepts is one the daemon can run with: the node has a name, an address to listen on and a
  directory; the ports are between 1 and 65535 and the snapshot threshold is a 64-bit integer; no member occurs twice or
  lacks a name or an address, and the node is a member itself. A table that was derived has one member for each replica, numbered from 0.\<close>

theorem raftkvd_config_sound:
  assumes "parseConfig args env = Inr cfg"
  shows "cf_nodeID cfg \<noteq> '''' \<and> cf_listen cfg \<noteq> '''' \<and> cf_dataDir cfg \<noteq> '''' \<and>
    1 \<le> cf_peerPort cfg \<and> cf_peerPort cfg \<le> 65535 \<and> 1 \<le> cf_clientPort cfg \<and> cf_clientPort cfg \<le> 65535 \<and>
    - (2 ^ 63) \<le> cf_maxRaftState cfg \<and> cf_maxRaftState cfg < 2 ^ 63 \<and>
    tableOk (cf_peers cfg) \<and> cf_nodeID cfg \<in> set (map fst (cf_peers cfg)) \<and>
    (cf_peersDerived cfg \<longrightarrow> cf_replicas cfg = int (length (cf_peers cfg)) \<and>
       cf_peers cfg = derivedTable (length (cf_peers cfg)) (cf_statefulSetName cfg) (cf_serviceDNS cfg) (cf_peerPort cfg))"
proof -
  obtain explicit c where w: "withPeers explicit env c = Inr cfg"
      and c: "1 \<le> cf_peerPort c \<and> cf_peerPort c \<le> 65535" "1 \<le> cf_clientPort c \<and> cf_clientPort c \<le> 65535"
        "- (2 ^ 63) \<le> cf_maxRaftState c \<and> cf_maxRaftState c < 2 ^ 63"
    using assms by (fastforce simp: parseConfig_def dest: parsePort_bounds parseInt_bounds split: sum.splits prod.splits if_splits)
  then show ?thesis using withPeers_ok [OF w] by fastforce
qed

definition demo_args :: "string list" where
  "demo_args = [''--node-id'', ''kv-1'', ''--listen=:7000'', ''-data-dir'', ''/data'', ''--replicas=3'', ''--statefulset-name'', ''kv'', ''--service-dns'', ''kv.'']"

theorem raftkvd_config_sound_witness:
  "\<exists>cfg. parseConfig demo_args (\<lambda>_. None) = Inr cfg \<and> cf_peersDerived cfg \<and> cf_replicas cfg = 3 \<and> cf_peerPort cfg \<le> 65535 \<and> length (cf_peers cfg) = 3"
proof -
  have "case parseConfig demo_args (\<lambda>_. None) of Inl e \<Rightarrow> False | Inr cfg \<Rightarrow> cf_peersDerived cfg \<and> cf_replicas cfg = 3"
    by code_simp
  then have "\<exists>cfg. parseConfig demo_args (\<lambda>_. None) = Inr cfg \<and> cf_peersDerived cfg \<and> cf_replicas cfg = 3" by (auto split: sum.splits)
  then obtain cfg where "parseConfig demo_args (\<lambda>_. None) = Inr cfg" "cf_peersDerived cfg" "cf_replicas cfg = 3" by blast
  then show ?thesis using raftkvd_config_sound [of demo_args "\<lambda>_. None" cfg] by auto
qed

section \<open>Round trip\<close>

lemma dropWhile_first: "s \<noteq> [] \<Longrightarrow> \<not> P (hd s) \<Longrightarrow> dropWhile P s = s"
  by (cases s) auto

definition trimmed :: "string \<Rightarrow> bool" where
  "trimmed s \<longleftrightarrow> s \<noteq> '''' \<and> \<not> isSpace (hd s) \<and> \<not> isSpace (last s)"

lemma TrimSpace_trimmed: "trimmed s \<Longrightarrow> TrimSpace s = s"
  by (simp add: TrimSpace_def trimmed_def dropWhile_first hd_rev)

lemma trimmed_join: "trimmed a \<Longrightarrow> trimmed b \<Longrightarrow> trimmed (a @ xs @ b)"
  by (simp add: trimmed_def)

lemma Split_none: "c \<notin> set s \<Longrightarrow> Split c s = [s]"
  by (induction s) auto

lemma Split_first: "c \<notin> set s \<Longrightarrow> Split c (s @ c # rest) = s # Split c rest"
  by (induction s) auto

lemma Cut_first: "c \<notin> set s \<Longrightarrow> Cut c (s @ c # rest) = (s, rest, True)"
proof -
  assume "c \<notin> set s"
  then have "takeWhile (\<lambda>x. x \<noteq> c) (s @ c # rest) = s" "dropWhile (\<lambda>x. x \<noteq> c) (s @ c # rest) = c # rest" by (induction s) auto
  then show ?thesis by (simp add: Cut_def)
qed

text \<open>A table as it is written on a command line.\<close>

fun entryOf :: "NodeID \<times> string \<Rightarrow> string" where
  "entryOf (nid, addr) = nid @ ''='' @ addr"

fun printPeers :: "(NodeID \<times> string) list \<Rightarrow> string" where
  "printPeers [] = ''''"
| "printPeers [p] = entryOf p"
| "printPeers (p # q # ps) = entryOf p @ '','' @ printPeers (q # ps)"

fun peerOk :: "NodeID \<times> string \<Rightarrow> bool" where
  "peerOk (nid, addr) \<longleftrightarrow> trimmed nid \<and> trimmed addr \<and> CHR ''='' \<notin> set nid \<and> CHR '','' \<notin> set nid \<and> CHR '','' \<notin> set addr"

lemma entry_no_comma: "peerOk p \<Longrightarrow> CHR '','' \<notin> set (entryOf p)"
  by (cases p) auto

lemma Split_printPeers: "ps \<noteq> [] \<Longrightarrow> list_all peerOk ps \<Longrightarrow> Split CHR '','' (printPeers ps) = map entryOf ps"
  by (induction ps rule: printPeers.induct) (auto simp: Split_none Split_first entry_no_comma)

lemma entry_parts:
  assumes "peerOk p"
  shows "TrimSpace (entryOf p) = entryOf p" "entryOf p \<noteq> ''''" "Cut CHR ''='' (entryOf p) = (fst p, snd p, True)"
    "TrimSpace (fst p) = fst p" "TrimSpace (snd p) = snd p" "fst p \<noteq> ''''" "snd p \<noteq> ''''"
  using assms trimmed_join [of "fst p" "snd p" "''=''"] by (cases p, auto simp: TrimSpace_trimmed Cut_first, auto simp: trimmed_def)+

lemma parsePeersLoop_entries:
  "list_all peerOk ps \<Longrightarrow> distinct (map fst (m @ ps)) \<Longrightarrow> parsePeersLoop (map entryOf ps) m = Inr (m @ ps)"
proof (induction ps arbitrary: m)
  case (Cons p ps)
  have "fst p \<notin> fst ` set m" using Cons.prems(2) by simp
  then have "(fst p, y) \<notin> set m" for y by (metis fst_conv image_eqI)
  then show ?case using Cons entry_parts [of p] by (simp add: Let_def)
qed simp

lemma parseAddrsLoop_entries: "list_all peerOk ps \<Longrightarrow> parseAddrsLoop (map entryOf ps) = map snd ps"
  using entry_parts by (induction ps) auto

lemma TrimSpace_first: "s \<noteq> '''' \<Longrightarrow> \<not> isSpace (hd s) \<Longrightarrow> TrimSpace s \<noteq> ''''"
  by (auto simp: TrimSpace_def dropWhile_first dropWhile_eq_Nil_conv)

lemma printPeers_first: "ps \<noteq> [] \<Longrightarrow> list_all peerOk ps \<Longrightarrow> printPeers ps \<noteq> '''' \<and> \<not> isSpace (hd (printPeers ps))"
  by (cases ps rule: printPeers.cases) (auto simp: trimmed_def)

lemma parsePeers_print:
  assumes "ps \<noteq> []" "distinct (map fst ps)" "list_all peerOk ps"
  shows "parsePeers (printPeers ps) = Inr ps"
  using assms TrimSpace_first printPeers_first [OF assms(1,3)] parsePeersLoop_entries [of ps "[]"] by (simp add: parsePeers_def Split_printPeers)

lemma sort_mset: "mset xs = mset ys \<Longrightarrow> sort xs = sort (ys :: 'a :: linorder list)"
  by (metis mset_sort properties_for_sort sorted_sort)

lemma same_members:
  assumes "mset qs = mset ps" "distinct (map fst ps)"
  shows "runNodeIDs (cfg\<lparr>cf_peers := qs\<rparr>) = runNodeIDs (cfg\<lparr>cf_peers := ps\<rparr>)" "runEnds (cfg\<lparr>cf_peers := qs\<rparr>) = runEnds (cfg\<lparr>cf_peers := ps\<rparr>)"
proof -
  have m: "mset (map fst qs) = mset (map fst ps)" using assms(1) by (metis mset_map)
  then have d: "distinct (map fst qs)" using assms(2) mset_eq_imp_distinct_iff by blast
  have "map_of qs = map_of ps" using map_of_inject_set [OF d assms(2)] mset_eq_setD [OF assms(1)] by blast
  moreover show i: "runNodeIDs (cfg\<lparr>cf_peers := qs\<rparr>) = runNodeIDs (cfg\<lparr>cf_peers := ps\<rparr>)" using sort_mset [OF m] by (simp add: runNodeIDs_def)
  ultimately show "runEnds (cfg\<lparr>cf_peers := qs\<rparr>) = runEnds (cfg\<lparr>cf_peers := ps\<rparr>)" by (simp add: runEnds_def)
qed

text \<open>C39. A table of members survives its way through a command line. The daemon reads back exactly the table that was written, for every table of
  named and distinct members without separators and outer white space, and the client reads the addresses of its members. Daemons that get
  the members in different orders give Raft the same list of members, with the same address behind each place.\<close>

theorem raftkv_peers_roundtrip:
  assumes "ps \<noteq> []" "distinct (map fst ps)" "list_all peerOk ps" "mset qs = mset ps"
  shows "parsePeers (printPeers ps) = Inr ps \<and> parseAddrs (printPeers ps) = map snd ps \<and>
    (\<exists>m. parsePeers (printPeers qs) = Inr m \<and> runNodeIDs (cfg\<lparr>cf_peers := m\<rparr>) = runNodeIDs (cfg\<lparr>cf_peers := ps\<rparr>) \<and>
       runEnds (cfg\<lparr>cf_peers := m\<rparr>) = runEnds (cfg\<lparr>cf_peers := ps\<rparr>))"
proof -
  have "mset (map fst qs) = mset (map fst ps)" using assms(4) by (metis mset_map)
  then have "distinct (map fst qs)" using assms(2) mset_eq_imp_distinct_iff by blast
  moreover have "qs \<noteq> []" "list_all peerOk qs" using assms(1,3,4) mset_eq_setD [OF assms(4)] by (auto simp: list_all_iff)
  ultimately have "parsePeers (printPeers qs) = Inr qs" using parsePeers_print by blast
  moreover have "parseAddrs (printPeers ps) = map snd ps" using assms(1,3) by (simp add: parseAddrs_def Split_printPeers parseAddrsLoop_entries)
  ultimately show ?thesis using parsePeers_print [OF assms(1-3)] same_members [OF assms(4,2)] by blast
qed

definition demo_peers :: "(NodeID \<times> string) list" where
  "demo_peers = [(''n2'', ''10.0.0.2:7000''), (''n1'', ''10.0.0.1:7000'')]"

definition demo_config :: config where
  "demo_config = \<lparr>cf_nodeID = ''n1'', cf_listen = '':7000'', cf_peerPort = 7000, cf_clientPort = 7001, cf_dataDir = ''/data'', cf_peers = demo_peers,
     cf_replicas = 0, cf_statefulSetName = '''', cf_serviceDNS = '''', cf_peersDerived = False, cf_maxRaftState = -1\<rparr>"

theorem raftkv_peers_roundtrip_witness:
  "parsePeers ''n2=10.0.0.2:7000,n1=10.0.0.1:7000'' = Inr demo_peers \<and> parseAddrs ''n2=10.0.0.2:7000,n1=10.0.0.1:7000'' = [''10.0.0.2:7000'', ''10.0.0.1:7000''] \<and>
   (\<exists>m. parsePeers ''n1=10.0.0.1:7000,n2=10.0.0.2:7000'' = Inr m \<and> runNodeIDs (demo_config\<lparr>cf_peers := m\<rparr>) = runNodeIDs demo_config)"
proof -
  have c: "demo_config\<lparr>cf_peers := demo_peers\<rparr> = demo_config" by (simp add: demo_config_def)
  have "list_all peerOk demo_peers" by (simp add: demo_peers_def trimmed_def isSpace_def)
  then show ?thesis using raftkv_peers_roundtrip [of demo_peers "rev demo_peers" demo_config] unfolding c by (auto simp: demo_peers_def)
qed

section \<open>The client finds the leader\<close>

lemma askMembers_some: "i \<in> set members \<Longrightarrow> call i = Some rep \<Longrightarrow> err rep \<noteq> Err_ERR_WRONG_LEADER \<Longrightarrow>
    \<exists>rep'. askMembers err call members = Some rep' \<and> err rep' \<noteq> Err_ERR_WRONG_LEADER"
  by (induction members) (auto split: option.splits)

lemma ctl_doPut_returns:
  "r \<le> k \<Longrightarrow> k < r + rounds \<Longrightarrow> i < n \<Longrightarrow> call k i = Some rep \<Longrightarrow> ppr_Err rep \<noteq> Err_ERR_WRONG_LEADER \<Longrightarrow> \<exists>out. ctl_doPut rounds call r n = Some out"
proof (induction rounds arbitrary: r)
  case (Suc rounds)
  show ?case
  proof (cases "r = k")
    case True
    then show ?thesis using askMembers_some [of i "[0..<n]" "call r" rep ppr_Err] Suc.prems by auto
  qed (use Suc in \<open>auto split: option.splits\<close>)
qed simp

lemma ctl_doGet_returns:
  "r \<le> k \<Longrightarrow> k < r + rounds \<Longrightarrow> i < n \<Longrightarrow> call k i = Some rep \<Longrightarrow> pgr_Err rep \<noteq> Err_ERR_WRONG_LEADER \<Longrightarrow> \<exists>out. ctl_doGet rounds call r n = Some out"
proof (induction rounds arbitrary: r)
  case (Suc rounds)
  show ?case
  proof (cases "r = k")
    case True
    then show ?thesis using askMembers_some [of i "[0..<n]" "call r" rep pgr_Err] Suc.prems by auto
  qed (use Suc in \<open>auto split: option.splits\<close>)
qed simp

end
