(* ===== verification/Spec2Isabelle.thy ===== *)
theory Spec2Isabelle
  imports RaftProperties WalRaft Lock KvModel ShardClient Raftkvd
begin

text \<open>
  A verification development for a replicated and sharded key/value store in Go: Raft with
  write-ahead logs on disk, a replicated key/value service on it, a sharded service of several replicated groups, and
  the daemon and the gRPC transport that run them. Paths below are under \<open>src/src\<close>.

  \<^bold>\<open>Conventions.\<close> A method that changes an object is a function that returns the new object; a critical
  section under a lock is one function. A panic, \<open>log.Fatalf\<close> or an index out of range is the value \<open>None\<close>, an error that the code returns is a value. Go's
  \<open>int\<close> is \<open>int\<close> where it counts terms, indices and configuration numbers; fixed widths, checksums, hashes and versions are words. A nil slice is told from an empty
  one (\<open>slice\<close>). Code that is not in the repository (gob, JSON, Pebble, tar, gRPC) is a parameter, with what its documentation
  promises as a named hypothesis (\<open>gob_ok\<close>, \<open>json_ok\<close>, \<open>pebble_ok\<close>, \<open>wire_ok\<close> and others), and every theorem with such a hypothesis is
  applied to a concrete instance.

  \<^bold>\<open>Raft\<close> (\<open>raft1/raft.go\<close>, \<open>raft1/wal.go\<close>, \<open>raftapi\<close>).
  \<open>RaftTypes\<close> and \<open>Raft\<close> have the state of a node and each critical section: elections, votes, \<open>AppendEntriesHandler\<close> with its snapshot
  branch, replies, \<open>Start\<close>, \<open>Snapshot\<close>, the apply loop, leadership transfer, start-up. \<open>RaftCluster\<close> composes nodes, disks and a network that loses and reorders messages,
  with crashes inside a critical section (\<open>WalSpec\<close>). \<open>RaftSpec\<close> is an abstract protocol on whole logs with its invariant.
  \<open>RaftLocal\<close>, \<open>RaftRefine\<close>, \<open>RaftLeader\<close>, \<open>RaftVotes\<close> and \<open>RaftSafety\<close> show that the group refines it. \<open>RaftProperties\<close> concludes election
  safety, log matching, leader completeness, state machine safety, the order of the indices, and that no critical section panics.

  \<^bold>\<open>Disks\<close> (\<open>wal\<close>, \<open>filewal\<close>, \<open>persist\<close>, \<open>tester1/persister.go\<close>).
  \<open>RecordLog\<close> has the framed records with their checksum, \<open>MemFS\<close> the file system with injected faults and atomic replacement, \<open>FileWAL\<close> the log
  on two files, \<open>Persist\<close> the persisters and their adapter. The locale \<open>wal_contract\<close> of \<open>WalContract\<close> is what
  Raft relies on; both logs interpret it. \<open>WalRaft\<close> concludes crash safety of the file log and the safety of Raft on it.

  \<^bold>\<open>Key/value services.\<close> \<open>KvSrv\<close> is the single server with its clerk (\<open>kvsrv1\<close>), \<open>Lock\<close> the lock on it, \<open>KvModel\<close> the
  model of the tests (\<open>models1/kv.go\<close>). \<open>Rsm\<close> is \<open>kvraft1/rsm/rsm.go\<close> with its channels; \<open>RaftApply\<close> and \<open>Smr\<close> put it on a group of Raft nodes. The locale
  \<open>state_machine\<close> of \<open>Smr\<close> gives for every state machine that all replicas run prefixes of one list of requests. \<open>KvStore\<close> is the state machine of
  \<open>kvraft1/server.go\<close> on a store (locale \<open>kv_store\<close>), \<open>PebbleStore\<close> the disk store, and \<open>KvRaft\<close> shows that the replicated
  service is one copy of the single server, and that the clerk finds a leader. \<open>StartKVServer\<close> starts the reader of the apply channel before it restores
  the snapshot; the model has both orders (\<open>startOrder\<close>), with the reader running in between, and records when a start was overtaken.

  \<^bold>\<open>Sharded service\<close> (\<open>shardkv1\<close>). \<open>ShardCfg\<close> has the configurations and their balance, \<open>ShardGrp\<close> a group as a state machine, \<open>ShardCtrl\<close> the
  controller as a machine that stops at each of its calls. \<open>ShardMove\<close> is the life of one shard between groups; \<open>ShardSys\<close> composes controllers, clients,
  the server of the configurations and the groups, with calls that are executed late or again, and proves the invariant. \<open>ShardKV\<close> concludes that the service
  answers as one server while shards move, that a shard has one owner, and that no call panics; it also shows
  how a recovery between two reads loses data. \<open>ShardClient\<close> has the clerks and that a client finds the group of its key.

  \<^bold>\<open>Conditions.\<close> Some theorems hold under a condition that the code does not enforce; the model admits the other executions too, a field records them, and the
  theorem has the field as a hypothesis. \<open>sg_raced\<close> of \<open>Smr\<close>: a message was read, or another snapshot taken over, before \<open>StartKVServer\<close> had restored its
  snapshot (\<open>kvraft_one_copy\<close>; \<open>StartKVServer_overtaken\<close> shows that an operation is then lost). \<open>sk_stale\<close> of \<open>ShardSys\<close>: a controller that recovers has read
  configurations that do not belong together (\<open>shardkv_one_copy\<close>, \<open>shardkv_one_owner\<close>, \<open>shardkv_never_panics\<close>; \<open>shardkv_stale_recovery_loses_data\<close> is
  such an execution). \<open>rsm_answers_own_call\<close> assumes that the random numbers of operations differ, \<open>pebble_replay_exactly_once\<close> covers
  a snapshot ahead of the database and says which operations are then missing, and \<open>shard_client_finds_group\<close> leaves out groups that come back with other servers.

  \<^bold>\<open>Processes\<close> (\<open>transport/grpc\<close>, \<open>proto\<close>, \<open>cmd\<close>). \<open>GrpcTransport\<close> has the conversions, the services and the dispatch of a call, and shows that
  a call over gRPC does what the call of the handler does. \<open>Raftkvd\<close> has the configuration of the daemon and the
  command-line client, with the soundness of an accepted configuration and the round trip of a table of members.

  \<^bold>\<open>Shared.\<close> \<open>Prelude\<close> has slices, options, lists and quorums (locale \<open>quorum_system\<close>); \<open>Demo\<close> has encodings that satisfy the
  hypotheses about gob.

  \<^bold>\<open>Bounds.\<close> Loops over data are structural or have a termination proof. Loops that repeat calls until an answer
  comes take the list of results or a number of rounds; \<open>None\<close> is a caller that is still trying, and that enough rounds give a result is a theorem
  (\<open>kvraft_clerk_finds_leader\<close>, \<open>shard_client_finds_group\<close>). The loop of \<open>Rebalance\<close> is a partial
  function, and \<open>shard_balance\<close> shows that it returns. The theorems about the sharded service assume fewer than \<open>2 ^ 64\<close> configurations, whose numbers
  are the versions of their keys.

  \<^bold>\<open>Not modelled.\<close> System calls (\<open>osFS\<close> in \<open>wal/fs.go\<close>), connections, listening, signals and health reports; time, so that a time-out
  may strike at any moment; the memory model of Go, so that a critical section is one step; the simulated network \<open>labrpc\<close>, whose
  behaviour is the network of \<open>RaftCluster\<close>, \<open>labgob\<close>, generated code, the test harness, and the unfilled
  MapReduce skeleton. A crash of the disk store between the directory calls of \<open>Restore\<close> is left out, and
  white space other than ASCII in the configuration.
\<close>

end
